(* ===== verification/Aesd_Prelude.thy ===== *)
theory Aesd_Prelude
  imports Main "HOL-Library.Word" "HOL-Library.Monad_Syntax"
begin

text \<open>
  Shared vocabulary of the development: the C integer types as words of their width, byte
  memory as a map from the base address of a live block to its contents, and the generic
  facts on lists, words and transition systems that the component theories use.

  Undefined behaviour of C (a read or write outside a live block, a free of something that
  is not a live block, an array index out of range, a loop that never ends, a mutex that is
  locked twice by its owner) is the value \<^term>\<open>None\<close> of an option; the monad syntax for
  options threads it.  Error codes that the code returns are ordinary values.
\<close>

section \<open>C types\<close>

type_synonym uint8_t = "8 word"
type_synonym uint32_t = "32 word"
type_synonym size_t = "64 word"
type_synonym loff_t = "64 word"
type_synonym byte = char
type_synonym ptr = nat
type_synonym heap = "ptr \<rightharpoonup> byte list"

abbreviation (input) NULL :: ptr where
  "NULL \<equiv> 0"

abbreviation newline :: byte where
  "newline \<equiv> CHR 0x0A"

named_theorems mem_simps

section \<open>Byte memory\<close>

text \<open>
  A live block is a pair of its base address and its bytes.  \<open>load\<close> and \<open>store\<close> are the
  reads and writes through a pointer \<open>p + off\<close>; \<open>release\<close> is \<open>free\<close>/\<open>kfree\<close>, for which a
  NULL argument is a no-op and any other argument has to be the base of a live block.
\<close>

definition load :: "heap \<Rightarrow> ptr \<Rightarrow> nat \<Rightarrow> nat \<Rightarrow> byte list option" where
  "load h p off n =
     (case h p of
        None \<Rightarrow> None
      | Some bs \<Rightarrow> if off + n \<le> length bs then Some (take n (drop off bs)) else None)"

definition store :: "heap \<Rightarrow> ptr \<Rightarrow> nat \<Rightarrow> byte list \<Rightarrow> heap option" where
  "store h p off xs =
     (case h p of
        None \<Rightarrow> None
      | Some bs \<Rightarrow>
          if off + length xs \<le> length bs
          then Some (h(p \<mapsto> take off bs @ xs @ drop (off + length xs) bs))
          else None)"

definition release :: "heap \<Rightarrow> ptr \<Rightarrow> heap option" where
  "release h p =
     (if p = NULL then Some h
      else case h p of None \<Rightarrow> None | Some _ \<Rightarrow> Some (h(p := None)))"

lemma load_live [mem_simps]:
  "h p = Some bs \<Longrightarrow> off + n \<le> length bs \<Longrightarrow> load h p off n = Some (take n (drop off bs))"
  by (simp add: load_def)

lemma store_live [mem_simps]:
  "h p = Some bs \<Longrightarrow> off + length xs \<le> length bs \<Longrightarrow>
   store h p off xs = Some (h(p \<mapsto> take off bs @ xs @ drop (off + length xs) bs))"
  by (simp add: store_def)

lemma release_live [mem_simps]:
  "h p = Some bs \<Longrightarrow> p \<noteq> NULL \<Longrightarrow> release h p = Some (h(p := None))"
  by (simp add: release_def)

lemma release_NULL [mem_simps, simp]: "release h NULL = Some h"
  by (simp add: release_def)

section \<open>Lists\<close>

definition last_n :: "nat \<Rightarrow> 'a list \<Rightarrow> 'a list" where
  "last_n n xs = drop (length xs - n) xs"

lemma length_last_n [simp]: "length (last_n n xs) = min n (length xs)"
  by (simp add: last_n_def)

lemma last_n_all: "length xs \<le> n \<Longrightarrow> last_n n xs = xs"
  by (simp add: last_n_def)

lemma last_n_snoc_full: "length xs = n \<Longrightarrow> 0 < n \<Longrightarrow> last_n n (xs @ [x]) = tl xs @ [x]"
  by (cases xs) (simp_all add: last_n_def)

lemma set_last_n: "set (last_n n xs) \<subseteq> set xs"
  by (auto simp: last_n_def dest: in_set_dropD)

lemma map_last_n: "map f (last_n n xs) = last_n n (map f xs)"
  by (simp add: last_n_def drop_map)

lemma last_n_append_last_n: "last_n n (last_n n xs @ ys) = last_n n (xs @ ys)"
proof (cases "length xs \<le> n")
  case True
  then show ?thesis by (simp add: last_n_all)
next
  case False
  then have "length (last_n n xs @ ys) - n = length ys" by simp
  moreover have "last_n n xs @ ys = drop (length xs - n) (xs @ ys)"
    using False by (simp add: last_n_def)
  ultimately show ?thesis
    using False by (simp add: last_n_def add.commute)
qed

lemma distinct_last_n: "distinct xs \<Longrightarrow> distinct (last_n n xs)"
  by (simp add: last_n_def)

lemma sum_list_le_bound: "(\<And>n. n \<in> set ns \<Longrightarrow> n \<le> m) \<Longrightarrow> sum_list ns \<le> length ns * (m :: nat)"
  by (induction ns) (auto simp: add_mono)

section \<open>Words\<close>

lemma unat64_bound: "unat (x :: 64 word) < 2 ^ 64"
  by (rule order_less_le_trans [OF unsigned_less]) simp

lemma unat_add_no_overflow:
  fixes a b :: "64 word"
  assumes "unat a + unat b < 2 ^ 64"
  shows "unat (a + b) = unat a + unat b"
  using assms by (simp add: unat_word_ariths)

lemma unat_diff_le:
  fixes a b :: "64 word"
  assumes "unat b \<le> unat a"
  shows "unat (a - b) = unat a - unat b"
  using assms by (simp add: unat_sub word_le_nat_alt)

lemma unat_of_nat64: "n < 2 ^ 64 \<Longrightarrow> unat (word_of_nat n :: 64 word) = n"
  by (simp add: unat_of_nat)

lemma unat_of_nat8: "n < 256 \<Longrightarrow> unat (word_of_nat n :: 8 word) = n"
  by (simp add: unat_of_nat)

section \<open>Transition systems\<close>

text \<open>
  Reachable states of a labelled step relation from a set of initial states, and the
  principle that an invariant of the initial states kept by every step holds in all of them.
\<close>

inductive reach :: "('s \<Rightarrow> bool) \<Rightarrow> ('s \<Rightarrow> 'l \<Rightarrow> 's \<Rightarrow> bool) \<Rightarrow> 's \<Rightarrow> bool"
  for init :: "'s \<Rightarrow> bool" and step :: "'s \<Rightarrow> 'l \<Rightarrow> 's \<Rightarrow> bool"
where
  reach_init: "init s \<Longrightarrow> reach init step s"
| reach_step: "reach init step s \<Longrightarrow> step s l t \<Longrightarrow> reach init step t"

locale invariant_system =
  fixes init :: "'s \<Rightarrow> bool"
    and step :: "'s \<Rightarrow> 'l \<Rightarrow> 's \<Rightarrow> bool"
    and inv :: "'s \<Rightarrow> bool"
  assumes inv_init: "init s \<Longrightarrow> inv s"
    and inv_step: "inv s \<Longrightarrow> step s l t \<Longrightarrow> inv t"
begin

lemma reach_inv: "reach init step s \<Longrightarrow> inv s"
  by (induction rule: reach.induct) (auto intro: inv_init inv_step)

end

section \<open>Fair runs\<close>

text \<open>
  An infinite run, in which nothing may happen for a while (\<open>None\<close>), and the fairness of a group of
  steps: if from some time on one of them is always possible, one of them is taken.  The locale
  is the usual argument for progress: a rank that no step raises and the fair steps lower.
\<close>

definition is_run :: "('s \<Rightarrow> 'l \<Rightarrow> 's \<Rightarrow> bool) \<Rightarrow> (nat \<Rightarrow> 's) \<Rightarrow> (nat \<Rightarrow> 'l option) \<Rightarrow> bool" where
  "is_run step \<sigma> ls \<longleftrightarrow>
     (\<forall>i. case ls i of None \<Rightarrow> \<sigma> (Suc i) = \<sigma> i | Some l \<Rightarrow> step (\<sigma> i) l (\<sigma> (Suc i)))"

definition weakly_fair ::
  "('s \<Rightarrow> 'l \<Rightarrow> 's \<Rightarrow> bool) \<Rightarrow> ('l \<Rightarrow> bool) \<Rightarrow> (nat \<Rightarrow> 's) \<Rightarrow> (nat \<Rightarrow> 'l option) \<Rightarrow> bool"
where
  "weakly_fair step own \<sigma> ls \<longleftrightarrow>
     (\<forall>i. (\<forall>j\<ge>i. \<exists>l t. own l \<and> step (\<sigma> j) l t) \<longrightarrow> (\<exists>j\<ge>i. \<exists>l. ls j = Some l \<and> own l))"

context invariant_system
begin

lemma run_inv:
  assumes "is_run step \<sigma> ls" and "inv (\<sigma> 0)"
  shows "inv (\<sigma> n)"
proof (induction n)
  case (Suc n)
  then show ?case using assms(1) inv_step [of "\<sigma> n"] unfolding is_run_def by (cases "ls n") (force split: option.splits)+
qed (rule assms(2))

end

locale ranked_progress =
  fixes step :: "'s \<Rightarrow> 'l \<Rightarrow> 's \<Rightarrow> bool"
    and own :: "'l \<Rightarrow> bool"
    and inv :: "'s \<Rightarrow> bool"
    and goal :: "'s \<Rightarrow> bool"
    and rank :: "'s \<Rightarrow> nat"
  assumes keeps: "inv s \<Longrightarrow> \<not> goal s \<Longrightarrow> step s l t \<Longrightarrow> inv t \<and> rank t \<le> rank s"
    and possible: "inv s \<Longrightarrow> \<not> goal s \<Longrightarrow> \<exists>l t. own l \<and> step s l t"
    and lowers: "inv s \<Longrightarrow> \<not> goal s \<Longrightarrow> step s l t \<Longrightarrow> own l \<Longrightarrow> rank t < rank s"
begin

lemma reaches_goal_from:
  assumes "is_run step \<sigma> ls" and "weakly_fair step own \<sigma> ls" and "inv (\<sigma> i)"
  shows "\<exists>n\<ge>i. goal (\<sigma> n)"
  using assms(3)
proof (induction "rank (\<sigma> i)" arbitrary: i rule: less_induct)
  case less
  show ?case
  proof (rule ccontr)
    assume "\<not> ?thesis"
    then have no: "\<not> goal (\<sigma> j)" if "i \<le> j" for j using that by auto
    have along: "inv (\<sigma> j) \<and> rank (\<sigma> j) \<le> rank (\<sigma> i)" if "i \<le> j" for j
      using that
    proof (induction rule: dec_induct)
      case (step j)
      then show ?case
        using assms(1) keeps [OF _ no [of j]] unfolding is_run_def by (force split: option.splits)
    qed (simp add: less.prems)
    then have "\<forall>j\<ge>i. \<exists>l t. own l \<and> step (\<sigma> j) l t" using possible no by blast
    then obtain j l where j: "i \<le> j" "ls j = Some l" "own l"
      using assms(2) unfolding weakly_fair_def by blast
    then have st: "step (\<sigma> j) l (\<sigma> (Suc j))" using assms(1) unfolding is_run_def by (force split: option.splits)
    have "rank (\<sigma> (Suc j)) < rank (\<sigma> i)" "inv (\<sigma> (Suc j))"
      using lowers [OF _ no [OF j(1)] st j(3)] keeps [OF _ no [OF j(1)] st] along [OF j(1)] by auto
    from less.hyps [OF this] no j(1) show False by (meson Suc_leD le_trans)
  qed
qed

end

end
