(* ===== verification/Circular_Buffer.thy ===== *)
theory Circular_Buffer
  imports Aesd_Prelude
begin

text \<open>
  The circular buffer of \<open>aesd-char-driver/aesd-circular-buffer.c\<close> and its header: ten slots,
  an insertion index, a read index and the \<open>full\<close> flag.  The theory gives the buffer's data,
  its three functions and the \<open>FOREACH\<close> traversal, an invariant, the abstraction of a buffer to
  the list of its entries, oldest first, and the refinement of every operation to that list.
  The contract other components use is the locale \<open>bounded_log\<close>, interpreted on the code's
  operations at the end.
\<close>

section \<open>Data and operations\<close>

definition AESDCHAR_MAX_WRITE_OPERATIONS_SUPPORTED :: nat where
  [simp]: "AESDCHAR_MAX_WRITE_OPERATIONS_SUPPORTED = 10"

record aesd_buffer_entry =
  buffptr :: ptr
  esize :: size_t

record aesd_circular_buffer =
  entry :: "aesd_buffer_entry list"
  in_offs :: uint8_t
  out_offs :: uint8_t
  full :: bool

text \<open>The all-zero entry that \<open>memset\<close> leaves in a slot.\<close>

definition null_entry :: aesd_buffer_entry where
  "null_entry = \<lparr>buffptr = NULL, esize = 0\<rparr>"

lemma entry_eta [simp]: "\<lparr>buffptr = buffptr e, esize = esize e\<rparr> = e"
  by (cases e) simp

lemma entry_fill: "e\<lparr>buffptr := p, esize := n\<rparr> = \<lparr>buffptr = p, esize = n\<rparr>"
  by (cases e) simp

lemma entry_reset [simp]: "e\<lparr>buffptr := NULL, esize := 0\<rparr> = null_entry"
  by (cases e) (simp add: null_entry_def)

lemma null_entry_sel [simp]: "buffptr null_entry = NULL" "esize null_entry = 0"
  by (simp_all add: null_entry_def)

text \<open>An access \<open>buffer->entry[i]\<close>; outside the array it has no meaning.\<close>

definition entry_at :: "aesd_circular_buffer \<Rightarrow> nat \<Rightarrow> aesd_buffer_entry option" where
  "entry_at b i = (if i < length (entry b) then Some (entry b ! i) else None)"

text \<open>
  \<open>(index + 1) % AESDCHAR_MAX_WRITE_OPERATIONS_SUPPORTED\<close>: the operand is promoted to \<open>int\<close>,
  so the sum does not wrap at 256; the remainder is converted back to \<open>uint8_t\<close>.
\<close>

definition next_offs :: "uint8_t \<Rightarrow> uint8_t" where
  "next_offs i = word_of_nat ((unat i + 1) mod AESDCHAR_MAX_WRITE_OPERATIONS_SUPPORTED)"

text \<open>
  The do-while loop of \<open>aesd_circular_buffer_find_entry_offset_for_fpos\<close>.  The result
  \<open>Some (Some (i, n))\<close> stands for the returned \<open>&buffer->entry[i]\<close> with \<open>n\<close> stored through
  \<open>entry_offset_byte_rtn\<close>, and \<open>Some None\<close> for a returned NULL.
\<close>

partial_function (option) find_entry_loop ::
  "aesd_circular_buffer \<Rightarrow> size_t \<Rightarrow> size_t \<Rightarrow> uint8_t \<Rightarrow> (uint8_t \<times> size_t) option option"
where
  "find_entry_loop b char_offset running_size index = do {
     e \<leftarrow> entry_at b (unat index);
     if char_offset < running_size + esize e
     then Some (Some (index, char_offset - running_size))
     else let running_size' = running_size + esize e; index' = next_offs index in
       if (index' \<noteq> in_offs b \<or> full b) \<and> index' \<noteq> out_offs b
       then find_entry_loop b char_offset running_size' index'
       else Some None
   }"

declare find_entry_loop.simps [code]

definition aesd_circular_buffer_find_entry_offset_for_fpos ::
  "aesd_circular_buffer \<Rightarrow> size_t \<Rightarrow> (uint8_t \<times> size_t) option option"
where
  "aesd_circular_buffer_find_entry_offset_for_fpos b char_offset =
     find_entry_loop b char_offset 0 (out_offs b)"

definition aesd_circular_buffer_add_entry ::
  "aesd_circular_buffer \<Rightarrow> aesd_buffer_entry \<Rightarrow> (ptr \<times> aesd_circular_buffer) option"
where
  "aesd_circular_buffer_add_entry b add_entry = do {
     e \<leftarrow> entry_at b (unat (in_offs b));
     let removed = (if full b then buffptr e else NULL);
     let b1 = (if full b then b\<lparr>out_offs := next_offs (out_offs b)\<rparr> else b);
     let b2 = b1\<lparr>entry := (entry b1)[unat (in_offs b1) := add_entry]\<rparr>;
     let b3 = b2\<lparr>in_offs := next_offs (in_offs b2)\<rparr>;
     let b4 = (if in_offs b3 = out_offs b3 then b3\<lparr>full := True\<rparr> else b3);
     Some (removed, b4)
   }"

definition aesd_circular_buffer_init :: aesd_circular_buffer where
  "aesd_circular_buffer_init =
     \<lparr>entry = replicate AESDCHAR_MAX_WRITE_OPERATIONS_SUPPORTED null_entry,
      in_offs = 0, out_offs = 0, full = False\<rparr>"

text \<open>
  \<open>AESD_CIRCULAR_BUFFER_FOREACH\<close>: the body runs on every slot in array order; here it may
  stop the traversal (\<open>Inr\<close>, a \<open>break\<close>) or pass a new accumulator on (\<open>Inl\<close>).
\<close>

fun foreach_entry ::
  "(nat \<Rightarrow> aesd_buffer_entry \<Rightarrow> 'a \<Rightarrow> 'a + 'a) \<Rightarrow> nat \<Rightarrow> aesd_buffer_entry list \<Rightarrow> 'a \<Rightarrow> 'a"
where
  "foreach_entry body i [] acc = acc"
| "foreach_entry body i (e # es) acc =
     (case body i e acc of Inl acc' \<Rightarrow> foreach_entry body (Suc i) es acc' | Inr acc' \<Rightarrow> acc')"

definition AESD_CIRCULAR_BUFFER_FOREACH ::
  "(nat \<Rightarrow> aesd_buffer_entry \<Rightarrow> 'a \<Rightarrow> 'a + 'a) \<Rightarrow> aesd_circular_buffer \<Rightarrow> 'a \<Rightarrow> 'a"
where
  "AESD_CIRCULAR_BUFFER_FOREACH body b acc = foreach_entry body 0 (entry b) acc"

section \<open>Invariant and abstraction\<close>

text \<open>
  The read index moves only once the buffer is full, so a buffer that is not full reads from
  slot 0 and the slots from \<open>in_offs\<close> on are still the zeroed ones.
\<close>

definition cbuf_inv :: "aesd_circular_buffer \<Rightarrow> bool" where
  "cbuf_inv b \<longleftrightarrow>
     length (entry b) = 10 \<and> unat (in_offs b) < 10 \<and>
     (if full b then out_offs b = in_offs b
      else out_offs b = 0 \<and>
        drop (unat (in_offs b)) (entry b) = replicate (10 - unat (in_offs b)) null_entry)"

definition cbuf_entries :: "aesd_circular_buffer \<Rightarrow> aesd_buffer_entry list" where
  "cbuf_entries b =
     (if full b then rotate (unat (out_offs b)) (entry b) else take (unat (in_offs b)) (entry b))"

lemma cbuf_inv_length: "cbuf_inv b \<Longrightarrow> length (entry b) = 10"
  by (simp add: cbuf_inv_def)

lemma cbuf_inv_in: "cbuf_inv b \<Longrightarrow> unat (in_offs b) < 10"
  by (simp add: cbuf_inv_def)

lemma cbuf_inv_out: "cbuf_inv b \<Longrightarrow> unat (out_offs b) < 10"
  by (auto simp: cbuf_inv_def split: if_splits)

lemma length_cbuf_entries:
  "cbuf_inv b \<Longrightarrow> length (cbuf_entries b) = (if full b then 10 else unat (in_offs b))"
  by (simp add: cbuf_entries_def cbuf_inv_def)

lemma length_cbuf_entries_le: "cbuf_inv b \<Longrightarrow> length (cbuf_entries b) \<le> 10"
  using cbuf_inv_in [of b] by (simp add: length_cbuf_entries)

text \<open>The \<open>j\<close>-th oldest entry sits \<open>j\<close> slots after \<open>out_offs\<close>, modulo the array.\<close>

lemma cbuf_entries_nth:
  assumes "cbuf_inv b" and "j < length (cbuf_entries b)"
  shows "cbuf_entries b ! j = entry b ! ((unat (out_offs b) + j) mod 10)"
  using assms
  by (auto simp: cbuf_entries_def cbuf_inv_def nth_rotate split: if_splits)

lemma unat_next_offs [simp]: "unat (next_offs i) = (unat i + 1) mod 10"
proof -
  have "(unat i + 1) mod 10 < 256" by (rule less_trans [of _ 10]) simp_all
  then show ?thesis by (simp add: next_offs_def unat_of_nat)
qed

lemma cbuf_inv_init: "cbuf_inv aesd_circular_buffer_init"
  by (simp add: cbuf_inv_def aesd_circular_buffer_init_def)

lemma cbuf_entries_init: "cbuf_entries aesd_circular_buffer_init = []"
  by (simp add: cbuf_entries_def aesd_circular_buffer_init_def)


section \<open>The search\<close>

text \<open>
  What the loop computes, on the list of the entries it visits and with the same wrap-around
  arithmetic: the position in the list and the offset in the entry.
\<close>

fun scan :: "size_t \<Rightarrow> size_t \<Rightarrow> aesd_buffer_entry list \<Rightarrow> (nat \<times> size_t) option" where
  "scan char_offset running_size [] = None"
| "scan char_offset running_size (e # es) =
     (if char_offset < running_size + esize e then Some (0, char_offset - running_size)
      else map_option (apfst Suc) (scan char_offset (running_size + esize e) es))"

definition slot :: "aesd_circular_buffer \<Rightarrow> nat \<Rightarrow> uint8_t" where
  "slot b k = word_of_nat ((unat (out_offs b) + k) mod 10)"

lemma unat_slot [simp]: "unat (slot b k) = (unat (out_offs b) + k) mod 10"
proof -
  have "(unat (out_offs b) + k) mod 10 < 256" by (rule less_trans [of _ 10]) simp_all
  then show ?thesis by (simp add: slot_def unat_of_nat)
qed

lemma slot_0: "cbuf_inv b \<Longrightarrow> slot b 0 = out_offs b"
  using cbuf_inv_out [of b] by (simp add: slot_def)

lemma next_offs_slot [simp]: "next_offs (slot b k) = slot b (Suc k)"
  by (simp add: word_unat_eq_iff mod_simps)

text \<open>How many slots the loop visits: all of them when the buffer is full or empty.\<close>

definition visited :: "aesd_circular_buffer \<Rightarrow> nat" where
  "visited b = (if full b \<or> in_offs b = 0 then 10 else unat (in_offs b))"

lemma visited_le: "cbuf_inv b \<Longrightarrow> visited b \<le> 10"
  using cbuf_inv_in [of b] by (simp add: visited_def)

lemma visited_pos: "cbuf_inv b \<Longrightarrow> 0 < visited b"
  by (simp add: visited_def unat_gt_0)

lemma loop_guard:
  assumes "cbuf_inv b" and "k < visited b"
  shows "((slot b (Suc k) \<noteq> in_offs b \<or> full b) \<and> slot b (Suc k) \<noteq> out_offs b) \<longleftrightarrow> Suc k < visited b"
proof -
  have eq: "x = y \<longleftrightarrow> unat x = unat y" for x y :: uint8_t
    by (rule word_unat_eq_iff)
  have *: "Suc (n + k) mod 10 = n \<longleftrightarrow> k = 9" if "n < 10" "k < 10" for n :: nat
    using that by (cases "n + Suc k < 10") (auto simp: le_mod_geq)
  show ?thesis
  proof (cases "full b")
    case True
    with assms cbuf_inv_out [of b] show ?thesis
      by (auto simp: eq visited_def *)
  next
    case False
    with assms(1) have o: "out_offs b = 0" by (simp add: cbuf_inv_def)
    show ?thesis
    proof (cases "in_offs b = 0")
      case True
      with assms(2) False o show ?thesis by (auto simp: eq visited_def * [of 0, simplified])
    next
      case False
      with assms \<open>\<not> full b\<close> o cbuf_inv_in [of b] show ?thesis
        by (auto simp: eq visited_def)
    qed
  qed
qed

text \<open>The entries the loop visits, in order.\<close>

definition visited_entries :: "aesd_circular_buffer \<Rightarrow> aesd_buffer_entry list" where
  "visited_entries b = map (\<lambda>k. entry b ! ((unat (out_offs b) + k) mod 10)) [0..<visited b]"

lemma find_entry_loop_scan:
  assumes "cbuf_inv b" and "k < visited b"
  shows "find_entry_loop b x r (slot b k) =
    Some (map_option (\<lambda>(j, n). (slot b (k + j), n)) (scan x r (drop k (visited_entries b))))"
  using assms(2)
proof (induction "visited b - k" arbitrary: k r rule: less_induct)
  case less
  let ?e = "entry b ! ((unat (out_offs b) + k) mod 10)"
  have at: "entry_at b ((unat (out_offs b) + k) mod 10) = Some ?e"
    using assms(1) by (simp add: entry_at_def cbuf_inv_length)
  have drop: "drop k (visited_entries b) = ?e # drop (Suc k) (visited_entries b)"
    using less.prems by (subst Cons_nth_drop_Suc [symmetric]) (simp_all add: visited_entries_def)
  have guard: "((slot b (Suc k) \<noteq> in_offs b \<or> full b) \<and> slot b (Suc k) \<noteq> out_offs b) \<longleftrightarrow>
      Suc k < visited b"
    by (rule loop_guard [OF assms(1) less.prems])
  show ?case
  proof (cases "Suc k < visited b")
    case True
    have "find_entry_loop b x (r + esize ?e) (slot b (Suc k)) =
        Some (map_option (\<lambda>(j, n). (slot b (Suc k + j), n))
          (scan x (r + esize ?e) (drop (Suc k) (visited_entries b))))"
      using True by (intro less.hyps) auto
    then show ?thesis using True guard
      by (subst find_entry_loop.simps)
        (simp add: at drop option.map_comp comp_def case_prod_unfold apfst_def map_prod_def)
  next
    case False
    then have "drop (Suc k) (visited_entries b) = []"
      by (simp add: visited_entries_def)
    with False guard show ?thesis
      by (subst find_entry_loop.simps) (auto simp: at drop Let_def)
  qed
qed


lemma scan_null_entries: "scan x r (replicate n null_entry) = (if n = 0 \<or> \<not> x < r then None else Some (0, x - r))"
  by (induction n) (auto simp: null_entry_def)

lemma scan_visited: "cbuf_inv b \<Longrightarrow> scan x 0 (visited_entries b) = scan x 0 (cbuf_entries b)"
proof (cases "full b \<or> in_offs b \<noteq> 0")
  case True
  assume inv: "cbuf_inv b"
  have "visited_entries b = cbuf_entries b"
  proof (rule nth_equalityI)
    show "length (visited_entries b) = length (cbuf_entries b)"
      using True inv by (auto simp: visited_entries_def visited_def length_cbuf_entries)
    fix i assume "i < length (visited_entries b)"
    with \<open>length (visited_entries b) = length (cbuf_entries b)\<close>
    show "visited_entries b ! i = cbuf_entries b ! i"
      using inv by (simp add: cbuf_entries_nth) (simp add: visited_entries_def)
  qed
  then show ?thesis by simp
next
  case False
  assume inv: "cbuf_inv b"
  with False have "entry b = replicate 10 null_entry" and "out_offs b = 0"
    by (simp_all add: cbuf_inv_def)
  then have "visited_entries b = replicate 10 null_entry"
    using False by (intro nth_equalityI) (simp_all add: visited_entries_def visited_def)
  then show ?thesis
    using False inv by (simp add: scan_null_entries cbuf_entries_def)
qed

text \<open>The search always returns, and finds what the list scan finds.\<close>

lemma find_entry_scan:
  assumes "cbuf_inv b"
  shows "aesd_circular_buffer_find_entry_offset_for_fpos b x =
    Some (map_option (\<lambda>(j, n). (slot b j, n)) (scan x 0 (cbuf_entries b)))"
proof -
  have "find_entry_loop b x 0 (slot b 0) =
      Some (map_option (\<lambda>(j, n). (slot b (0 + j), n)) (scan x 0 (drop 0 (visited_entries b))))"
    by (rule find_entry_loop_scan [OF assms visited_pos [OF assms]])
  then show ?thesis
    using assms
    by (simp add: aesd_circular_buffer_find_entry_offset_for_fpos_def slot_0 scan_visited)
qed

section \<open>Offsets of a concatenation\<close>

text \<open>
  The documented meaning of a search: \<open>locate ns i\<close> is the part and the offset in it of
  position \<open>i\<close> in a concatenation of parts of lengths \<open>ns\<close>.
\<close>

fun locate :: "nat list \<Rightarrow> nat \<Rightarrow> (nat \<times> nat) option" where
  "locate [] i = None"
| "locate (n # ns) i = (if i < n then Some (0, i) else map_option (apfst Suc) (locate ns (i - n)))"

lemma locate_None: "locate ns i = None \<longleftrightarrow> sum_list ns \<le> i"
proof (induction ns arbitrary: i)
  case Nil
  then show ?case by simp
next
  case (Cons n ns)
  have "\<not> i < n \<Longrightarrow> sum_list ns \<le> i - n \<longleftrightarrow> n + sum_list ns \<le> i" by linarith
  then show ?case by (simp only: locate.simps Cons.IH sum_list.Cons option.map_disc_iff split: if_split) simp
qed

lemma locate_Some:
  "locate ns i = Some (j, k) \<longleftrightarrow> j < length ns \<and> k < ns ! j \<and> i = sum_list (take j ns) + k"
proof (induction ns arbitrary: i j)
  case Nil
  then show ?case by simp
next
  case (Cons n ns)
  show ?case
  proof (cases j)
    case 0
    then show ?thesis by (auto simp: apfst_def map_prod_def)
  next
    case (Suc j')
    have "map_option (apfst Suc) r = Some (Suc j', k) \<longleftrightarrow> r = Some (j', k)" for r :: "(nat \<times> nat) option"
      by (cases r) auto
    with Suc show ?thesis
      by (cases "i < n") (simp_all add: Cons.IH le_diff_conv2 eq_diff_iff, linarith)
  qed
qed

lemma locate_concat:
  assumes "locate (map length xss) i = Some (j, k)"
  shows "drop i (concat xss) = drop k (xss ! j) @ concat (drop (Suc j) xss)"
  using assms
proof (induction xss arbitrary: i j)
  case Nil
  then show ?case by simp
next
  case (Cons xs xss)
  then show ?case by (cases "i < length xs") auto
qed

definition entry_sizes :: "aesd_buffer_entry list \<Rightarrow> nat list" where
  "entry_sizes es = map (\<lambda>e. unat (esize e)) es"

lemma entry_sizes_simps [simp]:
  "entry_sizes [] = []"
  "entry_sizes (e # es) = unat (esize e) # entry_sizes es"
  "entry_sizes (es @ fs) = entry_sizes es @ entry_sizes fs"
  "length (entry_sizes es) = length es"
  by (simp_all add: entry_sizes_def)

lemma entry_sizes_nth [simp]: "i < length es \<Longrightarrow> entry_sizes es ! i = unat (esize (es ! i))"
  by (simp add: entry_sizes_def)

text \<open>Without overflow of the running size, the scan is \<open>locate\<close> on the sizes.\<close>

lemma scan_locate:
  assumes "unat r + sum_list (entry_sizes es) < 2 ^ 64" and "unat r \<le> unat x"
  shows "scan x r es = map_option (apsnd word_of_nat) (locate (entry_sizes es) (unat x - unat r))"
  using assms
proof (induction es arbitrary: r)
  case Nil
  then show ?case by simp
next
  case (Cons e es)
  then have sum: "unat (r + esize e) = unat r + unat (esize e)"
    by (intro unat_add_no_overflow) simp
  show ?case
  proof (cases "unat x < unat r + unat (esize e)")
    case True
    with Cons.prems(2) have "unat x - unat r < unat (esize e)" by linarith
    with True Cons.prems(2) show ?thesis
      by (simp add: word_less_nat_alt sum)
  next
    case False
    with Cons.prems have "scan x (r + esize e) es =
        map_option (apsnd word_of_nat) (locate (entry_sizes es) (unat x - unat (r + esize e)))"
      by (intro Cons.IH) (simp_all add: sum)
    with False Cons.prems(2) show ?thesis
      by (simp add: word_less_nat_alt sum not_less less_diff_conv option.map_comp comp_def
          apfst_def apsnd_def map_prod_def case_prod_unfold)
  qed
qed


lemma find_entry_locate:
  assumes "cbuf_inv b" and "sum_list (entry_sizes (cbuf_entries b)) < 2 ^ 64"
  shows "aesd_circular_buffer_find_entry_offset_for_fpos b x =
    Some (map_option (\<lambda>(j, n). (slot b j, word_of_nat n))
      (locate (entry_sizes (cbuf_entries b)) (unat x)))"
proof -
  have "scan x 0 (cbuf_entries b) =
      map_option (apsnd word_of_nat) (locate (entry_sizes (cbuf_entries b)) (unat x))"
    using scan_locate [of 0 "cbuf_entries b" x] assms(2) by simp
  then show ?thesis
    using assms(1)
    by (simp add: find_entry_scan option.map_comp comp_def apsnd_def map_prod_def case_prod_unfold)
qed

lemma entry_at_slot:
  assumes "cbuf_inv b" and "j < length (cbuf_entries b)"
  shows "entry_at b (unat (slot b j)) = Some (cbuf_entries b ! j)"
  using assms cbuf_inv_length [OF assms(1)] cbuf_entries_nth [OF assms]
  by (simp add: entry_at_def)

section \<open>Insertion\<close>

lemma add_entry_eq:
  assumes "cbuf_inv b"
  shows "aesd_circular_buffer_add_entry b e =
    Some (if full b then buffptr (entry b ! unat (in_offs b)) else NULL,
      \<lparr>entry = (entry b)[unat (in_offs b) := e],
       in_offs = next_offs (in_offs b),
       out_offs = (if full b then next_offs (out_offs b) else out_offs b),
       full = (full b \<or> next_offs (in_offs b) = out_offs b)\<rparr>)"
  using cbuf_inv_length [OF assms] cbuf_inv_in [OF assms]
  by (cases b) (auto simp: aesd_circular_buffer_add_entry_def entry_at_def Let_def)

lemma rotate1_update_hd:
  "xs \<noteq> [] \<Longrightarrow> rotate1 (xs[0 := e]) = tl xs @ [e]"
  by (cases xs) auto

text \<open>Overwriting the slot the read index is at, and advancing it, drops the oldest entry.\<close>

lemma rotate_update:
  assumes "i < length xs"
  shows "rotate (Suc i) (xs[i := e]) = tl (rotate i xs) @ [e]"
proof -
  have "rotate i (xs[i := e]) = (rotate i xs)[0 := e]"
    using assms by (simp add: rotate_drop_take drop_update_swap list_update_append)
  moreover have "rotate i xs \<noteq> []"
    using assms by auto
  ultimately show ?thesis
    by (simp add: rotate1_update_hd)
qed


lemma add_entry_full:
  assumes "cbuf_inv b" and "full b"
    and "aesd_circular_buffer_add_entry b e = Some (removed, b')"
  shows "cbuf_inv b' \<and> full b' \<and> cbuf_entries b' = tl (cbuf_entries b) @ [e] \<and>
    removed = buffptr (hd (cbuf_entries b))"
proof -
  let ?i = "unat (in_offs b)"
  have i: "?i < 10" and len: "length (entry b) = 10" and out: "out_offs b = in_offs b"
    using assms(1,2) by (simp_all add: cbuf_inv_def)
  have b': "b' = \<lparr>entry = (entry b)[?i := e], in_offs = next_offs (in_offs b),
      out_offs = next_offs (in_offs b), full = True\<rparr>"
    and r: "removed = buffptr (entry b ! ?i)"
    using assms out by (simp_all add: add_entry_eq)
  have "rotate (Suc ?i mod length (entry b)) ((entry b)[?i := e]) =
      rotate (Suc ?i) ((entry b)[?i := e])"
    by (subst rotate_conv_mod) simp
  then have "cbuf_entries b' = tl (cbuf_entries b) @ [e]"
    using i len assms(2) out by (simp add: b' cbuf_entries_def rotate_update del: rotate_Suc)
  moreover have "cbuf_inv b'"
    using len by (simp add: cbuf_inv_def b')
  moreover have "hd (cbuf_entries b) = entry b ! ?i"
    using assms(2) len i out by (simp add: cbuf_entries_def hd_rotate_conv_nth flip: length_0_conv)
  ultimately show ?thesis
    using r by (simp add: b')
qed

lemma add_entry_not_full:
  assumes "cbuf_inv b" and "\<not> full b"
    and "aesd_circular_buffer_add_entry b e = Some (removed, b')"
  shows "cbuf_inv b' \<and> cbuf_entries b' = cbuf_entries b @ [e] \<and> removed = NULL"
proof -
  let ?i = "unat (in_offs b)"
  have i: "?i < 10" and len: "length (entry b) = 10" and out: "out_offs b = 0"
    and rest: "drop ?i (entry b) = replicate (10 - ?i) null_entry"
    using assms(1,2) by (simp_all add: cbuf_inv_def)
  have b': "b' = \<lparr>entry = (entry b)[?i := e], in_offs = next_offs (in_offs b),
      out_offs = 0, full = (next_offs (in_offs b) = 0)\<rparr>"
    and r: "removed = NULL"
    using assms out by (simp_all add: add_entry_eq)
  have full': "next_offs (in_offs b) = 0 \<longleftrightarrow> ?i = 9"
    using i by (cases "?i = 9") (simp_all add: word_unat_eq_iff mod_less)
  have upd: "take (Suc ?i) ((entry b)[?i := e]) = take ?i (entry b) @ [e]"
    using i len by (simp add: take_Suc_conv_app_nth)
  have "drop (Suc ?i) (entry b) = drop 1 (drop ?i (entry b))" by simp
  then have rest': "drop (Suc ?i) (entry b) = replicate (9 - ?i) null_entry"
    by (simp add: rest)
  show ?thesis
  proof (cases "?i = 9")
    case True
    then have "(entry b)[?i := e] = take ?i (entry b) @ [e]"
      using upd len by simp
    with True full' len r assms(2) show ?thesis
      by (simp add: cbuf_inv_def cbuf_entries_def b')
  next
    case False
    with i have "Suc ?i mod 10 = Suc ?i" by simp
    with False full' len r assms(2) upd rest' i show ?thesis
      by (simp add: cbuf_inv_def cbuf_entries_def b')
  qed
qed


lemma add_entry_total: "cbuf_inv b \<Longrightarrow> \<exists>removed b'. aesd_circular_buffer_add_entry b e = Some (removed, b')"
  by (simp add: add_entry_eq)

lemma add_entry_last_n:
  assumes "cbuf_inv b" and "aesd_circular_buffer_add_entry b e = Some (removed, b')"
  shows "cbuf_inv b'"
    and "cbuf_entries b' = last_n 10 (cbuf_entries b @ [e])"
    and "removed = (if length (cbuf_entries b) = 10 then buffptr (hd (cbuf_entries b)) else NULL)"
proof (atomize (full), cases "full b")
  case True
  with assms show "cbuf_inv b' \<and> cbuf_entries b' = last_n 10 (cbuf_entries b @ [e]) \<and>
      removed = (if length (cbuf_entries b) = 10 then buffptr (hd (cbuf_entries b)) else NULL)"
    using add_entry_full [of b e removed b'] by (simp add: length_cbuf_entries last_n_snoc_full)
next
  case False
  with assms show "cbuf_inv b' \<and> cbuf_entries b' = last_n 10 (cbuf_entries b @ [e]) \<and>
      removed = (if length (cbuf_entries b) = 10 then buffptr (hd (cbuf_entries b)) else NULL)"
    using add_entry_not_full [of b e removed b'] cbuf_inv_in [of b]
    by (simp add: length_cbuf_entries last_n_all)
qed

section \<open>The contract\<close>

text \<open>
  A log that keeps the last \<open>capacity\<close> items added to it and reports what an addition pushed
  out.  Clients rely on these laws only.
\<close>

fun add_all :: "('b \<Rightarrow> 'e \<Rightarrow> ('r \<times> 'b) option) \<Rightarrow> 'b \<Rightarrow> 'e list \<Rightarrow> 'b option" where
  "add_all add b [] = Some b"
| "add_all add b (e # es) = do { (r, b') \<leftarrow> add b e; add_all add b' es }"

locale bounded_log =
  fixes invar :: "'b \<Rightarrow> bool"
    and contents :: "'b \<Rightarrow> 'e list"
    and capacity :: nat
    and empty :: 'b
    and add :: "'b \<Rightarrow> 'e \<Rightarrow> ('r \<times> 'b) option"
    and evicted :: "'e option \<Rightarrow> 'r"
  assumes invar_empty: "invar empty"
    and contents_empty: "contents empty = []"
    and add_total: "invar b \<Longrightarrow> \<exists>r b'. add b e = Some (r, b')"
    and add_invar: "invar b \<Longrightarrow> add b e = Some (r, b') \<Longrightarrow> invar b'"
    and add_contents:
      "invar b \<Longrightarrow> add b e = Some (r, b') \<Longrightarrow> contents b' = last_n capacity (contents b @ [e])"
    and add_evicts:
      "invar b \<Longrightarrow> add b e = Some (r, b') \<Longrightarrow>
       r = evicted (if length (contents b) = capacity then Some (hd (contents b)) else None)"
    and bounded: "invar b \<Longrightarrow> length (contents b) \<le> capacity"
begin

lemma add_all_contents:
  "invar b \<Longrightarrow> \<exists>b'. add_all add b es = Some b' \<and> invar b' \<and>
     contents b' = last_n capacity (contents b @ es)"
proof (induction es arbitrary: b)
  case Nil
  then show ?case by (simp add: last_n_all bounded)
next
  case (Cons e es)
  obtain r b1 where b1: "add b e = Some (r, b1)"
    using add_total [OF Cons.prems] by blast
  have inv1: "invar b1" and c1: "contents b1 = last_n capacity (contents b @ [e])"
    using add_invar [OF Cons.prems b1] add_contents [OF Cons.prems b1] by auto
  from Cons.IH [OF inv1] obtain b' where
    "add_all add b1 es = Some b'" "invar b'" "contents b' = last_n capacity (contents b1 @ es)"
    by blast
  with b1 c1 show ?case
    using last_n_append_last_n [of capacity "contents b @ [e]" es] by simp
qed

lemma add_all_from_empty:
  "\<exists>b. add_all add empty es = Some b \<and> invar b \<and> contents b = last_n capacity es"
  using add_all_contents [OF invar_empty, of es] by (simp add: contents_empty)

text \<open>An addition either keeps everything or pushes out exactly the oldest item.\<close>

lemma add_cases:
  assumes "invar b" and "add b e = Some (r, b')" and "0 < capacity"
  obtains (keep) "length (contents b) < capacity" "r = evicted None"
      "contents b' = contents b @ [e]"
    | (push_out) x xs where "contents b = x # xs" "Suc (length xs) = capacity"
      "r = evicted (Some x)" "contents b' = xs @ [e]"
proof (cases "length (contents b) = capacity")
  case True
  then obtain x xs where "contents b = x # xs"
    using assms(3) by (cases "contents b") auto
  with True show ?thesis
    using add_contents [OF assms(1,2)] add_evicts [OF assms(1,2)] that(2)
      last_n_snoc_full [OF True assms(3), of e]
    by simp
next
  case False
  with bounded [OF assms(1)] have "length (contents b) < capacity" by simp
  then show ?thesis
    using add_contents [OF assms(1,2)] add_evicts [OF assms(1,2)] that(1) False
    by (simp add: last_n_all)
qed

end

definition evicted_ptr :: "aesd_buffer_entry option \<Rightarrow> ptr" where
  "evicted_ptr e = (case e of None \<Rightarrow> NULL | Some e \<Rightarrow> buffptr e)"

interpretation cb: bounded_log cbuf_inv cbuf_entries 10 aesd_circular_buffer_init
  aesd_circular_buffer_add_entry evicted_ptr
proof unfold_locales
  show "length (cbuf_entries b) \<le> 10" if "cbuf_inv b" for b
    using that by (rule length_cbuf_entries_le)
  show "r = evicted_ptr (if length (cbuf_entries b) = 10 then Some (hd (cbuf_entries b)) else None)"
    if "cbuf_inv b" "aesd_circular_buffer_add_entry b e = Some (r, b')" for b e r b'
    using add_entry_last_n(3) [OF that] by (simp add: evicted_ptr_def)
qed (auto simp: cbuf_inv_init cbuf_entries_init add_entry_total intro: add_entry_last_n)

section \<open>Properties\<close>

text \<open>
  (C11) Insertion refines appending to a bounded list.  From every state of the invariant it
  succeeds, keeps the invariant, leaves the last ten of the old entries and the new one, oldest
  first, and returns the buffer of the oldest entry exactly when ten were held, else NULL.
\<close>

theorem add_entry_refines:
  assumes "cbuf_inv b"
  shows "\<exists>removed b'. aesd_circular_buffer_add_entry b e = Some (removed, b') \<and> cbuf_inv b' \<and>
    cbuf_entries b' = last_n 10 (cbuf_entries b @ [e]) \<and>
    removed = (if length (cbuf_entries b) = 10 then buffptr (hd (cbuf_entries b)) else NULL)"
proof -
  obtain removed b' where add: "aesd_circular_buffer_add_entry b e = Some (removed, b')"
    using cb.add_total [OF assms] by blast
  with add_entry_last_n [OF assms add] show ?thesis by blast
qed

definition sample_entry :: "nat \<Rightarrow> aesd_buffer_entry" where
  "sample_entry i = \<lparr>buffptr = Suc i, esize = word_of_nat (Suc i)\<rparr>"

definition sample_ring :: aesd_circular_buffer where
  "sample_ring = the (add_all aesd_circular_buffer_add_entry aesd_circular_buffer_init
     (map sample_entry [0..<12]))"

lemma sample_ring_inv: "cbuf_inv sample_ring"
  by code_simp

theorem add_entry_refines_witness:
  "cbuf_inv sample_ring \<and>
   (\<exists>removed b'. aesd_circular_buffer_add_entry sample_ring (sample_entry 12) = Some (removed, b') \<and>
      cbuf_inv b' \<and> cbuf_entries b' = last_n 10 (cbuf_entries sample_ring @ [sample_entry 12]) \<and>
      removed = 3)"
proof -
  have "length (cbuf_entries sample_ring) = 10 \<and> buffptr (hd (cbuf_entries sample_ring)) = 3"
    by code_simp
  then show ?thesis
    using add_entry_refines [OF sample_ring_inv, of "sample_entry 12"] sample_ring_inv by simp
qed

text \<open>
  (C12) The search always returns and finds the byte its documentation describes: a returned slot
  holds the \<open>j\<close>-th oldest entry, the stored offset lies in it and \<open>char_offset\<close> is the sum of the
  older entries' sizes and that offset; NULL is returned exactly when \<open>char_offset\<close> is beyond the
  last byte.  The sizes must not add up to \<open>2 ^ 64\<close> or more.
\<close>

theorem find_entry_correct:
  assumes "cbuf_inv b" and "sum_list (entry_sizes (cbuf_entries b)) < 2 ^ 64"
  shows "case aesd_circular_buffer_find_entry_offset_for_fpos b char_offset of
      None \<Rightarrow> False
    | Some None \<Rightarrow> sum_list (entry_sizes (cbuf_entries b)) \<le> unat char_offset
    | Some (Some (i, n)) \<Rightarrow>
        \<exists>j < length (cbuf_entries b).
          entry_at b (unat i) = Some (cbuf_entries b ! j) \<and>
          n < esize (cbuf_entries b ! j) \<and>
          unat char_offset = sum_list (entry_sizes (take j (cbuf_entries b))) + unat n"
proof (cases "locate (entry_sizes (cbuf_entries b)) (unat char_offset)")
  case None
  then show ?thesis
    using None [unfolded locate_None] by (simp add: find_entry_locate [OF assms])
next
  case (Some jn)
  then obtain j n where jn: "locate (entry_sizes (cbuf_entries b)) (unat char_offset) = Some (j, n)"
    by (cases jn) auto
  then have j: "j < length (cbuf_entries b)" and n: "n < unat (esize (cbuf_entries b ! j))"
    and sum: "unat char_offset = sum_list (entry_sizes (take j (cbuf_entries b))) + n"
    unfolding locate_Some by (auto simp: entry_sizes_def take_map)
  have "unat (word_of_nat n :: size_t) = n"
    using n unat64_bound [of "esize (cbuf_entries b ! j)"] by (intro unat_of_nat64) simp
  with jn j n sum entry_at_slot [OF assms(1) j] show ?thesis
    by (auto simp: find_entry_locate [OF assms] word_less_nat_alt simp del: unat_slot)
qed

theorem find_entry_correct_witness:
  "\<exists>j < length (cbuf_entries sample_ring).
     entry_at sample_ring 4 = Some (cbuf_entries sample_ring ! j) \<and>
     1 < esize (cbuf_entries sample_ring ! j) \<and>
     unat (8 :: size_t) = sum_list (entry_sizes (take j (cbuf_entries sample_ring))) + unat (1 :: size_t)"
proof -
  have size: "sum_list (entry_sizes (cbuf_entries sample_ring)) = 75" by code_simp
  have "aesd_circular_buffer_find_entry_offset_for_fpos sample_ring 8 = Some (Some (4, 1))"
    by code_simp
  then show ?thesis
    using find_entry_correct [OF sample_ring_inv, of 8] by (simp add: size)
qed

text \<open>
  A buffer that starts empty holds, after any sequence of insertions, exactly the last ten
  entries inserted, in order; no insertion fails.
\<close>

theorem insertions_keep_last_ten:
  "\<exists>b. add_all aesd_circular_buffer_add_entry aesd_circular_buffer_init es = Some b \<and>
     cbuf_inv b \<and> cbuf_entries b = last_n 10 es"
  by (rule cb.add_all_from_empty)

end
