(* ===== verification/Char_Driver.thy ===== *)
theory Char_Driver
  imports Circular_Buffer
begin

text \<open>
  The character device of \<open>aesd-char-driver/main.c\<close>: the device structure, every file operation
  and the module's entry and exit.  The kernel memory is part of the state, so that ownership
  of the buffers is explicit; what the driver calls of the kernel is the record \<open>kapi\<close>, an
  argument of every operation, and \<open>kapi_ok\<close> states the documented behaviour the proofs use.
\<close>

section \<open>Data\<close>

text \<open>The error numbers the driver returns; a returned \<open>-E\<close> is \<open>Inl E\<close>.\<close>

datatype errno = ENOTTY | EFAULT | ERESTARTSYS | EINVAL | ENOMEM

type_synonym 'a kres = "errno + 'a"

text \<open>\<open>struct aesd_seekto\<close> of \<open>aesd_ioctl.h\<close>.\<close>

record aesd_seekto =
  write_cmd :: uint32_t
  write_cmd_offset :: uint32_t

definition AESD_IOC_MAGIC :: uint32_t where
  [simp]: "AESD_IOC_MAGIC = 0x16"

definition AESDCHAR_IOC_MAXNR :: uint32_t where
  [simp]: "AESDCHAR_IOC_MAXNR = 1"

definition sizeof_aesd_seekto :: nat where
  [simp]: "sizeof_aesd_seekto = 8"

text \<open>
  There is one \<open>struct aesd_dev\<close>, the global \<open>aesd_device\<close>; \<open>devref\<close> is its address, which is
  also the address of the \<open>cdev\<close> that is its first member.
\<close>

datatype devref = Aesd_device

record inode =
  i_cdev :: devref

record kfile =
  private_data :: "devref option"
  f_pos :: loff_t

record aesd_dev =
  buffer :: aesd_circular_buffer
  current_write_entry :: aesd_buffer_entry
  lock :: bool

record kernel =
  aesd_device :: aesd_dev
  kheap :: heap
  aesd_major :: nat
  region :: "nat option"
  cdev_live :: bool

section \<open>The kernel interface\<close>

text \<open>
  Results of the kernel functions the driver calls.  \<open>kzalloc\<close> and \<open>krealloc\<close> return an address
  and the memory afterwards; \<open>copy_from_user\<close> gives the bytes it copied, or None where the C
  function reports bytes it could not copy; \<open>copy_to_user\<close> tells whether it returned 0;
  \<open>unregister_chrdev_region\<close> gives the device numbers the module still holds afterwards;
  \<open>fixed_size_llseek\<close> gives its result and the new \<open>f_pos\<close>; \<open>lock_interrupted\<close> tells whether
  \<open>mutex_lock_interruptible\<close> was interrupted.
\<close>

record kapi =
  kzalloc :: "heap \<Rightarrow> size_t \<Rightarrow> ptr \<times> heap"
  krealloc :: "heap \<Rightarrow> ptr \<Rightarrow> size_t \<Rightarrow> ptr \<times> heap"
  copy_from_user :: "ptr \<Rightarrow> size_t \<Rightarrow> byte list option"
  copy_seekto_from_user :: "ptr \<Rightarrow> aesd_seekto option"
  copy_to_user :: "ptr \<Rightarrow> byte list \<Rightarrow> bool"
  lock_interrupted :: bool
  fixed_size_llseek :: "loff_t \<Rightarrow> loff_t \<Rightarrow> int \<Rightarrow> loff_t \<Rightarrow> loff_t kres \<times> loff_t"
  IOC_TYPE :: "uint32_t \<Rightarrow> uint32_t"
  IOC_NR :: "uint32_t \<Rightarrow> uint32_t"
  IOWR :: "uint32_t \<Rightarrow> uint32_t \<Rightarrow> nat \<Rightarrow> uint32_t"
  MAJOR :: "nat \<Rightarrow> nat"
  MKDEV :: "nat \<Rightarrow> nat \<Rightarrow> nat"
  alloc_chrdev_region :: "int \<times> nat"
  unregister_chrdev_region :: "nat \<Rightarrow> nat option \<Rightarrow> nat option"
  cdev_add :: int

definition AESDCHAR_IOCSEEKTO :: "kapi \<Rightarrow> uint32_t" where
  "AESDCHAR_IOCSEEKTO K = IOWR K AESD_IOC_MAGIC 1 sizeof_aesd_seekto"

text \<open>
  Locking a mutex that is already held never returns for a single caller; unlocking one that
  is not held is an error of the caller.
\<close>

definition mutex_lock_interruptible :: "kapi \<Rightarrow> aesd_dev \<Rightarrow> (bool \<times> aesd_dev) option" where
  "mutex_lock_interruptible K d =
     (if lock_interrupted K then Some (True, d)
      else if lock d then None else Some (False, d\<lparr>lock := True\<rparr>))"

definition mutex_unlock :: "aesd_dev \<Rightarrow> aesd_dev option" where
  "mutex_unlock d = (if lock d then Some (d\<lparr>lock := False\<rparr>) else None)"

text \<open>\<open>memchr(p, c, n)\<close> over a live block: the offset of the first match.\<close>

definition memchr :: "heap \<Rightarrow> ptr \<Rightarrow> byte \<Rightarrow> size_t \<Rightarrow> nat option option" where
  "memchr h p c n = do {
     bs \<leftarrow> load h p 0 (unat n);
     Some (if c \<in> set bs then Some (length (takeWhile (\<lambda>x. x \<noteq> c) bs)) else None)
   }"

section \<open>File operations\<close>

definition aesd_open :: "inode \<Rightarrow> kfile \<Rightarrow> int \<times> kfile" where
  "aesd_open ino filp = (0, filp\<lparr>private_data := Some (i_cdev ino)\<rparr>)"

definition aesd_release :: "inode \<Rightarrow> kfile \<Rightarrow> int" where
  "aesd_release ino filp = 0"

definition seek_char_offset :: "aesd_seekto \<Rightarrow> aesd_circular_buffer \<Rightarrow> size_t" where
  "seek_char_offset seekto b =
     AESD_CIRCULAR_BUFFER_FOREACH
       (\<lambda>index current_entry char_offset.
          if index = unat (write_cmd seekto)
          then Inr (char_offset + ucast (write_cmd_offset seekto))
          else Inl (char_offset + esize current_entry))
       b 0"

definition aesd_ioctl ::
  "kapi \<Rightarrow> kfile \<Rightarrow> uint32_t \<Rightarrow> ptr \<Rightarrow> kernel \<Rightarrow> (size_t kres \<times> kfile \<times> kernel) option"
where
  "aesd_ioctl K filp cmd arg k = do {
     if IOC_TYPE K cmd \<noteq> AESD_IOC_MAGIC then Some (Inl ENOTTY, filp, k)
     else if IOC_NR K cmd > AESDCHAR_IOC_MAXNR then Some (Inl ENOTTY, filp, k)
     else if cmd = AESDCHAR_IOCSEEKTO K then
       (case copy_seekto_from_user K arg of
          None \<Rightarrow> Some (Inl EFAULT, filp, k)
        | Some seekto \<Rightarrow> do {
            _ \<leftarrow> private_data filp;
            (interrupted, dev) \<leftarrow> mutex_lock_interruptible K (aesd_device k);
            if interrupted then Some (Inl ERESTARTSYS, filp, k)
            else do {
              (retval, filp') \<leftarrow>
                (if unat (write_cmd seekto) \<ge> AESDCHAR_MAX_WRITE_OPERATIONS_SUPPORTED
                 then Some (Inl EINVAL, filp)
                 else do {
                   e \<leftarrow> entry_at (buffer dev) (unat (write_cmd seekto));
                   if buffptr e = NULL then Some (Inl EINVAL, filp)
                   else if unat (write_cmd_offset seekto) \<ge> unat (esize e)
                   then Some (Inl EINVAL, filp)
                   else Some (Inr 0, filp\<lparr>f_pos := seek_char_offset seekto (buffer dev)\<rparr>)
                 });
              dev' \<leftarrow> mutex_unlock dev;
              Some (retval, filp', k\<lparr>aesd_device := dev'\<rparr>)
            }
          })
     else Some (Inl ENOTTY, filp, k)
   }"

definition aesd_circular_buffer_size :: "aesd_circular_buffer \<Rightarrow> size_t" where
  "aesd_circular_buffer_size b =
     AESD_CIRCULAR_BUFFER_FOREACH (\<lambda>index e size. Inl (size + esize e)) b 0"

definition aesd_llseek ::
  "kapi \<Rightarrow> kfile \<Rightarrow> loff_t \<Rightarrow> int \<Rightarrow> kernel \<Rightarrow> (loff_t kres \<times> kfile \<times> kernel) option"
where
  "aesd_llseek K filp offset whence k = do {
     _ \<leftarrow> private_data filp;
     (interrupted, dev) \<leftarrow> mutex_lock_interruptible K (aesd_device k);
     if interrupted then Some (Inl ERESTARTSYS, filp, k)
     else do {
       let (newpos, pos) = fixed_size_llseek K (f_pos filp) offset whence
         (aesd_circular_buffer_size (buffer dev));
       dev' \<leftarrow> mutex_unlock dev;
       Some (newpos, filp\<lparr>f_pos := pos\<rparr>, k\<lparr>aesd_device := dev'\<rparr>)
     }
   }"

text \<open>
  \<open>aesd_read\<close>: the result, the bytes copied to the user's buffer, the new \<open>*f_pos\<close> and the
  kernel state.
\<close>

definition aesd_read ::
  "kapi \<Rightarrow> kfile \<Rightarrow> ptr \<Rightarrow> size_t \<Rightarrow> loff_t \<Rightarrow> kernel \<Rightarrow>
   (size_t kres \<times> byte list \<times> loff_t \<times> kernel) option"
where
  "aesd_read K filp buf count pos k = do {
     _ \<leftarrow> private_data filp;
     (interrupted, dev) \<leftarrow> mutex_lock_interruptible K (aesd_device k);
     if interrupted then Some (Inl ERESTARTSYS, [], pos, k)
     else do {
       found \<leftarrow> aesd_circular_buffer_find_entry_offset_for_fpos (buffer dev) pos;
       (retval, out, pos') \<leftarrow>
         (case found of
            None \<Rightarrow> Some (Inr 0, [], pos)
          | Some (i, entry_offset_byte) \<Rightarrow> do {
              e \<leftarrow> entry_at (buffer dev) (unat i);
              if entry_offset_byte \<ge> esize e then Some (Inr 0, [], pos)
              else do {
                let bytes_to_copy = min count (esize e - entry_offset_byte);
                bs \<leftarrow> load (kheap k) (buffptr e) (unat entry_offset_byte) (unat bytes_to_copy);
                if copy_to_user K buf bs
                then Some (Inr bytes_to_copy, bs, pos + bytes_to_copy)
                else Some (Inl EFAULT, [], pos)
              }
            });
       dev' \<leftarrow> mutex_unlock dev;
       Some (retval, out, pos', k\<lparr>aesd_device := dev'\<rparr>)
     }
   }"

text \<open>
  The first half of \<open>aesd_write\<close>: the user's bytes are added to the pending entry, which is
  allocated or grown for them.  The error, if any, is the first component.
\<close>

definition write_collect ::
  "kapi \<Rightarrow> ptr \<Rightarrow> size_t \<Rightarrow> aesd_buffer_entry \<Rightarrow> heap \<Rightarrow>
   (errno option \<times> aesd_buffer_entry \<times> heap) option"
where
  "write_collect K buf count cur h =
     (if buffptr cur = NULL then
        let (p, h1) = kzalloc K h count; cur1 = cur\<lparr>buffptr := p\<rparr> in
        if p = NULL then Some (Some ENOMEM, cur1, h1)
        else (case copy_from_user K buf count of
            None \<Rightarrow> do {
              h2 \<leftarrow> release h1 (buffptr cur1);
              Some (Some EFAULT, cur1\<lparr>buffptr := NULL, esize := 0\<rparr>, h2)
            }
          | Some bs \<Rightarrow> do {
              h2 \<leftarrow> store h1 (buffptr cur1) 0 bs;
              Some (None, cur1\<lparr>esize := count\<rparr>, h2)
            })
      else
        let (p, h1) = krealloc K h (buffptr cur) (esize cur + count) in
        if p = NULL then Some (Some ENOMEM, cur, h1)
        else let cur1 = cur\<lparr>buffptr := p\<rparr> in
          (case copy_from_user K buf count of
            None \<Rightarrow> do {
              h2 \<leftarrow> release h1 (buffptr cur1);
              Some (Some EFAULT, cur1\<lparr>buffptr := NULL, esize := 0\<rparr>, h2)
            }
          | Some bs \<Rightarrow> do {
              h2 \<leftarrow> store h1 (buffptr cur1) (unat (esize cur1)) bs;
              Some (None, cur1\<lparr>esize := esize cur1 + count\<rparr>, h2)
            }))"

text \<open>The second half: a pending entry that holds a newline moves to the circular buffer.\<close>

definition write_commit ::
  "size_t \<Rightarrow> aesd_dev \<Rightarrow> heap \<Rightarrow> (size_t \<times> aesd_dev \<times> heap) option"
where
  "write_commit count dev h = do {
     let cur = current_write_entry dev;
     nl \<leftarrow> memchr h (buffptr cur) newline (esize cur);
     case nl of
       Some _ \<Rightarrow> do {
         let e = \<lparr>buffptr = buffptr cur, esize = esize cur\<rparr>;
         let retval = esize e;
         (removed, b) \<leftarrow> aesd_circular_buffer_add_entry (buffer dev) e;
         h' \<leftarrow> (if removed \<noteq> NULL then release h removed else Some h);
         Some (retval,
           dev\<lparr>buffer := b, current_write_entry := cur\<lparr>buffptr := NULL, esize := 0\<rparr>\<rparr>, h')
       }
     | None \<Rightarrow> Some (count, dev, h)
   }"

definition aesd_write ::
  "kapi \<Rightarrow> kfile \<Rightarrow> ptr \<Rightarrow> size_t \<Rightarrow> loff_t \<Rightarrow> kernel \<Rightarrow>
   (size_t kres \<times> loff_t \<times> kernel) option"
where
  "aesd_write K filp buf count pos k = do {
     _ \<leftarrow> private_data filp;
     (interrupted, dev) \<leftarrow> mutex_lock_interruptible K (aesd_device k);
     if interrupted then Some (Inl ERESTARTSYS, pos, k)
     else do {
       (err, cur, h1) \<leftarrow> write_collect K buf count (current_write_entry dev) (kheap k);
       let dev1 = dev\<lparr>current_write_entry := cur\<rparr>;
       case err of
         Some e \<Rightarrow> do {
           dev2 \<leftarrow> mutex_unlock dev1;
           Some (Inl e, pos, k\<lparr>aesd_device := dev2, kheap := h1\<rparr>)
         }
       | None \<Rightarrow> do {
           (retval, dev2, h2) \<leftarrow> write_commit count dev1 h1;
           let pos' = pos + retval;
           dev3 \<leftarrow> mutex_unlock dev2;
           Some (Inr retval, pos', k\<lparr>aesd_device := dev3, kheap := h2\<rparr>)
         }
     }
   }"

section \<open>Module entry and exit\<close>

definition aesd_minor :: nat where
  [simp]: "aesd_minor = 0"

definition aesd_setup_cdev :: "kapi \<Rightarrow> kernel \<Rightarrow> int \<times> kernel" where
  "aesd_setup_cdev K k =
     (let err = cdev_add K in (err, if err = 0 then k\<lparr>cdev_live := True\<rparr> else k))"

definition zero_aesd_dev :: aesd_dev where
  "zero_aesd_dev =
     \<lparr>buffer = \<lparr>entry = replicate AESDCHAR_MAX_WRITE_OPERATIONS_SUPPORTED null_entry,
        in_offs = 0, out_offs = 0, full = False\<rparr>,
      current_write_entry = null_entry, lock = False\<rparr>"

definition aesd_init_module :: "kapi \<Rightarrow> kernel \<Rightarrow> int \<times> kernel" where
  "aesd_init_module K k =
     (let (result, dev) = alloc_chrdev_region K;
          k1 = k\<lparr>aesd_major := MAJOR K dev\<rparr> in
      if result < 0 then (result, k1)
      else
        let k2 = k1\<lparr>region := Some dev, aesd_device := zero_aesd_dev\<rparr>;
            d = (aesd_device k2)\<lparr>lock := False, buffer := aesd_circular_buffer_init\<rparr>;
            (result', k3) = aesd_setup_cdev K (k2\<lparr>aesd_device := d\<rparr>) in
        (result',
         if result' \<noteq> 0 then k3\<lparr>region := unregister_chrdev_region K dev (region k3)\<rparr> else k3))"

text \<open>The traversal of \<open>aesd_cleanup_module\<close> that frees every entry.\<close>

fun free_entries :: "aesd_buffer_entry list \<Rightarrow> heap \<Rightarrow> heap option" where
  "free_entries [] h = Some h"
| "free_entries (e # es) h =
     (if buffptr e \<noteq> NULL then do { h' \<leftarrow> release h (buffptr e); free_entries es h' }
      else free_entries es h)"

definition aesd_cleanup_module :: "kapi \<Rightarrow> kernel \<Rightarrow> kernel option" where
  "aesd_cleanup_module K k = do {
     let devno = MKDEV K (aesd_major k) aesd_minor;
     let k1 = k\<lparr>cdev_live := False\<rparr>;
     if lock (aesd_device k1) then None
     else do {
       h \<leftarrow> free_entries (entry (buffer (aesd_device k1))) (kheap k1);
       Some (k1\<lparr>kheap := h, region := unregister_chrdev_region K devno (region k1)\<rparr>)
     }
   }"

end
