(* ===== verification/Driver_Refinement.thy ===== *)
theory Driver_Refinement
  imports Char_Driver
begin

text \<open>
  Ownership, the device invariant and the refinement of the driver to an abstract device that
  keeps the last ten complete commands and the bytes of an incomplete one.
\<close>

section \<open>Documented behaviour of the kernel interface\<close>

text \<open>
  No allocation succeeds beyond \<open>kmalloc_bound\<close> (the kernel's own limit is far smaller), and the
  VFS never passes a count above \<open>MAX_RW_COUNT\<close>.
\<close>

definition kmalloc_bound :: nat where
  "kmalloc_bound = 2 ^ 59"

definition MAX_RW_COUNT :: nat where
  "MAX_RW_COUNT = 2 ^ 31"

definition kzalloc_ok :: "kapi \<Rightarrow> bool" where
  "kzalloc_ok K \<longleftrightarrow>
     (\<forall>h n p h'. (\<forall>q. h q \<noteq> Some []) \<longrightarrow> kzalloc K h n = (p, h') \<longrightarrow>
        (if p = NULL then h' = h
         else h p = None \<and> unat n \<le> kmalloc_bound \<and>
           h' = h(p \<mapsto> replicate (unat n) (CHR 0x00))))"

definition krealloc_ok :: "kapi \<Rightarrow> bool" where
  "krealloc_ok K \<longleftrightarrow>
     (\<forall>h q n bs p h'. h q = Some bs \<longrightarrow> q \<noteq> NULL \<longrightarrow> (n = 0 \<longrightarrow> bs = []) \<longrightarrow>
        krealloc K h q n = (p, h') \<longrightarrow>
        (if p = NULL then h' = h
         else (p = q \<or> h p = None) \<and> unat n \<le> kmalloc_bound \<and>
           (\<exists>new. length new = unat n \<and>
              take (min (length bs) (unat n)) new = take (min (length bs) (unat n)) bs \<and>
              h' = (h(q := None))(p \<mapsto> new))))"

definition copy_from_user_ok :: "kapi \<Rightarrow> bool" where
  "copy_from_user_ok K \<longleftrightarrow>
     (\<forall>u n bs. copy_from_user K u n = Some bs \<longrightarrow> length bs = unat n)"

definition kapi_ok :: "kapi \<Rightarrow> bool" where
  "kapi_ok K \<longleftrightarrow> kzalloc_ok K \<and> krealloc_ok K \<and> copy_from_user_ok K"

section \<open>Ownership\<close>

definition entry_block :: "heap \<Rightarrow> aesd_buffer_entry \<Rightarrow> byte list" where
  "entry_block h e = (case h (buffptr e) of None \<Rightarrow> [] | Some bs \<Rightarrow> bs)"

definition live_entry :: "heap \<Rightarrow> aesd_buffer_entry \<Rightarrow> bool" where
  "live_entry h e \<longleftrightarrow>
     buffptr e \<noteq> NULL \<and> unat (esize e) \<le> kmalloc_bound \<and>
     (\<exists>bs. h (buffptr e) = Some bs \<and> length bs = unat (esize e))"

text \<open>The heap consists of exactly the blocks of the entries, one block each.\<close>

definition heap_owns :: "heap \<Rightarrow> aesd_buffer_entry list \<Rightarrow> bool" where
  "heap_owns h es \<longleftrightarrow>
     (\<forall>e \<in> set es. live_entry h e) \<and> distinct (map buffptr es) \<and> dom h = buffptr ` set es"

lemma live_entry_block:
  "live_entry h e \<Longrightarrow> h (buffptr e) = Some (entry_block h e) \<and> length (entry_block h e) = unat (esize e)"
  by (auto simp: live_entry_def entry_block_def)

lemma heap_owns_None_iff: "heap_owns h es \<Longrightarrow> h p = None \<longleftrightarrow> p \<notin> buffptr ` set es"
  by (metis domIff heap_owns_def)

lemma heap_owns_NULL: "heap_owns h es \<Longrightarrow> h NULL = None"
  by (simp add: heap_owns_None_iff) (auto simp: heap_owns_def live_entry_def)

lemma live_entry_upd:
  "p \<notin> buffptr ` set es \<Longrightarrow> e \<in> set es \<Longrightarrow> live_entry (h(p := v)) e = live_entry h e"
  by (auto simp: live_entry_def)

lemma entry_block_upd [simp]: "buffptr e \<noteq> p \<Longrightarrow> entry_block (h(p := v)) e = entry_block h e"
  by (simp add: entry_block_def)

lemma map_entry_block_upd:
  "p \<notin> buffptr ` set es \<Longrightarrow> map (entry_block (h(p := v))) es = map (entry_block h) es"
  by (auto simp: image_iff)

lemma heap_owns_add:
  assumes "heap_owns h es" and "h p = None" and "p \<noteq> NULL"
    and "length bs = unat n" and "unat n \<le> kmalloc_bound"
  shows "heap_owns (h(p \<mapsto> bs)) (es @ [\<lparr>buffptr = p, esize = n\<rparr>])"
proof -
  have p: "p \<notin> buffptr ` set es"
    using assms(1,2) by (simp add: heap_owns_None_iff)
  then have "\<forall>e \<in> set es. live_entry (h(p \<mapsto> bs)) e"
    using assms(1) by (simp add: heap_owns_def live_entry_upd)
  with p assms show ?thesis
    by (auto simp: heap_owns_def live_entry_def)
qed

lemma heap_owns_remove:
  assumes "heap_owns h (xs @ e # ys)"
  shows "heap_owns (h(buffptr e := None)) (xs @ ys)"
proof -
  have p: "buffptr e \<notin> buffptr ` set (xs @ ys)"
    using assms by (auto simp: heap_owns_def)
  then have "\<forall>e' \<in> set (xs @ ys). live_entry (h(buffptr e := None)) e'"
    using assms live_entry_upd [OF p] by (simp add: heap_owns_def)
  moreover have "dom (h(buffptr e := None)) = buffptr ` set (xs @ ys)"
    using assms p by (auto simp: heap_owns_def)
  ultimately show ?thesis
    using assms by (simp add: heap_owns_def)
qed

lemma heap_owns_release:
  assumes "heap_owns h (xs @ e # ys)"
  shows "release h (buffptr e) = Some (h(buffptr e := None))"
  using assms live_entry_block [of h e]
  by (auto simp: heap_owns_def live_entry_def release_def)

section \<open>The device invariant\<close>

text \<open>The entries whose memory the device owns: those of the ring and the pending one.\<close>

definition owned :: "aesd_dev \<Rightarrow> aesd_buffer_entry list" where
  "owned d = cbuf_entries (buffer d) @
     (if buffptr (current_write_entry d) = NULL then [] else [current_write_entry d])"

definition dev_inv :: "kernel \<Rightarrow> bool" where
  "dev_inv k \<longleftrightarrow>
     (let d = aesd_device k; cur = current_write_entry d; h = kheap k in
      cbuf_inv (buffer d) \<and> \<not> lock d \<and> heap_owns h (owned d) \<and>
      (buffptr cur = NULL \<longrightarrow> esize cur = 0) \<and>
      (\<forall>e \<in> set (cbuf_entries (buffer d)). newline \<in> set (entry_block h e)) \<and>
      newline \<notin> set (entry_block h cur))"

text \<open>The abstract device.\<close>

record log_dev =
  cmds :: "byte list list"
  pending :: "byte list"

definition abs_dev :: "kernel \<Rightarrow> log_dev" where
  "abs_dev k =
     \<lparr>cmds = map (entry_block (kheap k)) (cbuf_entries (buffer (aesd_device k))),
      pending = entry_block (kheap k) (current_write_entry (aesd_device k))\<rparr>"

definition log_contents :: "log_dev \<Rightarrow> byte list" where
  "log_contents a = concat (cmds a)"

definition log_write :: "byte list \<Rightarrow> log_dev \<Rightarrow> log_dev" where
  "log_write bs a =
     (let p = pending a @ bs in
      if newline \<in> set p then \<lparr>cmds = last_n 10 (cmds a @ [p]), pending = []\<rparr>
      else a\<lparr>pending := p\<rparr>)"

lemma dev_invD:
  assumes "dev_inv k"
  shows "cbuf_inv (buffer (aesd_device k))" and "\<not> lock (aesd_device k)"
    and "heap_owns (kheap k) (owned (aesd_device k))"
    and "buffptr (current_write_entry (aesd_device k)) = NULL \<Longrightarrow>
      current_write_entry (aesd_device k) = null_entry"
    and "\<And>e. e \<in> set (cbuf_entries (buffer (aesd_device k))) \<Longrightarrow>
      newline \<in> set (entry_block (kheap k) e)"
    and "newline \<notin> set (entry_block (kheap k) (current_write_entry (aesd_device k)))"
  using assms by (auto simp: dev_inv_def Let_def null_entry_def)

lemma pending_length:
  assumes "dev_inv k"
  shows "length (entry_block (kheap k) (current_write_entry (aesd_device k))) =
    unat (esize (current_write_entry (aesd_device k)))"
proof (cases "buffptr (current_write_entry (aesd_device k)) = NULL")
  case True
  then show ?thesis
    using dev_invD(4) [OF assms] heap_owns_NULL [OF dev_invD(3) [OF assms]]
    by (simp add: entry_block_def)
next
  case False
  then show ?thesis
    using dev_invD(3) [OF assms] live_entry_block by (auto simp: heap_owns_def owned_def)
qed

text \<open>Giving up the pending block leaves exactly the ring's blocks.\<close>

lemma owned_drop_pending:
  assumes "heap_owns h (owned d)"
  shows "heap_owns (h(buffptr (current_write_entry d) := None)) (cbuf_entries (buffer d))"
proof (cases "buffptr (current_write_entry d) = NULL")
  case True
  with assms heap_owns_NULL [OF assms] have "h(buffptr (current_write_entry d) := None) = h"
    by auto
  with True assms show ?thesis by (simp add: owned_def)
next
  case False
  with assms have "heap_owns h (cbuf_entries (buffer d) @ current_write_entry d # [])"
    by (simp add: owned_def)
  from heap_owns_remove [OF this] show ?thesis by simp
qed

lemma pending_ptr_fresh:
  assumes "heap_owns h (owned d)"
  shows "buffptr (current_write_entry d) \<notin> buffptr ` set (cbuf_entries (buffer d))"
  using owned_drop_pending [OF assms] by (auto simp: heap_owns_def)


section \<open>Writes\<close>

lemma no_wrap:
  fixes a b :: size_t
  assumes "unat a \<le> kmalloc_bound" and "unat b \<le> MAX_RW_COUNT"
  shows "unat (a + b) = unat a + unat b"
  using assms by (intro unat_add_no_overflow) (simp add: kmalloc_bound_def MAX_RW_COUNT_def)

lemma kzallocD:
  assumes "kapi_ok K" and "kzalloc K h n = (p, h')" and "p \<noteq> NULL" and "\<And>q. h q \<noteq> Some []"
  shows "h p = None" and "unat n \<le> kmalloc_bound" and "h' = h(p \<mapsto> replicate (unat n) (CHR 0x00))"
  using assms unfolding kapi_ok_def kzalloc_ok_def by (metis (no_types, lifting))+

lemma kzalloc_NULL:
  assumes "kapi_ok K" and "kzalloc K h n = (NULL, h')" and "\<And>q. h q \<noteq> Some []"
  shows "h' = h"
  using assms unfolding kapi_ok_def kzalloc_ok_def by (metis (no_types, lifting))

lemma kreallocD:
  assumes "kapi_ok K" and "krealloc K h q n = (p, h')" and "p \<noteq> NULL"
    and "h q = Some bs" and "q \<noteq> NULL" and "length bs \<le> unat n"
  shows "p = q \<or> h p = None" and "unat n \<le> kmalloc_bound"
    and "\<exists>rest. length rest = unat n - length bs \<and> h' = (h(q := None))(p \<mapsto> bs @ rest)"
proof -
  have "n = 0 \<longrightarrow> bs = []" using assms(6) by auto
  with assms have *: "(p = q \<or> h p = None) \<and> unat n \<le> kmalloc_bound \<and>
      (\<exists>new. length new = unat n \<and>
         take (min (length bs) (unat n)) new = take (min (length bs) (unat n)) bs \<and>
         h' = (h(q := None))(p \<mapsto> new))"
    unfolding kapi_ok_def krealloc_ok_def by (metis (no_types, lifting))
  then show "p = q \<or> h p = None" and "unat n \<le> kmalloc_bound" by auto
  from * obtain new where new: "length new = unat n" "take (length bs) new = bs"
      "h' = (h(q := None))(p \<mapsto> new)"
    using assms(6) by (auto simp: min_absorb1)
  then have "new = bs @ drop (length bs) new"
    by (metis append_take_drop_id)
  with new show "\<exists>rest. length rest = unat n - length bs \<and> h' = (h(q := None))(p \<mapsto> bs @ rest)"
    by (metis length_drop)
qed

lemma krealloc_NULL:
  assumes "kapi_ok K" and "krealloc K h q n = (NULL, h')"
    and "h q = Some bs" and "q \<noteq> NULL" and "length bs \<le> unat n"
  shows "h' = h"
proof -
  have "n = 0 \<longrightarrow> bs = []" using assms(5) by auto
  with assms show ?thesis
    unfolding kapi_ok_def krealloc_ok_def by (metis (no_types, lifting))
qed

lemma copy_from_user_length:
  "kapi_ok K \<Longrightarrow> copy_from_user K u n = Some bs \<Longrightarrow> length bs = unat n"
  by (auto simp: kapi_ok_def copy_from_user_ok_def)

text \<open>
  The address the allocator gives for the pending bytes and \<open>count\<close> more, and
  what collecting the user's bytes can do: no memory and nothing changed; a failed copy, and the
  pending bytes freed; or the bytes appended to the pending ones, in a block that may have moved.
\<close>

definition write_alloc :: "kapi \<Rightarrow> size_t \<Rightarrow> aesd_buffer_entry \<Rightarrow> heap \<Rightarrow> ptr" where
  "write_alloc K count cur h =
     fst (if buffptr cur = NULL then kzalloc K h count
          else krealloc K h (buffptr cur) (esize cur + count))"

inductive collected ::
  "kapi \<Rightarrow> ptr \<Rightarrow> size_t \<Rightarrow> aesd_buffer_entry \<Rightarrow> heap \<Rightarrow>
   errno option \<times> aesd_buffer_entry \<times> heap \<Rightarrow> bool"
  for K buf count cur h
where
  nomem: "write_alloc K count cur h = NULL \<Longrightarrow> collected K buf count cur h (Some ENOMEM, cur, h)"
| fault: "copy_from_user K buf count = None \<Longrightarrow> write_alloc K count cur h \<noteq> NULL \<Longrightarrow>
    collected K buf count cur h (Some EFAULT, null_entry, h(buffptr cur := None))"
| stored: "copy_from_user K buf count = Some bs \<Longrightarrow> length bs = unat count \<Longrightarrow>
    unat (esize cur + count) = unat (esize cur) + unat count \<Longrightarrow>
    unat (esize cur + count) \<le> kmalloc_bound \<Longrightarrow>
    p \<noteq> NULL \<Longrightarrow> (h(buffptr cur := None)) p = None \<Longrightarrow>
    write_alloc K count cur h \<noteq> NULL \<Longrightarrow>
    collected K buf count cur h
      (None, \<lparr>buffptr = p, esize = esize cur + count\<rparr>,
        (h(buffptr cur := None))(p \<mapsto> entry_block h cur @ bs))"

lemma write_collect_first:
  assumes K: "kapi_ok K" and hN: "h NULL = None" and ne: "\<And>q. h q \<noteq> Some []"
  shows "\<exists>r. write_collect K buf count null_entry h = Some r \<and> collected K buf count null_entry h r"
proof -
  have upd: "h(buffptr null_entry := None) = h" using hN by (auto simp: null_entry_def)
  have blk: "entry_block h null_entry = []" using hN by (simp add: entry_block_def null_entry_def)
  obtain p h1 where alloc: "kzalloc K h count = (p, h1)" by (cases "kzalloc K h count")
  have wa: "write_alloc K count null_entry h = p" by (simp add: write_alloc_def alloc)
  show ?thesis
  proof (cases "p = NULL")
    case True
    with alloc K ne have "h1 = h" using kzalloc_NULL by blast
    with True alloc show ?thesis
      using nomem [of K count null_entry h buf] wa by (simp add: write_collect_def null_entry_def)
  next
    case False
    note z = kzallocD [OF K alloc False ne]
    show ?thesis
    proof (cases "copy_from_user K buf count")
      case None
      have "release h1 p = Some h" using z False by (simp add: release_def fun_upd_idem)
      with None alloc False upd show ?thesis
        using fault [of K buf count null_entry h] wa by (simp add: write_collect_def)
    next
      case (Some bs)
      have len: "length bs = unat count" by (rule copy_from_user_length [OF K Some])
      have "collected K buf count null_entry h
          (None, \<lparr>buffptr = p, esize = count\<rparr>, h(p \<mapsto> bs))"
        using stored [of K buf count bs null_entry p h] Some len False z(1,2) upd blk wa
        by (simp add: null_entry_def)
      with alloc False Some z(3) len show ?thesis
        by (simp add: write_collect_def null_entry_def store_def)
    qed
  qed
qed

lemma write_collect_grow:
  assumes K: "kapi_ok K" and count: "unat count \<le> MAX_RW_COUNT" and live: "live_entry h cur"
  shows "\<exists>r. write_collect K buf count cur h = Some r \<and> collected K buf count cur h r"
proof -
  let ?old = "entry_block h cur"
  have cur: "buffptr cur \<noteq> NULL" using live by (simp add: live_entry_def)
  have old: "h (buffptr cur) = Some ?old" "length ?old = unat (esize cur)"
    using live_entry_block [OF live] by auto
  have sum: "unat (esize cur + count) = unat (esize cur) + unat count"
    using live count by (intro no_wrap) (auto simp: live_entry_def)
  then have le: "length ?old \<le> unat (esize cur + count)" using old by simp
  obtain p h1 where re: "krealloc K h (buffptr cur) (esize cur + count) = (p, h1)"
    by (cases "krealloc K h (buffptr cur) (esize cur + count)")
  have wa: "write_alloc K count cur h = p" using cur by (simp add: write_alloc_def re)
  show ?thesis
  proof (cases "p = NULL")
    case True
    with re K old cur le have "h1 = h" using krealloc_NULL by blast
    with True re cur show ?thesis
      using nomem [of K count cur h buf] wa by (simp add: write_collect_def)
  next
    case np: False
    note r = kreallocD [OF K re np old(1) cur le]
    from r(3) sum old(2) obtain rest where rest: "length rest = unat count"
        "h1 = (h(buffptr cur := None))(p \<mapsto> ?old @ rest)"
      by auto
    have fresh: "(h(buffptr cur := None)) p = None" using r(1) by auto
    show ?thesis
    proof (cases "copy_from_user K buf count")
      case None
      have "release h1 p = Some (h(buffptr cur := None))"
        using rest np fresh by (simp add: release_def fun_upd_idem)
      with None re np cur show ?thesis
        using fault [of K buf count cur h] wa by (simp add: write_collect_def Let_def)
    next
      case (Some bs)
      have len: "length bs = unat count" by (rule copy_from_user_length [OF K Some])
      with re np cur Some rest old(2) show ?thesis
        using stored [OF Some len sum r(2) np fresh] wa
        by (simp add: write_collect_def store_def Let_def entry_fill)
    qed
  qed
qed

lemma write_commit_pending:
  assumes "live_entry h (current_write_entry dev)"
    and "newline \<notin> set (entry_block h (current_write_entry dev))"
  shows "write_commit count dev h = Some (count, dev, h)"
  using assms(2) live_entry_block [OF assms(1)]
  by (simp add: write_commit_def memchr_def load_def)

text \<open>Where the ring starts after an insertion.\<close>

definition next_start :: "aesd_circular_buffer \<Rightarrow> uint8_t" where
  "next_start b = (if full b then next_offs (out_offs b) else out_offs b)"

lemma add_entry_out: "aesd_circular_buffer_add_entry b e = Some (r, b') \<Longrightarrow> out_offs b' = next_start b"
  by (auto simp: aesd_circular_buffer_add_entry_def next_start_def Let_def split: Option.bind_splits)

lemma write_commit_newline:
  fixes dev h count
  defines "cur \<equiv> current_write_entry dev"
  assumes inv: "cbuf_inv (buffer dev)" and owns: "heap_owns h (cbuf_entries (buffer dev) @ [cur])"
    and nl: "newline \<in> set (entry_block h cur)"
  shows "\<exists>b h'. write_commit count dev h =
      Some (esize cur, dev\<lparr>buffer := b, current_write_entry := null_entry\<rparr>, h') \<and>
    cbuf_inv b \<and> cbuf_entries b = last_n 10 (cbuf_entries (buffer dev) @ [cur]) \<and>
    heap_owns h' (cbuf_entries b) \<and>
    map (entry_block h') (cbuf_entries b) = map (entry_block h) (cbuf_entries b) \<and>
    out_offs b = next_start (buffer dev)"
proof -
  have live: "live_entry h cur" using owns by (simp add: heap_owns_def)
  obtain i where mc: "memchr h (buffptr cur) newline (esize cur) = Some (Some i)"
    using live_entry_block [OF live] nl by (simp add: memchr_def load_def)
  obtain removed b where add: "aesd_circular_buffer_add_entry (buffer dev) cur = Some (removed, b)"
    using cb.add_total [OF inv] by blast
  have b: "cbuf_inv b" "cbuf_entries b = last_n 10 (cbuf_entries (buffer dev) @ [cur])"
    using cb.add_invar [OF inv add] cb.add_contents [OF inv add] by auto
  note out = add_entry_out [OF add]
  from inv add zero_less_numeral show ?thesis
  proof (cases rule: cb.add_cases)
    case keep
    with mc add b owns out show ?thesis
      by (intro exI [of _ b] exI [of _ h]) (simp add: write_commit_def evicted_ptr_def flip: cur_def)
  next
    case (push_out x xs)
    have owns': "heap_owns h ([] @ x # (xs @ [cur]))" using owns push_out(1) by simp
    have x: "buffptr x \<noteq> NULL" using owns' by (simp add: heap_owns_def live_entry_def)
    have "map (entry_block (h(buffptr x := None))) (xs @ [cur]) = map (entry_block h) (xs @ [cur])"
      using owns' by (intro map_entry_block_upd) (auto simp: heap_owns_def)
    with mc add b x out push_out heap_owns_remove [OF owns'] heap_owns_release [OF owns']
    show ?thesis
      by (intro exI [of _ b] exI [of _ "h(buffptr x := None)"])
        (simp add: write_commit_def evicted_ptr_def flip: cur_def)
  qed
qed


text \<open>The collecting step from a device that satisfies the invariant.\<close>

lemma write_collect_inv:
  assumes "dev_inv k" and "kapi_ok K" and "unat count \<le> MAX_RW_COUNT"
  shows "\<exists>r. write_collect K buf count (current_write_entry (aesd_device k)) (kheap k) = Some r \<and>
    collected K buf count (current_write_entry (aesd_device k)) (kheap k) r"
proof (cases "buffptr (current_write_entry (aesd_device k)) = NULL")
  case True
  note owns = dev_invD(3) [OF assms(1)]
  have "kheap k q \<noteq> Some []" for q
  proof
    assume q: "kheap k q = Some []"
    then obtain e where "e \<in> set (owned (aesd_device k))" "q = buffptr e"
      using heap_owns_None_iff [OF owns, of q] by auto
    with q True dev_invD(5) [OF assms(1)] show False
      by (force simp: owned_def entry_block_def)
  qed
  with True show ?thesis
    using write_collect_first [OF assms(2), of "kheap k"] heap_owns_NULL [OF owns]
      dev_invD(4) [OF assms(1)]
    by simp
next
  case False
  then have "live_entry (kheap k) (current_write_entry (aesd_device k))"
    using dev_invD(3) [OF assms(1)] by (simp add: heap_owns_def owned_def)
  with assms(2,3) show ?thesis by (intro write_collect_grow)
qed

text \<open>A failed copy drops the pending bytes and nothing else.\<close>

lemma dev_inv_drop_pending:
  fixes k
  defines "cur \<equiv> current_write_entry (aesd_device k)"
  defines "k' \<equiv> k\<lparr>aesd_device := (aesd_device k)\<lparr>current_write_entry := null_entry\<rparr>,
    kheap := (kheap k)(buffptr cur := None)\<rparr>"
  assumes inv: "dev_inv k"
  shows "dev_inv k'" and "abs_dev k' = (abs_dev k)\<lparr>pending := []\<rparr>"
proof -
  let ?es = "cbuf_entries (buffer (aesd_device k))"
  let ?h = "(kheap k)(buffptr cur := None)"
  have owns: "heap_owns ?h ?es"
    using owned_drop_pending [OF dev_invD(3) [OF inv]] by (simp add: cur_def)
  have blocks: "map (entry_block ?h) ?es = map (entry_block (kheap k)) ?es"
    using pending_ptr_fresh [OF dev_invD(3) [OF inv]]
    by (intro map_entry_block_upd) (simp add: cur_def)
  have none: "entry_block ?h null_entry = []"
    using heap_owns_NULL [OF owns] by (simp add: entry_block_def)
  show "abs_dev k' = (abs_dev k)\<lparr>pending := []\<rparr>"
    using blocks none by (simp add: k'_def abs_dev_def)
  show "dev_inv k'"
    using dev_invD [OF inv] owns blocks none
    by (auto simp: k'_def dev_inv_def owned_def)
qed

text \<open>Stored bytes with no newline become pending.\<close>

lemma dev_inv_store_pending:
  fixes k p bs n
  defines "cur \<equiv> current_write_entry (aesd_device k)"
  defines "h1 \<equiv> (kheap k)(buffptr cur := None, p \<mapsto> entry_block (kheap k) cur @ bs)"
  defines "k' \<equiv> k\<lparr>aesd_device := (aesd_device k)\<lparr>current_write_entry := \<lparr>buffptr = p, esize = n\<rparr>\<rparr>,
    kheap := h1\<rparr>"
  assumes inv: "dev_inv k" and p: "p \<noteq> NULL" "((kheap k)(buffptr cur := None)) p = None"
    and n: "unat n = length (entry_block (kheap k) cur @ bs)" "unat n \<le> kmalloc_bound"
  shows "heap_owns h1 (cbuf_entries (buffer (aesd_device k)) @ [\<lparr>buffptr = p, esize = n\<rparr>])"
    and "map (entry_block h1) (cbuf_entries (buffer (aesd_device k))) =
      map (entry_block (kheap k)) (cbuf_entries (buffer (aesd_device k)))"
    and "newline \<notin> set bs \<Longrightarrow> dev_inv k' \<and> abs_dev k' = log_write bs (abs_dev k)"
proof -
  let ?es = "cbuf_entries (buffer (aesd_device k))"
  have owns0: "heap_owns ((kheap k)(buffptr cur := None)) ?es"
    using owned_drop_pending [OF dev_invD(3) [OF inv]] by (simp add: cur_def)
  show owns: "heap_owns h1 (?es @ [\<lparr>buffptr = p, esize = n\<rparr>])"
    unfolding h1_def using n by (intro heap_owns_add [OF owns0 p(2,1)]) simp_all
  have "p \<notin> buffptr ` set ?es"
    using heap_owns_None_iff [OF owns0, of p] p(2) by simp
  moreover have "buffptr cur \<notin> buffptr ` set ?es"
    using pending_ptr_fresh [OF dev_invD(3) [OF inv]] by (simp add: cur_def)
  ultimately show blocks: "map (entry_block h1) ?es = map (entry_block (kheap k)) ?es"
    unfolding h1_def by (simp add: map_entry_block_upd)
  have new: "entry_block h1 \<lparr>buffptr = p, esize = n\<rparr> = entry_block (kheap k) cur @ bs"
    by (simp add: entry_block_def h1_def)
  assume nl: "newline \<notin> set bs"
  have "newline \<notin> set (entry_block (kheap k) cur @ bs)"
    using nl dev_invD(6) [OF inv] by (simp add: cur_def)
  then have "abs_dev k' = log_write bs (abs_dev k)"
    using blocks new by (simp add: k'_def abs_dev_def log_write_def Let_def cur_def)
  moreover have "dev_inv k'"
    using dev_invD [OF inv] owns blocks new nl p
    by (auto simp: k'_def dev_inv_def owned_def cur_def)
  ultimately show "dev_inv k' \<and> abs_dev k' = log_write bs (abs_dev k)" by simp
qed


text \<open>Stored bytes with a newline complete a command.\<close>

lemma dev_inv_store_command:
  fixes k p bs n count
  defines "cur \<equiv> current_write_entry (aesd_device k)"
  defines "h1 \<equiv> (kheap k)(buffptr cur := None, p \<mapsto> entry_block (kheap k) cur @ bs)"
  defines "dev1 \<equiv> (aesd_device k)\<lparr>lock := True, current_write_entry := \<lparr>buffptr = p, esize = n\<rparr>\<rparr>"
  assumes inv: "dev_inv k" and p: "p \<noteq> NULL" "((kheap k)(buffptr cur := None)) p = None"
    and n: "unat n = length (entry_block (kheap k) cur @ bs)" "unat n \<le> kmalloc_bound"
    and nl: "newline \<in> set bs"
  shows "\<exists>dev2 h2. write_commit count dev1 h1 = Some (n, dev2, h2) \<and> lock dev2 \<and>
    (let k' = k\<lparr>aesd_device := dev2\<lparr>lock := False\<rparr>, kheap := h2\<rparr> in
     dev_inv k' \<and> abs_dev k' = log_write bs (abs_dev k) \<and>
     out_offs (buffer (aesd_device k')) = next_start (buffer (aesd_device k)))"
proof -
  let ?es = "cbuf_entries (buffer (aesd_device k))"
  let ?new = "\<lparr>buffptr = p, esize = n\<rparr>"
  note st = dev_inv_store_pending(1,2) [OF inv, of p n bs, folded cur_def, folded h1_def, OF p n]
  have new: "entry_block h1 ?new = entry_block (kheap k) cur @ bs"
    by (simp add: entry_block_def h1_def)
  obtain b h2 where wc: "write_commit count dev1 h1 =
      Some (n, dev1\<lparr>buffer := b, current_write_entry := null_entry\<rparr>, h2)"
    and b: "cbuf_inv b" "cbuf_entries b = last_n 10 (?es @ [?new])"
    and h2: "heap_owns h2 (cbuf_entries b)"
      "map (entry_block h2) (cbuf_entries b) = map (entry_block h1) (cbuf_entries b)"
    and out: "out_offs b = next_start (buffer (aesd_device k))"
    using write_commit_newline [of dev1 h1 count] dev_invD(1) [OF inv] st(1) new nl
    by (auto simp: dev1_def)
  have h1blocks: "map (entry_block h1) (?es @ [?new]) =
      map (entry_block (kheap k)) ?es @ [entry_block (kheap k) cur @ bs]"
    using st(2) new by simp
  let ?k' = "k\<lparr>aesd_device := dev1\<lparr>buffer := b, current_write_entry := null_entry, lock := False\<rparr>,
    kheap := h2\<rparr>"
  have none: "entry_block h2 null_entry = []"
    using heap_owns_NULL [OF h2(1)] by (simp add: entry_block_def)
  have blocks: "map (entry_block h2) (cbuf_entries b) =
      last_n 10 (map (entry_block (kheap k)) ?es @ [entry_block (kheap k) cur @ bs])"
    using h2(2) h1blocks by (simp add: b(2) map_last_n del: map_append)
  have "abs_dev ?k' = log_write bs (abs_dev k)"
    using blocks none nl by (simp add: abs_dev_def log_write_def Let_def cur_def)
  moreover have "newline \<in> set (entry_block h2 e)" if "e \<in> set (cbuf_entries b)" for e
  proof -
    have "entry_block h2 e \<in> set (map (entry_block h2) (cbuf_entries b))" using that by simp
    then have "entry_block h2 e \<in> set (map (entry_block (kheap k)) ?es @ [entry_block (kheap k) cur @ bs])"
      unfolding blocks by (rule subsetD [OF set_last_n])
    with nl dev_invD(5) [OF inv] show ?thesis by auto
  qed
  then have "dev_inv ?k'"
    using b(1) h2(1) none by (simp add: dev_inv_def owned_def)
  ultimately show ?thesis
    using wc out by (simp add: dev1_def)
qed


lemma unlock_unlocked:
  assumes "\<not> lock d"
  shows "d\<lparr>lock := False\<rparr> = d"
    and "d\<lparr>current_write_entry := e, lock := False\<rparr> = d\<lparr>current_write_entry := e\<rparr>"
  using assms by (cases d; simp)+

text \<open>
  The outcomes of \<open>aesd_write\<close>: interrupted or out of memory with nothing changed, a failed copy
  that drops the pending bytes, or the abstract write.
\<close>

inductive written ::
  "kapi \<Rightarrow> ptr \<Rightarrow> size_t \<Rightarrow> loff_t \<Rightarrow> kernel \<Rightarrow> size_t kres \<times> loff_t \<times> kernel \<Rightarrow> bool"
  for K buf count pos k
where
  interrupted: "lock_interrupted K \<Longrightarrow> written K buf count pos k (Inl ERESTARTSYS, pos, k)"
| no_memory: "\<not> lock_interrupted K \<Longrightarrow>
    write_alloc K count (current_write_entry (aesd_device k)) (kheap k) = NULL \<Longrightarrow>
    written K buf count pos k (Inl ENOMEM, pos, k)"
| copy_failed: "copy_from_user K buf count = None \<Longrightarrow> dev_inv k' \<Longrightarrow>
    abs_dev k' = (abs_dev k)\<lparr>pending := []\<rparr> \<Longrightarrow> \<not> lock_interrupted K \<Longrightarrow>
    write_alloc K count (current_write_entry (aesd_device k)) (kheap k) \<noteq> NULL \<Longrightarrow>
    written K buf count pos k (Inl EFAULT, pos, k')"
| accepted: "copy_from_user K buf count = Some bs \<Longrightarrow> length bs = unat count \<Longrightarrow> dev_inv k' \<Longrightarrow>
    abs_dev k' = log_write bs (abs_dev k) \<Longrightarrow>
    unat n = (if newline \<in> set bs then length (pending (abs_dev k)) else 0) + length bs \<Longrightarrow>
    \<not> lock_interrupted K \<Longrightarrow>
    write_alloc K count (current_write_entry (aesd_device k)) (kheap k) \<noteq> NULL \<Longrightarrow>
    out_offs (buffer (aesd_device k')) =
      (if newline \<in> set bs then next_start (buffer (aesd_device k)) else out_offs (buffer (aesd_device k))) \<Longrightarrow>
    written K buf count pos k (Inr n, pos + n, k')"

lemma aesd_write_written:
  assumes inv: "dev_inv k" and K: "kapi_ok K" and count: "unat count \<le> MAX_RW_COUNT"
    and filp: "private_data filp = Some d"
  shows "\<exists>r. aesd_write K filp buf count pos k = Some r \<and> written K buf count pos k r"
proof (cases "lock_interrupted K")
  case True
  then show ?thesis
    using filp interrupted [OF True] by (simp add: aesd_write_def mutex_lock_interruptible_def)
next
  case False
  let ?cur = "current_write_entry (aesd_device k)"
  note unlocked = dev_invD(2) [OF inv] and unint = False
  have lk: "mutex_lock_interruptible K (aesd_device k) = Some (False, (aesd_device k)\<lparr>lock := True\<rparr>)"
    using False unlocked by (simp add: mutex_lock_interruptible_def)
  obtain r where wc: "write_collect K buf count ?cur (kheap k) = Some r"
    and r: "collected K buf count ?cur (kheap k) r"
    using write_collect_inv [OF inv K count] by blast
  from r show ?thesis
  proof cases
    case nomem
    then show ?thesis
      using False filp lk wc no_memory [of K count k buf pos] unlock_unlocked [OF unlocked]
      by (simp add: aesd_write_def mutex_unlock_def)
  next
    case fault
    then show ?thesis
      using False filp lk wc unlock_unlocked [OF unlocked]
        copy_failed [OF fault(2) dev_inv_drop_pending(1,2) [OF inv], of pos]
      by (simp add: aesd_write_def mutex_unlock_def)
  next
    case (stored bs p)
    have n: "unat (esize ?cur + count) = length (entry_block (kheap k) ?cur @ bs)"
      using stored(3,4) pending_length [OF inv] by simp
    have pend: "pending (abs_dev k) = entry_block (kheap k) ?cur" by (simp add: abs_dev_def)
    show ?thesis
    proof (cases "newline \<in> set bs")
      case True
      from dev_inv_store_command [OF inv stored(6,7) n stored(5) True, of count]
      obtain dev2 h2 where dev2: "write_commit count
          ((aesd_device k)\<lparr>lock := True, current_write_entry := \<lparr>buffptr = p, esize = esize ?cur + count\<rparr>\<rparr>)
          ((kheap k)(buffptr ?cur := None, p \<mapsto> entry_block (kheap k) ?cur @ bs)) =
          Some (esize ?cur + count, dev2, h2)" "lock dev2"
        "dev_inv (k\<lparr>aesd_device := dev2\<lparr>lock := False\<rparr>, kheap := h2\<rparr>)"
        "abs_dev (k\<lparr>aesd_device := dev2\<lparr>lock := False\<rparr>, kheap := h2\<rparr>) = log_write bs (abs_dev k)"
        "out_offs (buffer dev2) = next_start (buffer (aesd_device k))"
        by (auto simp: Let_def)
      then show ?thesis
        using unint stored(8) filp lk wc stored(1) n True
          accepted [OF stored(2,3) dev2(3,4), of "esize ?cur + count" pos] pend
        by (simp add: aesd_write_def mutex_unlock_def)
    next
      case False
      have "live_entry ((kheap k)(buffptr ?cur := None, p \<mapsto> entry_block (kheap k) ?cur @ bs))
          \<lparr>buffptr = p, esize = esize ?cur + count\<rparr>"
        using stored n by (simp add: live_entry_def)
      moreover have "newline \<notin> set (entry_block (kheap k) ?cur @ bs)"
        using False dev_invD(6) [OF inv] by simp
      ultimately show ?thesis
        using unint stored(8) filp lk wc stored(1) False unlock_unlocked [OF unlocked]
          accepted [OF stored(2,3), of _ k count pos]
          dev_inv_store_pending(3) [OF inv stored(6,7) n stored(5) False] stored(3)
        by (simp add: aesd_write_def mutex_unlock_def write_commit_pending entry_block_def)
    qed
  qed
qed


section \<open>Reads\<close>

lemma live_cmd:
  assumes "dev_inv k" and "e \<in> set (cbuf_entries (buffer (aesd_device k)))"
  shows "live_entry (kheap k) e"
  using dev_invD(3) [OF assms(1)] assms(2) by (simp add: heap_owns_def owned_def)

lemma cmd_sizes:
  assumes "dev_inv k"
  shows "map length (cmds (abs_dev k)) = entry_sizes (cbuf_entries (buffer (aesd_device k)))"
  using live_entry_block [OF live_cmd [OF assms]]
  by (simp add: abs_dev_def entry_sizes_def)

lemma contents_bound:
  assumes "dev_inv k"
  shows "length (log_contents (abs_dev k)) < 2 ^ 63"
proof -
  let ?ns = "entry_sizes (cbuf_entries (buffer (aesd_device k)))"
  have "sum_list ?ns \<le> length ?ns * kmalloc_bound"
    using live_cmd [OF assms]
    by (intro sum_list_le_bound) (auto simp: entry_sizes_def live_entry_def)
  also have "\<dots> \<le> 10 * kmalloc_bound"
    using length_cbuf_entries_le [OF dev_invD(1) [OF assms]] by simp
  also have "\<dots> < 2 ^ 63" by (simp add: kmalloc_bound_def)
  finally show ?thesis
    using cmd_sizes [OF assms] by (simp add: log_contents_def length_concat)
qed

lemma find_locate_dev:
  assumes "dev_inv k"
  shows "aesd_circular_buffer_find_entry_offset_for_fpos (buffer (aesd_device k)) pos =
    Some (map_option (\<lambda>(j, n). (slot (buffer (aesd_device k)) j, word_of_nat n))
      (locate (map length (cmds (abs_dev k))) (unat pos)))"
proof -
  have "sum_list (entry_sizes (cbuf_entries (buffer (aesd_device k)))) < 2 ^ 64"
    using contents_bound [OF assms] cmd_sizes [OF assms]
    by (simp add: log_contents_def length_concat)
  then show ?thesis
    using find_entry_locate [OF dev_invD(1) [OF assms]] cmd_sizes [OF assms] by simp
qed

text \<open>What \<open>aesd_read\<close> returns, in terms of the abstract device.\<close>

lemma aesd_read_eq:
  assumes inv: "dev_inv k" and filp: "private_data filp = Some d"
  shows "aesd_read K filp buf count pos k =
    (if lock_interrupted K then Some (Inl ERESTARTSYS, [], pos, k)
     else case locate (map length (cmds (abs_dev k))) (unat pos) of
       None \<Rightarrow> Some (Inr 0, [], pos, k)
     | Some (j, off) \<Rightarrow>
         let bs = take (unat count) (drop off (cmds (abs_dev k) ! j)) in
         if copy_to_user K buf bs
         then Some (Inr (word_of_nat (length bs)), bs, pos + word_of_nat (length bs), k)
         else Some (Inl EFAULT, [], pos, k))"
proof (cases "lock_interrupted K")
  case True
  then show ?thesis using filp by (simp add: aesd_read_def mutex_lock_interruptible_def)
next
  case False
  let ?b = "buffer (aesd_device k)"
  note unlocked = dev_invD(2) [OF inv]
  show ?thesis
  proof (cases "locate (map length (cmds (abs_dev k))) (unat pos)")
    case None
    with False show ?thesis
      using filp unlocked find_locate_dev [OF inv, of pos] unlock_unlocked(1) [OF unlocked]
      by (simp add: aesd_read_def mutex_lock_interruptible_def mutex_unlock_def)
  next
    case (Some jo)
    then obtain j off where jo: "locate (map length (cmds (abs_dev k))) (unat pos) = Some (j, off)"
      by (cases jo) auto
    let ?e = "cbuf_entries ?b ! j"
    have j: "j < length (cbuf_entries ?b)" and off: "off < length (cmds (abs_dev k) ! j)"
      using jo unfolding locate_Some by (auto simp: abs_dev_def)
    have cmd: "cmds (abs_dev k) ! j = entry_block (kheap k) ?e"
      using j by (simp add: abs_dev_def)
    have live: "live_entry (kheap k) ?e" using live_cmd [OF inv] j by simp
    note blk = live_entry_block [OF live]
    have off64: "unat (word_of_nat off :: size_t) = off"
      using off blk cmd unat64_bound [of "esize ?e"] by (intro unat_of_nat64) simp
    have m: "unat (min count (esize ?e - word_of_nat off)) = min (unat count) (unat (esize ?e) - off)"
      using off blk cmd off64 by (auto simp: min_def word_le_nat_alt unat_diff_le)
    then have len: "length (take (unat count) (drop off (entry_block (kheap k) ?e))) =
        unat (min count (esize ?e - word_of_nat off))"
      using blk by simp
    have bytes: "min count (esize ?e - word_of_nat off) =
        word_of_nat (length (take (unat count) (drop off (entry_block (kheap k) ?e))))"
      unfolding len by simp
    have ld: "load (kheap k) (buffptr ?e) off (min (unat count) (unat (esize ?e) - off)) =
        Some (take (unat count) (drop off (entry_block (kheap k) ?e)))"
      using blk off cmd by (auto simp: load_def min_def)
    have "\<not> esize ?e \<le> word_of_nat off"
      using off blk cmd off64 by (simp add: word_le_nat_alt)
    then show ?thesis
      using False filp unlocked find_locate_dev [OF inv, of pos] unlock_unlocked(1) [OF unlocked]
        jo entry_at_slot [OF dev_invD(1) [OF inv] j] off64 m ld cmd bytes
      by (simp add: aesd_read_def mutex_lock_interruptible_def mutex_unlock_def Let_def del: unat_slot)
  qed
qed


text \<open>
  The bytes of one successful read: a prefix of what follows the position, empty only at the end
  of the contents or for a zero count.
\<close>

lemma aesd_read_bytes:
  assumes inv: "dev_inv k" and filp: "private_data filp = Some d"
    and ret: "aesd_read K filp buf count pos k = Some (Inr n, bs, pos', k')"
  shows "k' = k \<and> unat n = length bs \<and> length bs \<le> unat count \<and>
    bs = take (length bs) (drop (unat pos) (log_contents (abs_dev k))) \<and>
    (bs = [] \<longleftrightarrow> count = 0 \<or> length (log_contents (abs_dev k)) \<le> unat pos) \<and>
    pos' = pos + n \<and> unat pos' = unat pos + length bs"
proof (cases "locate (map length (cmds (abs_dev k))) (unat pos)")
  case None
  with ret have "n = 0 \<and> bs = [] \<and> pos' = pos \<and> k' = k"
    by (auto simp: aesd_read_eq [OF inv filp] split: if_splits)
  moreover have "length (log_contents (abs_dev k)) \<le> unat pos"
    using None unfolding locate_None by (simp add: log_contents_def length_concat)
  ultimately show ?thesis by simp
next
  case (Some jo)
  then obtain j off where jo: "locate (map length (cmds (abs_dev k))) (unat pos) = Some (j, off)"
    by (cases jo) auto
  with ret have bs: "bs = take (unat count) (drop off (cmds (abs_dev k) ! j))"
    and n: "n = word_of_nat (length bs)" and pos': "pos' = pos + n" and k': "k' = k"
    by (auto simp: aesd_read_eq [OF inv filp] Let_def split: if_splits)
  have rest: "drop (unat pos) (log_contents (abs_dev k)) =
      drop off (cmds (abs_dev k) ! j) @ concat (drop (Suc j) (cmds (abs_dev k)))"
    unfolding log_contents_def by (rule locate_concat [OF jo])
  have pre: "bs = take (length bs) (drop (unat pos) (log_contents (abs_dev k)))"
    unfolding rest by (simp add: bs min_def)
  have off: "off < length (cmds (abs_dev k) ! j)" using jo unfolding locate_Some by auto
  have lt: "unat pos < length (log_contents (abs_dev k))"
  proof (rule ccontr)
    assume "\<not> unat pos < length (log_contents (abs_dev k))"
    then have "drop (unat pos) (log_contents (abs_dev k)) = []" by simp
    with rest off show False by simp
  qed
  have "length bs \<le> length (log_contents (abs_dev k)) - unat pos"
    using arg_cong [OF pre, of length] by simp
  with lt contents_bound [OF inv] have sum: "unat pos + length bs < 2 ^ 64" and "length bs < 2 ^ 64"
    by simp_all
  then have un: "unat n = length bs" unfolding n by (intro unat_of_nat64) simp
  then have "unat pos' = unat pos + length bs"
    unfolding pos' using sum unat_add_no_overflow [of pos n] by simp
  moreover have "bs = [] \<longleftrightarrow> count = 0" and "length bs \<le> unat count"
    using off by (simp_all add: bs unat_eq_0)
  ultimately show ?thesis
    using k' un pos' lt by (intro conjI pre) simp_all
qed

section \<open>Sizes and seeking\<close>

lemma foreach_sum:
  "foreach_entry (\<lambda>i e acc. Inl (acc + esize e)) i es (acc :: size_t) =
   acc + word_of_nat (sum_list (entry_sizes es))"
  by (induction es arbitrary: i acc) (simp_all add: add.assoc)

lemma sum_entry_sizes_rotate: "sum_list (entry_sizes (rotate n es)) = sum_list (entry_sizes es)"
proof (induction n)
  case (Suc n)
  have "sum_list (entry_sizes (rotate1 xs)) = sum_list (entry_sizes xs)" for xs
    by (cases xs) simp_all
  with Suc show ?case by simp
qed simp

text \<open>The array and the list of entries differ in order and in zeroed slots only.\<close>

lemma entry_cbuf_entries:
  assumes "cbuf_inv b"
  shows "sum_list (entry_sizes (entry b)) = sum_list (entry_sizes (cbuf_entries b))"
    and "set (entry b) \<subseteq> insert null_entry (set (cbuf_entries b))"
    and "out_offs b = 0 \<Longrightarrow> \<exists>n. entry b = cbuf_entries b @ replicate n null_entry"
proof -
  have split: "\<not> full b \<Longrightarrow> entry b = cbuf_entries b @ replicate (10 - unat (in_offs b)) null_entry"
    using assms append_take_drop_id [of "unat (in_offs b)" "entry b"]
    by (simp add: cbuf_inv_def cbuf_entries_def)
  have zero: "sum_list (entry_sizes (replicate n null_entry)) = 0" for n
    by (induction n) simp_all
  show "sum_list (entry_sizes (entry b)) = sum_list (entry_sizes (cbuf_entries b))"
  proof (cases "full b")
    case True
    then show ?thesis by (simp add: cbuf_entries_def sum_entry_sizes_rotate)
  next
    case False
    from split [OF False] zero show ?thesis by (metis add_0_right entry_sizes_simps(3) sum_list_append)
  qed
  show "set (entry b) \<subseteq> insert null_entry (set (cbuf_entries b))"
  proof (cases "full b")
    case True
    then show ?thesis by (auto simp: cbuf_entries_def)
  next
    case False
    from arg_cong [OF split [OF False], of set] show ?thesis by auto
  qed
  show "\<exists>n. entry b = cbuf_entries b @ replicate n null_entry" if "out_offs b = 0"
  proof (cases "full b")
    case True
    with that show ?thesis by (intro exI [of _ 0]) (simp add: cbuf_entries_def)
  next
    case False
    from split [OF False] show ?thesis by blast
  qed
qed


lemma size_contents:
  assumes "dev_inv k"
  shows "aesd_circular_buffer_size (buffer (aesd_device k)) =
    word_of_nat (length (log_contents (abs_dev k)))"
  using entry_cbuf_entries(1) [OF dev_invD(1) [OF assms]] cmd_sizes [OF assms]
  by (simp add: aesd_circular_buffer_size_def AESD_CIRCULAR_BUFFER_FOREACH_def foreach_sum
      log_contents_def length_concat)

lemma aesd_llseek_eq:
  assumes inv: "dev_inv k" and filp: "private_data filp = Some d"
  shows "aesd_llseek K filp offset whence k =
    (if lock_interrupted K then Some (Inl ERESTARTSYS, filp, k)
     else let (r, pos) = fixed_size_llseek K (f_pos filp) offset whence
            (word_of_nat (length (log_contents (abs_dev k)))) in
       Some (r, filp\<lparr>f_pos := pos\<rparr>, k))"
  using filp dev_invD(2) [OF inv] unlock_unlocked(1) [OF dev_invD(2) [OF inv]] size_contents [OF inv]
  by (simp add: aesd_llseek_def mutex_lock_interruptible_def mutex_unlock_def Let_def split_def)

text \<open>The seek position: the sizes of the array's slots before the one asked for.\<close>

lemma foreach_seek:
  assumes "c < length es"
  shows "foreach_entry
      (\<lambda>index e acc. if index = i + c then Inr (acc + x) else Inl (acc + esize e)) i es (acc :: size_t) =
    acc + word_of_nat (sum_list (entry_sizes (take c es))) + x"
  using assms
proof (induction es arbitrary: i c acc)
  case Nil
  then show ?case by simp
next
  case (Cons e es)
  show ?case
  proof (cases c)
    case 0
    then show ?thesis by simp
  next
    case (Suc c')
    have "foreach_entry (\<lambda>index e acc. if index = Suc i + c' then Inr (acc + x) else Inl (acc + esize e))
        (Suc i) es (acc + esize e) =
      (acc + esize e) + word_of_nat (sum_list (entry_sizes (take c' es))) + x"
      using Cons.prems Suc by (intro Cons.IH) simp
    with Suc show ?thesis by (simp add: algebra_simps)
  qed
qed

lemma seek_char_offset_eq:
  assumes "unat (write_cmd seekto) < length (entry b)"
  shows "seek_char_offset seekto b =
    word_of_nat (sum_list (entry_sizes (take (unat (write_cmd seekto)) (entry b)))
      + unat (write_cmd_offset seekto))"
  using foreach_seek [OF assms, where i = 0 and acc = 0 and x = "ucast (write_cmd_offset seekto)"]
  by (simp add: seek_char_offset_def AESD_CIRCULAR_BUFFER_FOREACH_def)

text \<open>
  \<open>AESDCHAR_IOCSEEKTO\<close> on the raw array, for every state the invariant allows.
\<close>

definition ioc_ok :: "kapi \<Rightarrow> bool" where
  "ioc_ok K \<longleftrightarrow> (\<forall>ty nr n. ty < 256 \<longrightarrow> nr < 256 \<longrightarrow> n < 2 ^ 14 \<longrightarrow>
     IOC_TYPE K (IOWR K ty nr n) = ty \<and> IOC_NR K (IOWR K ty nr n) = nr)"

lemma aesd_ioctl_seekto_eq:
  assumes inv: "dev_inv k" and filp: "private_data filp = Some d" and ioc: "ioc_ok K"
  shows "aesd_ioctl K filp (AESDCHAR_IOCSEEKTO K) arg k =
    (case copy_seekto_from_user K arg of
       None \<Rightarrow> Some (Inl EFAULT, filp, k)
     | Some seekto \<Rightarrow>
         if lock_interrupted K then Some (Inl ERESTARTSYS, filp, k)
         else let c = unat (write_cmd seekto); es = entry (buffer (aesd_device k)) in
           if c < 10 \<and> buffptr (es ! c) \<noteq> NULL \<and>
             unat (write_cmd_offset seekto) < unat (esize (es ! c))
           then Some (Inr 0, filp\<lparr>f_pos := word_of_nat (sum_list (entry_sizes (take c es))
             + unat (write_cmd_offset seekto))\<rparr>, k)
           else Some (Inl EINVAL, filp, k))"
proof -
  note unlocked = dev_invD(2) [OF inv]
  have len: "length (entry (buffer (aesd_device k))) = 10"
    by (rule cbuf_inv_length [OF dev_invD(1) [OF inv]])
  have guard: "IOC_TYPE K (AESDCHAR_IOCSEEKTO K) = 0x16" "IOC_NR K (AESDCHAR_IOCSEEKTO K) = 1"
    using ioc by (simp_all add: ioc_ok_def AESDCHAR_IOCSEEKTO_def)
  show ?thesis
    using filp unlocked guard len unlock_unlocked(1) [OF unlocked]
    by (auto simp: aesd_ioctl_def mutex_lock_interruptible_def mutex_unlock_def entry_at_def
        seek_char_offset_eq Let_def split: option.split)
qed


text \<open>The position of a byte of a command, counted from the oldest command on.\<close>

definition log_seek :: "nat \<Rightarrow> nat \<Rightarrow> log_dev \<Rightarrow> nat option" where
  "log_seek c off a =
     (if c < length (cmds a) \<and> off < length (cmds a ! c)
      then Some (length (concat (take c (cmds a))) + off) else None)"

lemma log_seek_drop:
  assumes "log_seek c off a = Some p"
  shows "drop p (log_contents a) = drop off (cmds a ! c) @ concat (drop (Suc c) (cmds a))"
proof -
  have "locate (map length (cmds a)) p = Some (c, off)"
    using assms unfolding locate_Some
    by (auto simp: log_seek_def length_concat take_map split: if_splits)
  from locate_concat [OF this] show ?thesis by (simp add: log_contents_def)
qed

text \<open>
  The driver counts array slots.  \<open>slot_order\<close> is the log with its commands in the order of the
  array: as they are while the ring reads from slot 0, rotated after it has wrapped.
\<close>

definition slot_order :: "kernel \<Rightarrow> log_dev" where
  "slot_order k = (abs_dev k)\<lparr>cmds :=
     rotate ((10 - unat (out_offs (buffer (aesd_device k)))) mod 10) (cmds (abs_dev k))\<rparr>"

lemma slot_order_unwrapped: "out_offs (buffer (aesd_device k)) = 0 \<Longrightarrow> slot_order k = abs_dev k"
  by (simp add: slot_order_def)

lemma entry_slots:
  assumes "cbuf_inv b"
  shows "\<exists>n. entry b = rotate ((10 - unat (out_offs b)) mod 10) (cbuf_entries b) @ replicate n null_entry"
proof (cases "out_offs b = 0")
  case True
  then show ?thesis using entry_cbuf_entries(3) [OF assms True] by simp
next
  case False
  with assms have full: "full b" "unat (out_offs b) < 10" "length (entry b) = 10"
    by (auto simp: cbuf_inv_def split: if_splits)
  moreover have "0 < unat (out_offs b)" using False by (simp add: unat_gt_0)
  ultimately have "(10 - unat (out_offs b)) mod 10 + unat (out_offs b) = 10" by simp
  with full have "rotate ((10 - unat (out_offs b)) mod 10) (cbuf_entries b) = entry b"
    by (simp add: cbuf_entries_def rotate_rotate)
  then show ?thesis by (metis append_Nil2 replicate_0)
qed

lemma seek_slot:
  assumes inv: "dev_inv k" and c: "c < 10"
  defines "es \<equiv> entry (buffer (aesd_device k))"
  shows "(buffptr (es ! c) \<noteq> NULL \<and> off < unat (esize (es ! c))) =
      (log_seek c off (slot_order k) \<noteq> None)"
    and "c < length (cmds (slot_order k)) \<Longrightarrow>
      sum_list (entry_sizes (take c es)) = length (concat (take c (cmds (slot_order k))))"
proof -
  let ?m = "(10 - unat (out_offs (buffer (aesd_device k)))) mod 10"
  let ?cs = "rotate ?m (cbuf_entries (buffer (aesd_device k)))"
  obtain n where es: "es = ?cs @ replicate n null_entry"
    using entry_slots [OF dev_invD(1) [OF inv]] by (auto simp: es_def)
  have cmds: "cmds (slot_order k) = map (entry_block (kheap k)) ?cs"
    by (simp add: slot_order_def abs_dev_def rotate_map)
  have live: "live_entry (kheap k) e" if "e \<in> set ?cs" for e using live_cmd [OF inv] that by simp
  have tot: "length ?cs + n = 10"
    using cbuf_inv_length [OF dev_invD(1) [OF inv]] arg_cong [OF es, of length] by (simp add: es_def)
  show "(buffptr (es ! c) \<noteq> NULL \<and> off < unat (esize (es ! c))) = (log_seek c off (slot_order k) \<noteq> None)"
  proof (cases "c < length ?cs")
    case True
    then have e: "es ! c = ?cs ! c" by (simp add: es nth_append)
    have "live_entry (kheap k) (?cs ! c)" using live True by (metis nth_mem)
    with True live_entry_block [OF this] show ?thesis
      unfolding e log_seek_def cmds by (simp add: live_entry_def)
  next
    case False
    with c tot have "es ! c = null_entry" by (simp add: es nth_append)
    with False show ?thesis by (simp add: log_seek_def cmds)
  qed
  assume "c < length (cmds (slot_order k))"
  then have "take c es = take c ?cs" by (simp add: es cmds)
  moreover have "map length (cmds (slot_order k)) = entry_sizes ?cs"
    using live_entry_block [OF live] by (simp add: cmds entry_sizes_def)
  then have "map length (take c (cmds (slot_order k))) = entry_sizes (take c ?cs)"
    by (metis entry_sizes_def take_map)
  ultimately show "sum_list (entry_sizes (take c es)) = length (concat (take c (cmds (slot_order k))))"
    by (simp add: length_concat)
qed

lemma aesd_ioctl_seekto_slot:
  assumes inv: "dev_inv k" and filp: "private_data filp = Some d" and ioc: "ioc_ok K"
    and arg: "copy_seekto_from_user K arg = Some seekto" and unint: "\<not> lock_interrupted K"
  shows "aesd_ioctl K filp (AESDCHAR_IOCSEEKTO K) arg k =
    (case log_seek (unat (write_cmd seekto)) (unat (write_cmd_offset seekto)) (slot_order k) of
       None \<Rightarrow> Some (Inl EINVAL, filp, k)
     | Some p \<Rightarrow> Some (Inr 0, filp\<lparr>f_pos := word_of_nat p\<rparr>, k))"
proof (cases "unat (write_cmd seekto) < 10")
  case True
  note s = seek_slot [OF inv True]
  show ?thesis
    using s(1) [of "unat (write_cmd_offset seekto)"] s(2) unint
    by (auto simp: aesd_ioctl_seekto_eq [OF inv filp ioc] arg Let_def log_seek_def True
        split: if_splits)
next
  case False
  have "length (cmds (slot_order k)) \<le> 10"
    using length_cbuf_entries_le [OF dev_invD(1) [OF inv]] by (simp add: slot_order_def abs_dev_def)
  with False have "log_seek (unat (write_cmd seekto)) (unat (write_cmd_offset seekto)) (slot_order k) = None"
    by (simp add: log_seek_def)
  with False unint show ?thesis
    by (simp add: aesd_ioctl_seekto_eq [OF inv filp ioc] arg Let_def)
qed

lemma aesd_ioctl_seekto_unwrapped:
  assumes "dev_inv k" and "private_data filp = Some d" and "ioc_ok K"
    and "out_offs (buffer (aesd_device k)) = 0"
    and "copy_seekto_from_user K arg = Some seekto" and "\<not> lock_interrupted K"
  shows "aesd_ioctl K filp (AESDCHAR_IOCSEEKTO K) arg k =
    (case log_seek (unat (write_cmd seekto)) (unat (write_cmd_offset seekto)) (abs_dev k) of
       None \<Rightarrow> Some (Inl EINVAL, filp, k)
     | Some p \<Rightarrow> Some (Inr 0, filp\<lparr>f_pos := word_of_nat p\<rparr>, k))"
  using aesd_ioctl_seekto_slot [OF assms(1-3,5,6)] by (simp add: slot_order_unwrapped [OF assms(4)])

section \<open>Module entry and exit\<close>

lemma aesd_init_module_inv:
  assumes "aesd_init_module K k = (0, k')" and "kheap k = Map.empty"
    and "alloc_chrdev_region K = (r, dev)"
  shows "dev_inv k'" and "abs_dev k' = \<lparr>cmds = [], pending = []\<rparr>" and "region k' = Some dev"
    and "cdev_live k'" and "aesd_major k' = MAJOR K dev"
  using assms cbuf_inv_init cbuf_entries_init
  by (auto simp: aesd_init_module_def aesd_setup_cdev_def Let_def zero_aesd_dev_def dev_inv_def
      owned_def heap_owns_def entry_block_def abs_dev_def split: if_splits)

lemma free_entries_restrict:
  assumes "\<forall>e \<in> set es. buffptr e \<noteq> NULL \<longrightarrow> h (buffptr e) \<noteq> None"
    and "distinct (map buffptr (filter (\<lambda>e. buffptr e \<noteq> NULL) es))" and "h NULL = None"
  shows "free_entries es h = Some (h |` (- (buffptr ` set es)))"
  using assms
proof (induction es arbitrary: h)
  case Nil
  then show ?case by simp
next
  case (Cons e es)
  show ?case
  proof (cases "buffptr e = NULL")
    case True
    have "h |` (- insert NULL (buffptr ` set es)) = h |` (- (buffptr ` set es))"
      using Cons.prems(3) by (auto simp: restrict_map_def)
    with True Cons show ?thesis by simp
  next
    case False
    let ?h = "h(buffptr e := None)"
    have "free_entries es ?h = Some (?h |` (- (buffptr ` set es)))"
      using Cons.prems False by (intro Cons.IH) (auto simp: image_iff)
    moreover have "?h |` (- (buffptr ` set es)) = h |` (- (buffptr ` set (e # es)))"
      by (auto simp: restrict_map_def)
    moreover have "release h (buffptr e) = Some ?h"
      using False Cons.prems(1) by (auto simp: release_def)
    ultimately show ?thesis using False by simp
  qed
qed


lemma cbuf_ptrs:
  assumes "cbuf_inv b"
  shows "buffptr ` set (entry b) - {NULL} = buffptr ` set (cbuf_entries b) - {NULL}"
    and "distinct (map buffptr (cbuf_entries b)) \<Longrightarrow>
      distinct (map buffptr (filter (\<lambda>e. buffptr e \<noteq> NULL) (entry b)))"
proof -
  have split: "\<not> full b \<Longrightarrow> entry b = cbuf_entries b @ replicate (10 - unat (in_offs b)) null_entry"
    using assms append_take_drop_id [of "unat (in_offs b)" "entry b"]
    by (simp add: cbuf_inv_def cbuf_entries_def)
  have "set (cbuf_entries b) \<subseteq> set (entry b)"
    by (auto simp: cbuf_entries_def dest: in_set_takeD)
  with entry_cbuf_entries(2) [OF assms]
  show "buffptr ` set (entry b) - {NULL} = buffptr ` set (cbuf_entries b) - {NULL}"
    by (auto simp: image_iff)
  assume d: "distinct (map buffptr (cbuf_entries b))"
  show "distinct (map buffptr (filter (\<lambda>e. buffptr e \<noteq> NULL) (entry b)))"
  proof (cases "full b")
    case True
    with d have "distinct (map buffptr (entry b))"
      by (simp add: cbuf_entries_def flip: rotate_map)
    then show ?thesis by (rule distinct_map_filter)
  next
    case False
    have "filter (\<lambda>e. buffptr e \<noteq> NULL) (entry b) = filter (\<lambda>e. buffptr e \<noteq> NULL) (cbuf_entries b)"
      by (subst split [OF False]) simp
    with distinct_map_filter [OF d] show ?thesis by simp
  qed
qed

text \<open>
  Unloading frees every block of the ring exactly once; the pending block is not freed.
\<close>

lemma aesd_cleanup_module_heap:
  assumes inv: "dev_inv k"
  shows "\<exists>k'. aesd_cleanup_module K k = Some k' \<and>
    kheap k' = kheap k |` {buffptr (current_write_entry (aesd_device k))} \<and>
    \<not> cdev_live k' \<and>
    region k' = unregister_chrdev_region K (MKDEV K (aesd_major k) 0) (region k)"
proof -
  let ?b = "buffer (aesd_device k)" and ?h = "kheap k"
  let ?cur = "current_write_entry (aesd_device k)"
  note owns = dev_invD(3) [OF inv] and cinv = dev_invD(1) [OF inv]
  have nN: "?h NULL = None" by (rule heap_owns_NULL [OF owns])
  have ptrs: "buffptr ` set (entry ?b) - {NULL} = buffptr ` set (cbuf_entries ?b) - {NULL}"
    by (rule cbuf_ptrs(1) [OF cinv])
  have "free_entries (entry ?b) ?h = Some (?h |` (- (buffptr ` set (entry ?b))))"
  proof (rule free_entries_restrict)
    show "distinct (map buffptr (filter (\<lambda>e. buffptr e \<noteq> NULL) (entry ?b)))"
      using owns by (intro cbuf_ptrs(2) [OF cinv]) (simp add: heap_owns_def owned_def)
    show "\<forall>e \<in> set (entry ?b). buffptr e \<noteq> NULL \<longrightarrow> ?h (buffptr e) \<noteq> None"
      using ptrs heap_owns_None_iff [OF owns] by (auto simp: owned_def)
  qed (rule nN)
  moreover have "?h |` (- (buffptr ` set (entry ?b))) = ?h |` {buffptr ?cur}"
  proof
    fix p
    have "?h p = None \<or> (p \<notin> buffptr ` set (entry ?b) \<longleftrightarrow> p = buffptr ?cur)"
      using ptrs nN heap_owns_None_iff [OF owns, of p] pending_ptr_fresh [OF owns]
      by (cases "p = NULL") (auto simp: owned_def split: if_splits)
    then show "(?h |` (- (buffptr ` set (entry ?b)))) p = (?h |` {buffptr ?cur}) p"
      by (auto simp: restrict_map_def)
  qed
  ultimately show ?thesis
    using dev_invD(2) [OF inv]
    by (simp add: aesd_cleanup_module_def)
qed

lemma aesd_ioctl_frame:
  assumes inv: "dev_inv k" and filp: "private_data filp = Some d"
  shows "case aesd_ioctl K filp cmd arg k of None \<Rightarrow> False
    | Some (r, filp', k') \<Rightarrow> k' = k \<and> private_data filp' = private_data filp"
proof -
  note unlocked = dev_invD(2) [OF inv]
  have len: "length (entry (buffer (aesd_device k))) = 10"
    by (rule cbuf_inv_length [OF dev_invD(1) [OF inv]])
  have mutex: "mutex_lock_interruptible K (aesd_device k) =
      (if lock_interrupted K then Some (True, aesd_device k)
       else Some (False, (aesd_device k)\<lparr>lock := True\<rparr>))"
    using unlocked by (simp add: mutex_lock_interruptible_def)
  have unlock: "mutex_unlock ((aesd_device k)\<lparr>lock := True\<rparr>) = Some (aesd_device k)"
    using unlock_unlocked(1) [OF unlocked] by (simp add: mutex_unlock_def)
  show ?thesis
  proof (cases "copy_seekto_from_user K arg")
    case None
    then show ?thesis by (simp add: aesd_ioctl_def)
  next
    case (Some seekto)
    have at: "unat c < 10 \<Longrightarrow> entry_at (buffer (aesd_device k)) (unat c) =
        Some (entry (buffer (aesd_device k)) ! unat c)" for c :: uint32_t
      by (simp add: entry_at_def len)
    from Some show ?thesis
      by (simp add: aesd_ioctl_def mutex unlock filp at)
  qed
qed

end
