(* ===== verification/Driver_System.thy ===== *)
theory Driver_System
  imports Driver_Refinement
begin

text \<open>
  The loaded driver as a transition system: any number of open files, any sequence of file
  operations, each with any behaviour of the kernel that its documentation allows.  The
  invariant of \<open>Driver_Refinement\<close> holds in every reachable state, no operation meets undefined
  behaviour there, and every step is a step of the abstract device.
\<close>

section \<open>The operations table and the steps\<close>

record file_operations =
  fop_read :: "kapi \<Rightarrow> kfile \<Rightarrow> ptr \<Rightarrow> size_t \<Rightarrow> loff_t \<Rightarrow> kernel \<Rightarrow>
    (size_t kres \<times> byte list \<times> loff_t \<times> kernel) option"
  fop_write :: "kapi \<Rightarrow> kfile \<Rightarrow> ptr \<Rightarrow> size_t \<Rightarrow> loff_t \<Rightarrow> kernel \<Rightarrow>
    (size_t kres \<times> loff_t \<times> kernel) option"
  fop_llseek :: "kapi \<Rightarrow> kfile \<Rightarrow> loff_t \<Rightarrow> int \<Rightarrow> kernel \<Rightarrow>
    (loff_t kres \<times> kfile \<times> kernel) option"
  fop_unlocked_ioctl :: "kapi \<Rightarrow> kfile \<Rightarrow> uint32_t \<Rightarrow> ptr \<Rightarrow> kernel \<Rightarrow>
    (size_t kres \<times> kfile \<times> kernel) option"
  fop_open :: "inode \<Rightarrow> kfile \<Rightarrow> int \<times> kfile"
  fop_release :: "inode \<Rightarrow> kfile \<Rightarrow> int"

definition aesd_fops :: file_operations where
  "aesd_fops =
     \<lparr>fop_read = aesd_read, fop_write = aesd_write, fop_llseek = aesd_llseek,
      fop_unlocked_ioctl = aesd_ioctl, fop_open = aesd_open, fop_release = aesd_release\<rparr>"

record dsys =
  kern :: kernel
  files :: "nat \<rightharpoonup> kfile"

datatype dlabel =
    D_open nat
  | D_read nat size_t "size_t kres" "byte list"
  | D_write nat "byte list option" "size_t kres"
  | D_llseek nat "loff_t kres"
  | D_ioctl nat uint32_t "size_t kres"
  | D_release nat

abbreviation aesd_inode :: inode where
  "aesd_inode \<equiv> \<lparr>i_cdev = Aesd_device\<rparr>"

text \<open>
  The VFS finds the file of a descriptor, calls the operation of the table and keeps the position
  the operation leaves.
\<close>

inductive driver_step :: "dsys \<Rightarrow> dlabel \<Rightarrow> dsys \<Rightarrow> bool" where
  d_open: "files s fd = None \<Longrightarrow>
    fop_open aesd_fops aesd_inode \<lparr>private_data = None, f_pos = 0\<rparr> = (0, f) \<Longrightarrow>
    driver_step s (D_open fd) (s\<lparr>files := (files s)(fd \<mapsto> f)\<rparr>)"
| d_read: "files s fd = Some f \<Longrightarrow> kapi_ok K \<Longrightarrow> unat count \<le> MAX_RW_COUNT \<Longrightarrow>
    fop_read aesd_fops K f buf count (f_pos f) (kern s) = Some (r, bs, pos, k) \<Longrightarrow>
    driver_step s (D_read fd count r bs)
      (s\<lparr>kern := k, files := (files s)(fd \<mapsto> f\<lparr>f_pos := pos\<rparr>)\<rparr>)"
| d_write: "files s fd = Some f \<Longrightarrow> kapi_ok K \<Longrightarrow> unat count \<le> MAX_RW_COUNT \<Longrightarrow>
    fop_write aesd_fops K f buf count (f_pos f) (kern s) = Some (r, pos, k) \<Longrightarrow>
    driver_step s (D_write fd (copy_from_user K buf count) r)
      (s\<lparr>kern := k, files := (files s)(fd \<mapsto> f\<lparr>f_pos := pos\<rparr>)\<rparr>)"
| d_llseek: "files s fd = Some f \<Longrightarrow>
    fop_llseek aesd_fops K f offset whence (kern s) = Some (r, f', k) \<Longrightarrow>
    driver_step s (D_llseek fd r) (s\<lparr>kern := k, files := (files s)(fd \<mapsto> f')\<rparr>)"
| d_ioctl: "files s fd = Some f \<Longrightarrow>
    fop_unlocked_ioctl aesd_fops K f cmd arg (kern s) = Some (r, f', k) \<Longrightarrow>
    driver_step s (D_ioctl fd cmd r) (s\<lparr>kern := k, files := (files s)(fd \<mapsto> f')\<rparr>)"
| d_release: "files s fd = Some f \<Longrightarrow> fop_release aesd_fops aesd_inode f = 0 \<Longrightarrow>
    driver_step s (D_release fd) (s\<lparr>files := (files s)(fd := None)\<rparr>)"

inductive_cases driver_write_cases: "driver_step s (D_write fd bs r) t"

definition driver_init :: "dsys \<Rightarrow> bool" where
  "driver_init s \<longleftrightarrow> files s = Map.empty \<and>
     (\<exists>K k. kheap k = Map.empty \<and> aesd_init_module K k = (0, kern s))"

definition dsys_inv :: "dsys \<Rightarrow> bool" where
  "dsys_inv s \<longleftrightarrow> dev_inv (kern s) \<and>
     (\<forall>fd f. files s fd = Some f \<longrightarrow> private_data f = Some Aesd_device)"

text \<open>The effect of a step on the abstract device.\<close>

fun log_effect :: "dlabel \<Rightarrow> log_dev \<Rightarrow> log_dev" where
  "log_effect (D_write fd (Some bs) (Inr n)) a = log_write bs a"
| "log_effect (D_write fd bs (Inl EFAULT)) a = a\<lparr>pending := []\<rparr>"
| "log_effect l a = a"

section \<open>Every step keeps the invariant and simulates the abstract device\<close>

lemma read_total:
  assumes "dev_inv k" and "private_data f = Some d"
  shows "\<exists>r bs pos'. aesd_read K f buf count pos k = Some (r, bs, pos', k)"
  by (auto simp: aesd_read_eq [OF assms] Let_def split: option.split)

lemma driver_step_simulates:
  assumes "dsys_inv s" and "driver_step s l t"
  shows "dsys_inv t \<and> abs_dev (kern t) = log_effect l (abs_dev (kern s))"
  using assms(2)
proof cases
  case (d_open fd f)
  then show ?thesis
    using assms(1) by (auto simp: dsys_inv_def aesd_fops_def aesd_open_def)
next
  case (d_read fd f K count buf r bs pos k)
  then have "k = kern s"
    using assms(1) read_total [of "kern s" f Aesd_device K buf count "f_pos f"]
    by (fastforce simp: dsys_inv_def aesd_fops_def)
  with d_read show ?thesis
    using assms(1) by (auto simp: dsys_inv_def)
next
  case (d_write fd f K count buf r pos k)
  then have "written K buf count (f_pos f) (kern s) (r, pos, k)"
    using assms(1) aesd_write_written [of "kern s" K count f Aesd_device buf "f_pos f"]
    by (auto simp: dsys_inv_def aesd_fops_def)
  then have "dev_inv k \<and>
      abs_dev k = log_effect (D_write fd (copy_from_user K buf count) r) (abs_dev (kern s))"
    using assms(1) by cases (auto simp: dsys_inv_def)
  with d_write show ?thesis
    using assms(1) by (auto simp: dsys_inv_def)
next
  case (d_llseek fd f K offset whence r f' k)
  then have "k = kern s \<and> private_data f' = private_data f"
    using assms(1) aesd_llseek_eq [of "kern s" f Aesd_device K offset whence]
    by (auto simp: dsys_inv_def aesd_fops_def Let_def split: if_splits prod.splits)
  with d_llseek show ?thesis
    using assms(1) by (auto simp: dsys_inv_def)
next
  case (d_ioctl fd f K cmd arg r f' k)
  then have "k = kern s \<and> private_data f' = private_data f"
    using assms(1) aesd_ioctl_frame [of "kern s" f Aesd_device K cmd arg]
    by (simp add: dsys_inv_def aesd_fops_def)
  with d_ioctl show ?thesis
    using assms(1) by (auto simp: dsys_inv_def)
next
  case (d_release fd f)
  then show ?thesis
    using assms(1) by (auto simp: dsys_inv_def)
qed

lemma driver_init_inv: "driver_init s \<Longrightarrow> dsys_inv s"
  by (auto simp: driver_init_def dsys_inv_def intro: aesd_init_module_inv(1) [OF _ _ surjective_pairing])

interpretation drv: invariant_system driver_init driver_step dsys_inv
  by unfold_locales (auto simp: driver_init_inv dest: driver_step_simulates)

text \<open>Runs: the labels of a sequence of steps.\<close>

inductive driver_run :: "dsys \<Rightarrow> dlabel list \<Rightarrow> dsys \<Rightarrow> bool" where
  run_nil: "driver_run s [] s"
| run_snoc: "driver_run s ls t \<Longrightarrow> driver_step t l u \<Longrightarrow> driver_run s (ls @ [l]) u"

lemma driver_run_simulates:
  assumes "driver_run s ls t" and "dsys_inv s"
  shows "dsys_inv t \<and> abs_dev (kern t) = fold log_effect ls (abs_dev (kern s))"
  using assms
proof (induction rule: driver_run.induct)
  case (run_nil s)
  then show ?case by simp
next
  case (run_snoc s ls t l u)
  then show ?case using driver_step_simulates [of t l u] by simp
qed


section \<open>The whole history\<close>

text \<open>
  All commands ever completed, with no bound, and the bytes of the incomplete one.
\<close>

fun history_effect :: "dlabel \<Rightarrow> byte list list \<times> byte list \<Rightarrow> byte list list \<times> byte list" where
  "history_effect (D_write fd (Some bs) (Inr n)) (all, p) =
     (if newline \<in> set (p @ bs) then (all @ [p @ bs], []) else (all, p @ bs))"
| "history_effect (D_write fd bs (Inl EFAULT)) (all, p) = (all, [])"
| "history_effect l (all, p) = (all, p)"

lemma log_effect_history:
  "log_effect l \<lparr>cmds = last_n 10 all, pending = p\<rparr> =
   (case history_effect l (all, p) of (all', p') \<Rightarrow> \<lparr>cmds = last_n 10 all', pending = p'\<rparr>)"
  by (cases "(l, (all, p))" rule: history_effect.cases)
    (simp_all add: log_write_def last_n_append_last_n)

lemma fold_log_effect_history:
  "fold log_effect ls \<lparr>cmds = last_n 10 all, pending = p\<rparr> =
   (case fold history_effect ls (all, p) of (all', p') \<Rightarrow> \<lparr>cmds = last_n 10 all', pending = p'\<rparr>)"
proof (induction ls arbitrary: all p)
  case (Cons l ls)
  obtain all' p' where "history_effect l (all, p) = (all', p')" by fastforce
  with Cons [of all' p'] show ?case by (simp add: log_effect_history)
qed simp

lemma driver_init_abs: "driver_init s \<Longrightarrow> abs_dev (kern s) = \<lparr>cmds = [], pending = []\<rparr>"
  by (auto simp: driver_init_def intro: aesd_init_module_inv(2) [OF _ _ surjective_pairing])

lemma driver_run_history:
  assumes "driver_init s" and "driver_run s ls t"
  shows "abs_dev (kern t) =
    (case fold history_effect ls ([], []) of (all, p) \<Rightarrow> \<lparr>cmds = last_n 10 all, pending = p\<rparr>)"
  using driver_run_simulates [OF assms(2) driver_init_inv [OF assms(1)]]
    fold_log_effect_history [of ls "[]" "[]"]
  by (simp add: driver_init_abs [OF assms(1)] last_n_def)

lemma driver_run_reach: "driver_run s ls t \<Longrightarrow> driver_init s \<Longrightarrow> reach driver_init driver_step t"
  by (induction rule: driver_run.induct) (auto intro: reach.intros)

end
