(* ===== verification/Sample_Kernel.thy ===== *)
theory Sample_Kernel
  imports Driver_System
begin

text \<open>
  A concrete kernel that satisfies the hypotheses on the kernel interface: an allocator over
  sixteen addresses that refuses requests above 4096 bytes, a reallocation in place, a user
  address space that holds given bytes, and the generic encoding of ioctl numbers.  It is where
  the development's theorems are evaluated.
\<close>

definition sample_kapi :: "byte list \<Rightarrow> kapi" where
  "sample_kapi u = \<lparr>
     kzalloc = (\<lambda>h n.
       if 4096 < n then (NULL, h)
       else case find (\<lambda>p. h p = None) [1..<17] of
           None \<Rightarrow> (NULL, h)
         | Some p \<Rightarrow> (p, h(p \<mapsto> replicate (unat n) (CHR 0x00)))),
     krealloc = (\<lambda>h q n.
       case h q of
         None \<Rightarrow> (NULL, h)
       | Some bs \<Rightarrow>
           if 4096 < n then (NULL, h)
           else (q, h(q \<mapsto> take (unat n) bs @ replicate (unat n - length bs) (CHR 0x00)))),
     copy_from_user = (\<lambda>p n. if unat n \<le> length u then Some (take (unat n) u) else None),
     copy_seekto_from_user = (\<lambda>p.
       Some \<lparr>write_cmd = word_of_nat (p div 1000), write_cmd_offset = word_of_nat (p mod 1000)\<rparr>),
     copy_to_user = (\<lambda>p bs. True),
     lock_interrupted = False,
     fixed_size_llseek = (\<lambda>pos offset whence size.
       if whence = 0 \<and> offset \<le> size then (Inr offset, offset) else (Inl EINVAL, pos)),
     IOC_TYPE = (\<lambda>cmd. cmd div 256 mod 256),
     IOC_NR = (\<lambda>cmd. cmd mod 256),
     IOWR = (\<lambda>ty nr n. 3221225472 + word_of_nat n * 65536 + ty * 256 + nr),
     MAJOR = (\<lambda>dev. dev div 16),
     MKDEV = (\<lambda>ma mi. ma * 16 + mi),
     alloc_chrdev_region = (0, 160),
     unregister_chrdev_region = (\<lambda>dev r. if r = Some dev then None else r),
     cdev_add = 0\<rparr>"

lemma sample_kzalloc_ok: "kzalloc_ok (sample_kapi u)"
proof -
  have "unat n \<le> kmalloc_bound" if "\<not> 4096 < n" for n :: size_t
    using that by (simp add: kmalloc_bound_def word_less_nat_alt)
  then show ?thesis
    by (auto simp: kzalloc_ok_def sample_kapi_def find_Some_iff split: if_splits option.splits)
qed

lemma sample_krealloc_ok: "krealloc_ok (sample_kapi u)"
  unfolding krealloc_ok_def
proof (intro allI impI)
  fix h :: heap and q n bs p h'
  assume h: "h q = Some bs" and re: "krealloc (sample_kapi u) h q n = (p, h')" and q: "q \<noteq> NULL"
  let ?new = "take (unat n) bs @ replicate (unat n - length bs) (CHR 0x00)"
  have "unat n \<le> kmalloc_bound" if "\<not> 4096 < n"
    using that by (simp add: kmalloc_bound_def word_less_nat_alt)
  moreover have "length ?new = unat n" by simp
  moreover have "take (min (length bs) (unat n)) ?new = take (min (length bs) (unat n)) bs"
    by (simp add: min_def)
  moreover have "h(q \<mapsto> ?new) = (h(q := None))(q \<mapsto> ?new)" by simp
  ultimately have new: "\<not> 4096 < n \<Longrightarrow> unat n \<le> kmalloc_bound \<and>
      (\<exists>new. length new = unat n \<and>
         take (min (length bs) (unat n)) new = take (min (length bs) (unat n)) bs \<and>
         h(q \<mapsto> ?new) = (h(q := None))(q \<mapsto> new))"
    by (intro conjI exI [of _ ?new])
  show "if p = NULL then h' = h
      else (p = q \<or> h p = None) \<and> unat n \<le> kmalloc_bound \<and>
        (\<exists>new. length new = unat n \<and>
           take (min (length bs) (unat n)) new = take (min (length bs) (unat n)) bs \<and>
           h' = (h(q := None))(p \<mapsto> new))"
  proof (cases "4096 < n")
    case True
    with h re show ?thesis by (simp add: sample_kapi_def)
  next
    case False
    with h re have "p = q \<and> h' = h(q \<mapsto> ?new)" by (auto simp: sample_kapi_def)
    with new [OF False] q show ?thesis by simp
  qed
qed

lemma sample_kapi_ok: "kapi_ok (sample_kapi u)"
  using sample_kzalloc_ok sample_krealloc_ok
  by (auto simp: kapi_ok_def copy_from_user_ok_def sample_kapi_def split: if_splits)

lemma sample_ioc_ok: "ioc_ok (sample_kapi u)"
proof -
  have "unat (3221225472 + word_of_nat n * 65536 + ty * 256 + nr :: uint32_t) =
      3221225472 + n * 65536 + unat ty * 256 + unat nr"
    if "unat ty < 256" "unat nr < 256" "n < 16384" for ty nr :: uint32_t and n
    using that by (simp add: unat_word_ariths unat_of_nat)
  moreover have "(3221225472 + n * 65536 + t * 256 + r) div 256 mod 256 = t"
      "(3221225472 + n * 65536 + t * 256 + r) mod 256 = r" if "t < 256" "r < 256" for n t r :: nat
  proof -
    have eq: "3221225472 + n * 65536 + t * 256 + r = r + 256 * (t + 256 * (49152 + n))" by simp
    have "(r + 256 * m) div 256 = m" "(r + 256 * m) mod 256 = r" for m
      using that(2) by simp_all
    moreover have "(t + 256 * m) mod 256 = t" for m using that(1) by simp
    ultimately show "(3221225472 + n * 65536 + t * 256 + r) div 256 mod 256 = t"
        "(3221225472 + n * 65536 + t * 256 + r) mod 256 = r"
      by (simp_all only: eq)
  qed
  ultimately show ?thesis
    by (auto simp: ioc_ok_def sample_kapi_def word_less_nat_alt word_unat_eq_iff unat_div unat_mod)
qed

text \<open>The module freshly loaded, an open file, and the device after a sequence of writes.\<close>

definition unloaded :: kernel where
  "unloaded = \<lparr>aesd_device = zero_aesd_dev, kheap = Map.empty, aesd_major = 0, region = None,
     cdev_live = False\<rparr>"

definition loaded :: kernel where
  "loaded = snd (aesd_init_module (sample_kapi []) unloaded)"

definition opened :: kfile where
  "opened = snd (aesd_open aesd_inode \<lparr>private_data = None, f_pos = 0\<rparr>)"

fun after_writes :: "byte list list \<Rightarrow> kernel \<Rightarrow> kernel" where
  "after_writes [] k = k"
| "after_writes (u # us) k =
     (case aesd_write (sample_kapi u) opened 0 (word_of_nat (length u)) 0 k of
        None \<Rightarrow> k | Some (r, pos, k') \<Rightarrow> after_writes us k')"

end
