(* ===== verification/Driver_Theorems.thy ===== *)
theory Driver_Theorems
  imports Sample_Kernel
begin

text \<open>
  The properties of the character device, each with its instance on the kernel of
  \<open>Sample_Kernel\<close>.
\<close>

section \<open>Sample states\<close>

definition sample_lines :: "nat \<Rightarrow> byte list list" where
  "sample_lines n = map (\<lambda>i. replicate (Suc i) (CHR ''x'') @ [newline]) [0..<n]"

lemma loaded_init: "aesd_init_module (sample_kapi []) unloaded = (0, loaded)"
proof -
  have "fst (aesd_init_module (sample_kapi []) unloaded) = 0" by code_simp
  then show ?thesis by (simp add: loaded_def prod_eq_iff)
qed

lemma loaded_inv: "dev_inv loaded"
  using aesd_init_module_inv(1) [OF loaded_init _ surjective_pairing] by (simp add: unloaded_def)

lemma loaded_abs: "abs_dev loaded = \<lparr>cmds = [], pending = []\<rparr>"
  using aesd_init_module_inv(2) [OF loaded_init _ surjective_pairing] by (simp add: unloaded_def)

lemma opened_dev: "private_data opened = Some Aesd_device"
  by code_simp

lemma after_writes_inv:
  assumes "dev_inv k" and "\<forall>u \<in> set us. length u \<le> MAX_RW_COUNT"
  shows "dev_inv (after_writes us k)"
  using assms
proof (induction us arbitrary: k)
  case Nil
  then show ?case by simp
next
  case (Cons u us)
  have "unat (word_of_nat (length u) :: size_t) = length u"
    using Cons.prems(2) by (intro unat_of_nat64) (simp add: MAX_RW_COUNT_def)
  with Cons.prems obtain r pos k' where
    w: "aesd_write (sample_kapi u) opened 0 (word_of_nat (length u)) 0 k = Some (r, pos, k')"
      "written (sample_kapi u) 0 (word_of_nat (length u)) 0 k (r, pos, k')"
    using aesd_write_written [OF Cons.prems(1) sample_kapi_ok _ opened_dev,
        of "word_of_nat (length u)" u 0 0]
    by auto
  from w(2) have "dev_inv k'" using Cons.prems(1) by cases auto
  with Cons w(1) show ?case by simp
qed

definition sample_dev :: kernel where
  "sample_dev = after_writes [''ab'' @ [newline], ''c''] loaded"

lemma sample_dev_inv: "dev_inv sample_dev"
  unfolding sample_dev_def by (rule after_writes_inv [OF loaded_inv]) (simp add: MAX_RW_COUNT_def)

lemma sample_dev_abs: "abs_dev sample_dev = \<lparr>cmds = [''ab'' @ [newline]], pending = ''c''\<rparr>"
  by code_simp

section \<open>Writing\<close>

text \<open>
  (C2) Every outcome of a write.  From a state of the device invariant, for every count the VFS
  passes, \<open>aesd_write\<close> returns (no undefined behaviour) and keeps the invariant: an interrupted
  lock and a failed allocation change nothing, a failed copy drops the pending bytes, and
  otherwise the user's bytes are added to the pending ones, which become a command of the ring
  as soon as they hold a newline; the result is the count, or the size of the whole command.
\<close>

theorem aesd_write_refines:
  assumes "dev_inv k" and "kapi_ok K" and "unat count \<le> MAX_RW_COUNT"
    and "private_data filp = Some d"
  shows "\<exists>r pos' k'. aesd_write K filp buf count pos k = Some (r, pos', k') \<and> dev_inv k' \<and>
    (if lock_interrupted K then r = Inl ERESTARTSYS \<and> pos' = pos \<and> k' = k
     else if write_alloc K count (current_write_entry (aesd_device k)) (kheap k) = NULL
     then r = Inl ENOMEM \<and> pos' = pos \<and> k' = k
     else case copy_from_user K buf count of
         None \<Rightarrow> r = Inl EFAULT \<and> pos' = pos \<and> abs_dev k' = (abs_dev k)\<lparr>pending := []\<rparr>
       | Some bs \<Rightarrow> abs_dev k' = log_write bs (abs_dev k) \<and>
           (\<exists>n. r = Inr n \<and> pos' = pos + n \<and>
              unat n = (if newline \<in> set bs then length (pending (abs_dev k)) else 0) + length bs))"
proof -
  obtain r where "aesd_write K filp buf count pos k = Some r" and "written K buf count pos k r"
    using aesd_write_written [OF assms] by blast
  from this(2,1) show ?thesis
    using assms(1) by cases auto
qed

lemma sample_write_alloc: "write_alloc (sample_kapi u) 2 (current_write_entry (aesd_device sample_dev))
    (kheap sample_dev) = 2"
  by (simp add: write_alloc_def sample_kapi_def) code_simp

theorem aesd_write_refines_witness:
  "\<exists>r pos' k'. aesd_write (sample_kapi (''d'' @ [newline])) opened 0 2 7 sample_dev = Some (r, pos', k') \<and>
     dev_inv k' \<and> abs_dev k' = \<lparr>cmds = [''ab'' @ [newline], ''cd'' @ [newline]], pending = []\<rparr> \<and>
     (\<exists>n. r = Inr n \<and> pos' = 7 + n \<and> unat n = 3)"
proof -
  let ?K = "sample_kapi (''d'' @ [newline])"
  have "copy_from_user ?K 0 2 = Some (''d'' @ [newline])" and "\<not> lock_interrupted ?K"
    by (simp_all add: sample_kapi_def)
  then show ?thesis
    using aesd_write_refines [OF sample_dev_inv sample_kapi_ok _ opened_dev,
        of 2 "''d'' @ [newline]" 0 7]
    by (simp add: sample_dev_abs sample_write_alloc MAX_RW_COUNT_def log_write_def last_n_def
        numeral_3_eq_3)
qed

section \<open>Reading and seeking\<close>

text \<open>
  (C3) A read returns and changes no kernel state.  It fails with \<open>-ERESTARTSYS\<close> exactly when the
  lock is interrupted and otherwise only with \<open>-EFAULT\<close>, when the copy to the user fails; a
  success gives a prefix, of at most \<open>count\<close> bytes, of the contents after the position, empty
  only at the end or for a zero count, and advances the position by that many bytes.
\<close>

theorem aesd_read_refines:
  assumes "dev_inv k" and "private_data filp = Some d"
  shows "\<exists>r bs pos'. aesd_read K filp buf count pos k = Some (r, bs, pos', k) \<and>
    (r = Inl ERESTARTSYS \<longleftrightarrow> lock_interrupted K) \<and>
    (case r of
       Inl e \<Rightarrow> bs = [] \<and> pos' = pos \<and>
         (e = ERESTARTSYS \<or> e = EFAULT \<and> (\<exists>bs'. \<not> copy_to_user K buf bs'))
     | Inr n \<Rightarrow> unat n = length bs \<and> length bs \<le> unat count \<and>
         bs = take (length bs) (drop (unat pos) (log_contents (abs_dev k))) \<and>
         (bs = [] \<longleftrightarrow> count = 0 \<or> length (log_contents (abs_dev k)) \<le> unat pos) \<and>
         unat pos' = unat pos + length bs)"
proof -
  obtain r bs pos' where read: "aesd_read K filp buf count pos k = Some (r, bs, pos', k)"
    using read_total [OF assms] by blast
  show ?thesis
  proof (cases r)
    case (Inl e)
    with read have "(e = ERESTARTSYS \<longleftrightarrow> lock_interrupted K) \<and> bs = [] \<and> pos' = pos \<and>
        (e = ERESTARTSYS \<or> e = EFAULT \<and> (\<exists>bs'. \<not> copy_to_user K buf bs'))"
      by (auto simp: aesd_read_eq [OF assms] Let_def split: if_splits option.splits prod.splits)
    with read Inl show ?thesis by auto
  next
    case (Inr n)
    then have "\<not> lock_interrupted K" using read by (auto simp: aesd_read_eq [OF assms])
    with read Inr show ?thesis
      using aesd_read_bytes [OF assms, of K buf count pos n bs pos' k] by auto
  qed
qed

theorem aesd_read_refines_witness:
  "aesd_read (sample_kapi []) opened 0 2 1 sample_dev = Some (Inr 2, ''b'' @ [newline], 3, sample_dev) \<and>
   ''b'' @ [newline] = take 2 (drop 1 (log_contents (abs_dev sample_dev)))"
proof -
  have "map_option (\<lambda>(r, bs, pos, k). (r, bs, pos)) (aesd_read (sample_kapi []) opened 0 2 1 sample_dev) =
      Some (Inr 2, ''b'' @ [newline], 3)"
    by code_simp
  then show ?thesis
    using aesd_read_refines [OF sample_dev_inv opened_dev, of "sample_kapi []" 0 2 1]
    by (auto simp: sample_dev_abs log_contents_def)
qed

text \<open>
  \<open>aesd_llseek\<close> hands \<open>fixed_size_llseek\<close> exactly the number of bytes a reader can see, no
  overflow in the sum of the sizes, and changes the file position only.
\<close>

theorem aesd_llseek_size:
  assumes "dev_inv k" and "private_data filp = Some d"
  shows "unat (aesd_circular_buffer_size (buffer (aesd_device k))) = length (log_contents (abs_dev k)) \<and>
    aesd_llseek K filp offset whence k =
      (if lock_interrupted K then Some (Inl ERESTARTSYS, filp, k)
       else let (r, pos) = fixed_size_llseek K (f_pos filp) offset whence
              (word_of_nat (length (log_contents (abs_dev k)))) in
         Some (r, filp\<lparr>f_pos := pos\<rparr>, k))"
  using contents_bound [OF assms(1)] aesd_llseek_eq [OF assms]
  by (simp add: size_contents [OF assms(1)] unat_of_nat64)

theorem aesd_llseek_size_witness:
  "unat (aesd_circular_buffer_size (buffer (aesd_device sample_dev))) = 3 \<and>
   aesd_llseek (sample_kapi []) opened 2 0 sample_dev = Some (Inr 2, opened\<lparr>f_pos := 2\<rparr>, sample_dev)"
  using aesd_llseek_size [OF sample_dev_inv opened_dev, of "sample_kapi []" 2 0]
  by (simp add: sample_dev_abs log_contents_def sample_kapi_def)

text \<open>
  (C21) \<open>AESDCHAR_IOCSEEKTO\<close> in every state: it moves the file position to byte \<open>write_cmd_offset\<close> of the
  command in array slot \<open>write_cmd\<close>, counting the commands in the order of the array, and fails with
  \<open>-EINVAL\<close> and no change exactly when there is no such byte.  While the ring reads from slot 0,
  that is before it wraps, this is the command counted from the oldest.
\<close>

theorem aesd_ioctl_seekto_slots:
  assumes "dev_inv k" and "private_data filp = Some d" and "ioc_ok K"
    and "copy_seekto_from_user K arg = Some seekto" and "\<not> lock_interrupted K"
  shows "aesd_ioctl K filp (AESDCHAR_IOCSEEKTO K) arg k =
      (case log_seek (unat (write_cmd seekto)) (unat (write_cmd_offset seekto)) (slot_order k) of
         None \<Rightarrow> Some (Inl EINVAL, filp, k)
       | Some p \<Rightarrow> Some (Inr 0, filp\<lparr>f_pos := word_of_nat p\<rparr>, k)) \<and>
    (out_offs (buffer (aesd_device k)) = 0 \<longrightarrow> slot_order k = abs_dev k)"
  using aesd_ioctl_seekto_slot [OF assms] slot_order_unwrapped by blast

definition sample_ten :: kernel where
  "sample_ten = after_writes (sample_lines 10) loaded"

lemma sample_ten_inv: "dev_inv sample_ten"
  unfolding sample_ten_def
  by (rule after_writes_inv [OF loaded_inv]) (auto simp: sample_lines_def MAX_RW_COUNT_def)

theorem aesd_ioctl_seekto_slots_witness:
  "aesd_ioctl (sample_kapi []) opened (AESDCHAR_IOCSEEKTO (sample_kapi [])) 2001 sample_ten =
     Some (Inr 0, opened\<lparr>f_pos := 6\<rparr>, sample_ten)"
proof -
  have "log_seek 2 1 (slot_order sample_ten) = Some 6" by code_simp
  then show ?thesis
    using aesd_ioctl_seekto_slots [OF sample_ten_inv opened_dev sample_ioc_ok, of "[]" 2001]
    by (simp add: sample_kapi_def)
qed

text \<open>
  After the ring has wrapped the seek is wrong: the driver counts array slots, not commands.
  With eleven commands of 2 to 12 bytes written, the second oldest one starts at byte 3 of
  the contents, but \<open>AESDCHAR_IOCSEEKTO\<close> for command 1, offset 0 succeeds with position 12.
\<close>

theorem aesd_ioctl_seekto_wrong_after_wrap:
  "log_seek 1 0 (abs_dev (after_writes (sample_lines 11) loaded)) = Some 3 \<and>
   map_option (\<lambda>(r, f, k). (r, f_pos f))
     (aesd_ioctl (sample_kapi []) opened (AESDCHAR_IOCSEEKTO (sample_kapi [])) 1000
        (after_writes (sample_lines 11) loaded)) = Some (Inr 0, 12)"
  by code_simp

text \<open>
  Every other request is refused with \<open>-ENOTTY\<close> before the lock is taken, with no change: a
  wrong magic number, a command number above the maximum, or a number that is not
  \<open>AESDCHAR_IOCSEEKTO\<close>.
\<close>

theorem aesd_ioctl_unknown:
  assumes "cmd \<noteq> AESDCHAR_IOCSEEKTO K \<or> IOC_TYPE K cmd \<noteq> AESD_IOC_MAGIC \<or>
    IOC_NR K cmd > AESDCHAR_IOC_MAXNR"
  shows "aesd_ioctl K filp cmd arg k = Some (Inl ENOTTY, filp, k)"
  using assms by (auto simp: aesd_ioctl_def)

theorem aesd_ioctl_unknown_witness:
  "aesd_ioctl (sample_kapi []) opened 5 0 loaded = Some (Inl ENOTTY, opened, loaded)"
  by (rule aesd_ioctl_unknown) code_simp

section \<open>Loading and unloading\<close>

text \<open>
  Loading the module.  Success establishes the device invariant with an empty device, the
  cdev live and the device numbers held; failure reports the error of the call that failed,
  leaves no live cdev and, when the region had been allocated, gives it back.
\<close>

theorem aesd_init_module_establishes:
  assumes "kheap k = Map.empty" and "\<not> cdev_live k" and "alloc_chrdev_region K = (result, dev)"
    and "aesd_init_module K k = (r, k')"
  shows "if r = 0
    then dev_inv k' \<and> abs_dev k' = \<lparr>cmds = [], pending = []\<rparr> \<and> cdev_live k' \<and>
      region k' = Some dev \<and> aesd_major k' = MAJOR K dev \<and> 0 \<le> result \<and> cdev_add K = 0
    else \<not> cdev_live k' \<and> kheap k' = Map.empty \<and>
      (if result < 0 then r = result \<and> region k' = region k
       else r = cdev_add K \<and> region k' = unregister_chrdev_region K dev (Some dev))"
proof (cases "r = 0")
  case True
  have "0 \<le> result \<and> cdev_add K = 0"
    using assms(3,4) True
    by (auto simp: aesd_init_module_def aesd_setup_cdev_def Let_def split: if_splits)
  with True show ?thesis
    using aesd_init_module_inv [OF _ assms(1,3), of k'] assms(4) by simp
next
  case False
  with assms show ?thesis
    by (auto simp: aesd_init_module_def aesd_setup_cdev_def Let_def split: if_splits)
qed

theorem aesd_init_module_establishes_witness:
  "dev_inv loaded \<and> abs_dev loaded = \<lparr>cmds = [], pending = []\<rparr> \<and> cdev_live loaded \<and>
   region loaded = Some 160 \<and> aesd_major loaded = 10"
proof -
  have "alloc_chrdev_region (sample_kapi []) = (0, 160)" "MAJOR (sample_kapi []) 160 = 10"
    by (simp_all add: sample_kapi_def)
  then show ?thesis
    using aesd_init_module_establishes [OF _ _ _ loaded_init, of 0 160]
    by (simp add: unloaded_def)
qed

text \<open>
  (C28) Unloading the module frees every block of the ring exactly once, with no double free, and
  gives the device numbers back, but leaves the block of an incomplete command allocated: the
  memory left is exactly \<open>current_write_entry.buffptr\<close>'s.
\<close>

theorem aesd_cleanup_module_leaks_pending:
  assumes "dev_inv k"
  shows "\<exists>k'. aesd_cleanup_module K k = Some k' \<and> \<not> cdev_live k' \<and>
    kheap k' = kheap k |` {buffptr (current_write_entry (aesd_device k))} \<and>
    (kheap k' = Map.empty \<longleftrightarrow> buffptr (current_write_entry (aesd_device k)) = NULL) \<and>
    region k' = unregister_chrdev_region K (MKDEV K (aesd_major k) aesd_minor) (region k)"
proof -
  let ?p = "buffptr (current_write_entry (aesd_device k))"
  note owns = dev_invD(3) [OF assms]
  have p: "kheap k ?p = None \<longleftrightarrow> ?p = NULL"
    using heap_owns_NULL [OF owns] heap_owns_None_iff [OF owns, of ?p] by (auto simp: owned_def)
  have "kheap k |` {?p} = Map.empty \<longleftrightarrow> kheap k ?p = None"
    by (auto simp: fun_eq_iff restrict_map_def)
  with p show ?thesis
    using aesd_cleanup_module_heap [OF assms, of K] by auto
qed

theorem aesd_cleanup_module_leaks_pending_witness:
  "\<exists>k'. aesd_cleanup_module (sample_kapi []) sample_dev = Some k' \<and> kheap k' \<noteq> Map.empty"
proof -
  have "buffptr (current_write_entry (aesd_device sample_dev)) \<noteq> NULL" by code_simp
  then show ?thesis
    using aesd_cleanup_module_leaks_pending [OF sample_dev_inv, of "sample_kapi []"] by auto
qed

section \<open>The running driver\<close>

text \<open>
  (C4) In every state the loaded driver can reach, by any sequence of operations on any open
  files, the lock is free between operations and the kernel memory in use is exactly the
  blocks of the ring's entries and of the pending one: each is live, large enough for its
  recorded size, and owned once, so nothing leaks and nothing is freed twice.
\<close>

theorem reachable_memory_safe:
  assumes "reach driver_init driver_step s"
  shows "\<not> lock (aesd_device (kern s)) \<and> cbuf_inv (buffer (aesd_device (kern s))) \<and>
    dom (kheap (kern s)) = buffptr ` set (owned (aesd_device (kern s))) \<and>
    distinct (map buffptr (owned (aesd_device (kern s)))) \<and>
    (\<forall>e \<in> set (owned (aesd_device (kern s))).
       \<exists>bs. kheap (kern s) (buffptr e) = Some bs \<and> length bs = unat (esize e))"
proof -
  have inv: "dev_inv (kern s)" using drv.reach_inv [OF assms] by (simp add: dsys_inv_def)
  show ?thesis
    using dev_invD(1-3) [OF inv] by (auto simp: heap_owns_def live_entry_def)
qed

definition sample_sys :: dsys where
  "sample_sys = \<lparr>kern = loaded, files = Map.empty\<rparr>"

lemma sample_sys_init: "driver_init sample_sys"
  unfolding driver_init_def sample_sys_def
  by (auto simp: unloaded_def intro!: exI [of _ "sample_kapi []"] exI [of _ unloaded] loaded_init)

definition sample_opened :: dsys where
  "sample_opened = sample_sys\<lparr>files := [3 \<mapsto> opened]\<rparr>"

lemma sample_open_step: "driver_step sample_sys (D_open 3) sample_opened"
  using d_open [of sample_sys 3 opened]
  by (simp add: sample_opened_def opened_def aesd_fops_def aesd_open_def) (simp add: sample_sys_def)

definition sample_line :: "byte list" where
  "sample_line = ''hello'' @ [newline]"

definition sample_written :: dsys where
  "sample_written = sample_opened\<lparr>kern := after_writes [sample_line] loaded,
     files := [3 \<mapsto> opened\<lparr>f_pos := 6\<rparr>]\<rparr>"

lemma sample_write_step:
  "driver_step sample_opened (D_write 3 (Some sample_line) (Inr 6)) sample_written"
proof -
  let ?K = "sample_kapi sample_line"
  have "map_option (\<lambda>(r, pos, k). (r, pos)) (aesd_write ?K opened 0 6 0 loaded) = Some (Inr 6, 6)"
    by code_simp
  then obtain k where w: "aesd_write ?K opened 0 6 0 loaded = Some (Inr 6, 6, k)" by auto
  then have k: "k = after_writes [sample_line] loaded" by (simp add: sample_line_def)
  have "copy_from_user ?K 0 6 = Some sample_line" by (simp add: sample_kapi_def sample_line_def)
  moreover have "f_pos opened = 0" by code_simp
  ultimately show ?thesis
    using d_write [of sample_opened 3 opened ?K 6 0 "Inr 6" 6 k] w k
    by (simp add: sample_opened_def sample_sys_def sample_written_def aesd_fops_def sample_kapi_ok
        MAX_RW_COUNT_def)
qed

lemma sample_run:
  "driver_run sample_sys [D_open 3, D_write 3 (Some sample_line) (Inr 6)] sample_written"
  using run_snoc [OF run_snoc [OF run_nil sample_open_step] sample_write_step] by simp

theorem reachable_memory_safe_witness:
  "reach driver_init driver_step sample_written \<and>
   dom (kheap (kern sample_written)) = buffptr ` set (owned (aesd_device (kern sample_written)))"
  using reachable_memory_safe [OF driver_run_reach [OF sample_run sample_sys_init]]
    driver_run_reach [OF sample_run sample_sys_init]
  by blast

text \<open>
  (C20) No operation is stuck: in every reachable state and on every open file, reading, writing,
  seeking and the ioctl return a result, so there is neither undefined behaviour nor a
  deadlock on the device lock.
\<close>

theorem reachable_operations_return:
  assumes "reach driver_init driver_step s" and "files s fd = Some f" and "kapi_ok K"
    and "unat count \<le> MAX_RW_COUNT"
  shows "fop_read aesd_fops K f buf count (f_pos f) (kern s) \<noteq> None \<and>
    fop_write aesd_fops K f buf count (f_pos f) (kern s) \<noteq> None \<and>
    fop_llseek aesd_fops K f offset whence (kern s) \<noteq> None \<and>
    fop_unlocked_ioctl aesd_fops K f cmd arg (kern s) \<noteq> None"
proof -
  have inv: "dev_inv (kern s)" and f: "private_data f = Some Aesd_device"
    using drv.reach_inv [OF assms(1)] assms(2) by (auto simp: dsys_inv_def)
  have "aesd_read K f buf count (f_pos f) (kern s) \<noteq> None"
    using read_total [OF inv f, of K buf count "f_pos f"] by auto
  moreover have "aesd_write K f buf count (f_pos f) (kern s) \<noteq> None"
    using aesd_write_written [OF inv assms(3,4) f, of buf "f_pos f"] by auto
  moreover have "aesd_llseek K f offset whence (kern s) \<noteq> None"
    by (simp add: aesd_llseek_eq [OF inv f] Let_def split_def)
  moreover have "aesd_ioctl K f cmd arg (kern s) \<noteq> None"
    using aesd_ioctl_frame [OF inv f, of K cmd arg] by (auto split: option.splits)
  ultimately show ?thesis by (simp add: aesd_fops_def)
qed

theorem reachable_operations_return_witness:
  "fop_write aesd_fops (sample_kapi sample_line) (opened\<lparr>f_pos := 6\<rparr>) 0 6 6 (kern sample_written) \<noteq> None"
  using reachable_operations_return [OF driver_run_reach [OF sample_run sample_sys_init],
      where K = "sample_kapi sample_line" and fd = 3 and f = "opened\<lparr>f_pos := 6\<rparr>" and count = 6 and buf = 0]
  by (simp add: sample_written_def sample_kapi_ok MAX_RW_COUNT_def)

text \<open>
  (C1) From loading on, whatever operations are run, the commands a reader sees are the last ten
  of all commands ever completed, and the pending bytes are those of the accepted writes since then
  (\<open>history_effect\<close>).  A write with a newline completes one command of the pending bytes and all of its
  own, those behind the newline included; one without adds its bytes to the pending ones; one whose
  copy fails drops them.
\<close>

theorem device_keeps_last_ten_commands:
  assumes "driver_init s" and "driver_run s ls t"
  shows "case fold history_effect ls ([], []) of (all, p) \<Rightarrow>
    abs_dev (kern t) = \<lparr>cmds = last_n 10 all, pending = p\<rparr>"
  using driver_run_history [OF assms] by (simp add: split_def)

theorem device_keeps_last_ten_commands_witness:
  "abs_dev (kern sample_written) = \<lparr>cmds = [sample_line], pending = []\<rparr>"
  using device_keeps_last_ten_commands [OF sample_sys_init sample_run]
  by (simp add: sample_line_def last_n_def)

text \<open>
  Each single step of the driver is a step of the abstract device: only an accepted write and
  a write whose copy failed change it, every other operation leaves it as it is.
\<close>

theorem driver_step_refines:
  assumes "reach driver_init driver_step s" and "driver_step s l t"
  shows "abs_dev (kern t) = log_effect l (abs_dev (kern s))"
  using driver_step_simulates [OF drv.reach_inv [OF assms(1)] assms(2)] by simp

theorem driver_step_refines_witness:
  "abs_dev (kern sample_written) = log_write sample_line (abs_dev (kern sample_opened))"
  using driver_step_refines [OF _ sample_write_step]
    driver_run_reach [OF run_snoc [OF run_nil sample_open_step] sample_sys_init]
  by simp

end
