(* ===== verification/Lock_Discipline.thy ===== *)
theory Lock_Discipline
  imports Aesd_Prelude
begin

text \<open>
  Threads that share an object guarded by one lock.  The code of a call is a list of instructions, its
  lock and unlock operations among them; any number of threads run calls at once, and between two
  instructions of one thread any others may run.  Nothing but the code makes a thread take the lock:
  a call whose code has no lock operation runs without it.  The theory shows for such a system, under
  the contract \<open>guarded_object\<close>, that only one thread is past its lock operation, that the calls take
  effect one after the other in the order in which they complete, with the results they have when run
  alone, and that some thread can always go on.
\<close>

section \<open>Objects and threads\<close>

text \<open>
  A step works on the thread's local data and the shared state; \<open>None\<close> is undefined behaviour.
  \<open>Guard g\<close> looks at the local data only and tells whether the call returns here; \<open>Acquire\<close> has no
  step while the lock is held; \<open>Release\<close> of a free lock is undefined.
\<close>

type_synonym ('l, 's) micro = "'l \<times> 's \<Rightarrow> ('l \<times> 's) option"

datatype ('l, 's) instr =
    Guard "'l \<Rightarrow> bool \<times> 'l"
  | Acquire
  | Run "('l, 's) micro"
  | Release

record ('r, 'l, 's) guarded =
  held :: "'s \<Rightarrow> bool"
  set_held :: "bool \<Rightarrow> 's \<Rightarrow> 's"
  start :: "'r \<Rightarrow> 'l"
  code :: "'r \<Rightarrow> ('l, 's) instr list"

fun exec :: "('r, 'l, 's) guarded \<Rightarrow> ('l, 's) instr \<Rightarrow> 'l \<times> 's \<Rightarrow> (bool \<times> 'l \<times> 's) option" where
  "exec G (Guard g) (l, s) = Some (fst (g l), snd (g l), s)"
| "exec G Acquire (l, s) = (if held G s then None else Some (False, l, set_held G True s))"
| "exec G (Run f) (l, s) = map_option (\<lambda>y. (False, y)) (f (l, s))"
| "exec G Release (l, s) = (if held G s then Some (False, l, set_held G False s) else None)"

fun run_code :: "('r, 'l, 's) guarded \<Rightarrow> ('l, 's) instr list \<Rightarrow> ('l, 's) micro" where
  "run_code G [] x = Some x"
| "run_code G (i # is) x = do { (returns, y) \<leftarrow> exec G i x; if returns then Some y else run_code G is y }"

text \<open>A call that nobody interrupts.\<close>

definition atomic_call :: "('r, 'l, 's) guarded \<Rightarrow> 'r \<Rightarrow> 's \<Rightarrow> ('l \<times> 's) option" where
  "atomic_call G r s = run_code G (code G r) (start G r, s)"

fun sequential :: "('r, 'l, 's) guarded \<Rightarrow> 's \<Rightarrow> ('r \<times> 'l) list \<Rightarrow> 's \<Rightarrow> bool" where
  "sequential G s [] t \<longleftrightarrow> s = t"
| "sequential G s ((r, l) # calls) t \<longleftrightarrow> (\<exists>u. atomic_call G r s = Some (l, u) \<and> sequential G u calls t)"

text \<open>\<open>Running r is l\<close>: the instructions \<open>is\<close> of the call \<open>r\<close> are still to be executed.\<close>

datatype ('r, 'l, 's) tstate = Idle | Running 'r "('l, 's) instr list" 'l

record ('r, 'l, 's) tsys =
  shared :: 's
  tstates :: "nat \<Rightarrow> ('r, 'l, 's) tstate"
  completed :: "('r \<times> 'l) list"

text \<open>
  A call is past its lock operation when none is ahead of it, so a call without one is from its
  beginning; it is at the shared state when its next instruction works on it.
\<close>

fun is_acquire :: "('l, 's) instr \<Rightarrow> bool" where
  "is_acquire Acquire \<longleftrightarrow> True"
| "is_acquire _ \<longleftrightarrow> False"

fun critical :: "('r, 'l, 's) tstate \<Rightarrow> bool" where
  "critical (Running r is l) \<longleftrightarrow> \<not> list_ex is_acquire is"
| "critical Idle \<longleftrightarrow> False"

fun touches :: "('r, 'l, 's) tstate \<Rightarrow> bool" where
  "touches (Running r (Run f # is) l) \<longleftrightarrow> True"
| "touches _ \<longleftrightarrow> False"

datatype 'r tlabel = T_call nat 'r | T_step nat

inductive thread_step ::
  "('r, 'l, 's) guarded \<Rightarrow> ('r \<Rightarrow> bool) \<Rightarrow> ('r, 'l, 's) tsys \<Rightarrow> 'r tlabel \<Rightarrow> ('r, 'l, 's) tsys \<Rightarrow> bool"
  for G ok
where
  t_call: "tstates S t = Idle \<Longrightarrow> ok r \<Longrightarrow>
    thread_step G ok S (T_call t r) (S\<lparr>tstates := (tstates S)(t := Running r (code G r) (start G r))\<rparr>)"
| t_next: "tstates S t = Running r (i # is) l \<Longrightarrow> exec G i (l, shared S) = Some (False, l', s') \<Longrightarrow> is \<noteq> [] \<Longrightarrow>
    thread_step G ok S (T_step t) (S\<lparr>shared := s', tstates := (tstates S)(t := Running r is l')\<rparr>)"
| t_return: "tstates S t = Running r (i # is) l \<Longrightarrow> exec G i (l, shared S) = Some (returns, l', s') \<Longrightarrow>
    returns \<or> is = [] \<Longrightarrow>
    thread_step G ok S (T_step t)
      (S\<lparr>shared := s', tstates := (tstates S)(t := Idle), completed := completed S @ [(r, l')]\<rparr>)"

definition threads_init :: "'s \<Rightarrow> ('r, 'l, 's) tsys \<Rightarrow> bool" where
  "threads_init s S \<longleftrightarrow> shared S = s \<and> tstates S = (\<lambda>t. Idle) \<and> completed S = []"

text \<open>Steps on the shared state run in a row.\<close>

fun run_micros :: "('l, 's) micro list \<Rightarrow> ('l, 's) micro" where
  "run_micros [] x = Some x"
| "run_micros (f # fs) x = do { y \<leftarrow> f x; run_micros fs y }"

lemma run_micros_append:
  "run_micros (fs @ gs) x = do { y \<leftarrow> run_micros fs x; run_micros gs y }"
proof (induction fs arbitrary: x)
  case (Cons f fs)
  then show ?case by (cases "f x") simp_all
qed simp

lemma run_code_runs:
  "run_code G (map Run fs @ is) x = do { y \<leftarrow> run_micros fs x; run_code G is y }"
proof (induction fs arbitrary: x)
  case (Cons f fs)
  then show ?case by (cases x) (cases "f x", simp_all)
qed simp

lemma run_micros_keep:
  assumes "run_micros fs (l, s) = Some (l', s')"
    and "\<And>f l s l' s'. f \<in> set fs \<Longrightarrow> f (l, s) = Some (l', s') \<Longrightarrow> h s' = h s"
  shows "h s' = h s"
  using assms
proof (induction fs arbitrary: l s)
  case (Cons f fs)
  then obtain l1 s1 where f: "f (l, s) = Some (l1, s1)" "run_micros fs (l1, s1) = Some (l', s')"
    by (auto split: Option.bind_splits)
  have "h s' = h s1" by (rule Cons.IH [OF f(2)]) (rule Cons.prems(2) [OF list.set_intros(2)], assumption+)
  also have "\<dots> = h s" using Cons.prems(2) [OF list.set_intros(1) f(1)] .
  finally show ?case .
qed simp

lemma atomic_call_locked:
  assumes "code G r = Guard g # Acquire # map Run fs @ [Release]" and "g (start G r) = (False, l)"
    and "\<not> held G s" and "\<And>l' s'. run_micros fs (l, set_held G True s) = Some (l', s') \<Longrightarrow> held G s'"
  shows "atomic_call G r s = do { (l', s') \<leftarrow> run_micros fs (l, set_held G True s); Some (l', set_held G False s') }"
  using assms by (auto simp: atomic_call_def run_code_runs split: Option.bind_splits)

lemma sequential_append:
  "sequential G s (xs @ ys) t \<longleftrightarrow> (\<exists>u. sequential G s xs u \<and> sequential G u ys t)"
proof (induction xs arbitrary: s)
  case (Cons c xs)
  then show ?case by (cases c) (simp, blast)
qed simp

lemma sequential_snoc:
  "sequential G s calls t \<Longrightarrow> atomic_call G r t = Some (l, u) \<Longrightarrow> sequential G s (calls @ [(r, l)]) u"
  by (auto simp: sequential_append)

lemma reach_ok:
  assumes "reach (threads_init s0) (thread_step G ok) S"
  shows "(\<forall>t r is l. tstates S t = Running r is l \<longrightarrow> ok r) \<and> (\<forall>c \<in> set (completed S). ok (fst c))"
  using assms
proof (induction rule: reach.induct)
  case (reach_step S x S')
  from reach_step(2) show ?case
    using reach_step(3) by cases (auto split: if_splits; metis)+
qed (simp add: threads_init_def)

lemmas reach_completed_ok = reach_ok [THEN conjunct2]

text \<open>A thread may run several of its instructions in a row, to the end of its call or not.\<close>

lemma reach_next:
  assumes "reach init (thread_step G ok) S" and "tstates S t = Running r (i # is) l"
    and "exec G i (l, shared S) = Some (False, l', s')" and "is \<noteq> []"
  shows "reach init (thread_step G ok) (S\<lparr>shared := s', tstates := (tstates S)(t := Running r is l')\<rparr>)"
  using reach_step [OF assms(1) t_next [OF assms(2-4)]] .

lemma reach_return:
  assumes "reach init (thread_step G ok) S" and "tstates S t = Running r is l"
    and "run_code G is (l, shared S) = Some (l', s')" and "is \<noteq> []"
  shows "reach init (thread_step G ok)
    (S\<lparr>shared := s', tstates := (tstates S)(t := Idle), completed := completed S @ [(r, l')]\<rparr>)"
  using assms
proof (induction "is" arbitrary: S l)
  case (Cons i "is")
  then obtain returns l1 s1 where i: "exec G i (l, shared S) = Some (returns, l1, s1)"
      and rest: "(if returns then Some (l1, s1) else run_code G is (l1, s1)) = Some (l', s')"
    by (auto split: Option.bind_splits)
  show ?case
  proof (cases "returns \<or> is = []")
    case True
    then have "l1 = l'" "s1 = s'" using rest by (auto split: if_splits)
    with reach_step [OF Cons.prems(1) t_return [OF Cons.prems(2) i True]] show ?thesis by (simp only:)
  next
    case False
    let ?S = "S\<lparr>shared := s1, tstates := (tstates S)(t := Running r is l1)\<rparr>"
    have "reach init (thread_step G ok) ?S" using reach_next [OF Cons.prems(1,2)] i False by simp
    from Cons.IH [OF this, of l1] rest False show ?thesis by (simp add: fun_upd_same del: fun_upd_apply)
  qed
qed simp

lemma reach_call:
  assumes "reach init (thread_step G ok) S" and "tstates S t = Idle" and "ok r"
  shows "reach init (thread_step G ok) (S\<lparr>tstates := (tstates S)(t := Running r (code G r) (start G r))\<rparr>)"
  by (rule reach_step [OF assms(1)], rule t_call [where r = r]) (use assms in simp_all)

section \<open>The contract\<close>

text \<open>
  Code that keeps the lock's discipline: nothing before the lock operation works on the shared state
  or leaves the lock taken, nothing after it returns early, and the unlock operation comes last.
\<close>

fun inside_code :: "('l, 's) instr list \<Rightarrow> bool" where
  "inside_code (Run f # is) \<longleftrightarrow> inside_code is"
| "inside_code (Release # is) \<longleftrightarrow> is = []"
| "inside_code _ \<longleftrightarrow> False"

fun locked_code :: "('l, 's) instr list \<Rightarrow> bool" where
  "locked_code (Guard g # is) \<longleftrightarrow> locked_code is"
| "locked_code (Acquire # is) \<longleftrightarrow> inside_code is"
| "locked_code _ \<longleftrightarrow> False"

lemma inside_code_acquire: "inside_code is \<Longrightarrow> \<not> list_ex is_acquire is"
  by (induction "is" rule: inside_code.induct) auto

lemma locked_code_acquire: "locked_code is \<Longrightarrow> list_ex is_acquire is"
  by (induction "is" rule: locked_code.induct) auto

lemma code_not_Nil: "inside_code is \<or> locked_code is \<Longrightarrow> is \<noteq> []"
  by auto

text \<open>
  \<open>inv\<close> holds of the shared state while nobody is past a lock operation.  Small steps leave the lock
  alone, and a call by itself, started from \<open>inv\<close>, runs to its end and restores it.
\<close>

locale guarded_object =
  fixes G :: "('r, 'l, 's) guarded"
    and inv :: "'s \<Rightarrow> bool"
    and ok :: "'r \<Rightarrow> bool"
  assumes held_set: "held G (set_held G b s) = b"
    and discipline: "ok r \<Longrightarrow> locked_code (code G r)"
    and run_keeps: "Run f \<in> set (code G r) \<Longrightarrow> f (l, s) = Some (l', s') \<Longrightarrow> held G s' = held G s"
    and inv_free: "inv s \<Longrightarrow> \<not> held G s"
    and call_runs: "ok r \<Longrightarrow> inv s \<Longrightarrow> \<exists>l s'. atomic_call G r s = Some (l, s') \<and> inv s'"
begin

text \<open>
  A thread before its lock operation has yet to do all of its call, whatever the shared state is by
  then.  The thread past it does, from the state it sees, what the rest of its call would do when run
  alone from a state \<open>a\<close> that the completed calls lead to; without one, the shared state is \<open>a\<close>.
\<close>

definition outside where
  "outside c \<longleftrightarrow> (\<forall>r is l. c = Running r is l \<longrightarrow> \<not> critical c \<longrightarrow>
     ok r \<and> locked_code is \<and> set is \<subseteq> set (code G r) \<and> (\<forall>s. run_code G is (l, s) = atomic_call G r s))"

definition in_section where
  "in_section a S t \<longleftrightarrow> (\<exists>r is l. tstates S t = Running r is l \<and> ok r \<and> inside_code is \<and>
     set is \<subseteq> set (code G r) \<and> held G (shared S) \<and> run_code G is (l, shared S) = atomic_call G r a)"

definition linearized where
  "linearized s0 S \<longleftrightarrow> (\<exists>a. sequential G s0 (completed S) a \<and> inv a \<and>
     ((\<forall>t. \<not> critical (tstates S t)) \<and> shared S = a \<or>
      (\<exists>t. in_section a S t \<and> (\<forall>u. u \<noteq> t \<longrightarrow> \<not> critical (tstates S u))))) \<and>
     (\<forall>t. outside (tstates S t))"

lemma in_section_critical: "in_section a S t \<Longrightarrow> critical (tstates S t)"
  by (auto simp: in_section_def dest: inside_code_acquire)

lemma linearized_cases:
  assumes "linearized s0 S"
  obtains (free) "sequential G s0 (completed S) (shared S)" "inv (shared S)" "\<And>t. \<not> critical (tstates S t)"
    | (busy) a t where "sequential G s0 (completed S) a" "inv a" "in_section a S t"
      "\<And>u. u \<noteq> t \<Longrightarrow> \<not> critical (tstates S u)" "critical (tstates S t)"
  using assms unfolding linearized_def using free busy in_section_critical by metis

lemma linearized_outside: "linearized s0 S \<Longrightarrow> outside (tstates S t)"
  by (auto simp: linearized_def)

lemma linearized_free:
  assumes "sequential G s0 (completed S) (shared S)" and "inv (shared S)" and "\<And>t. \<not> critical (tstates S t)"
    and "\<And>t. outside (tstates S t)"
  shows "linearized s0 S"
  using assms by (auto simp: linearized_def)

lemma linearized_busy:
  assumes "sequential G s0 (completed S) a" and "inv a" and "in_section a S t"
    and "\<And>u. u \<noteq> t \<Longrightarrow> \<not> critical (tstates S u)" and "\<And>t. outside (tstates S t)"
  shows "linearized s0 S"
  using assms unfolding linearized_def by blast

text \<open>A thread stays outside its section: nobody else notices.\<close>

lemma linearized_aside:
  assumes "linearized s0 S" and "\<not> critical (tstates S t)" and "\<not> critical c" and "outside c"
    and "\<And>a. sequential G s0 (completed S) a \<Longrightarrow> sequential G s0 calls a"
  shows "linearized s0 (S\<lparr>tstates := (tstates S)(t := c), completed := calls\<rparr>)" (is "linearized s0 ?S")
  using assms(1)
proof (cases rule: linearized_cases)
  case free
  then show ?thesis
    using assms linearized_outside [OF assms(1)] by (intro linearized_free) auto
next
  case (busy a u)
  then have "u \<noteq> t" using assms(2) by auto
  then have "in_section a ?S u" using busy(3) by (simp add: in_section_def)
  with busy show ?thesis
    using assms(3-5) linearized_outside [OF assms(1)]
    by (intro linearized_busy [where a = a and t = u]) auto
qed

lemma linearized_call:
  assumes "linearized s0 S" and "tstates S t = Idle" and "ok r"
  shows "linearized s0 (S\<lparr>tstates := (tstates S)(t := Running r (code G r) (start G r))\<rparr>)"
  using linearized_aside [OF assms(1), of t "Running r (code G r) (start G r)" "completed S"] assms(2,3)
    locked_code_acquire [OF discipline [OF assms(3)]]
  by (simp add: outside_def discipline atomic_call_def)

text \<open>A thread before its lock operation goes on to it, returns early, or takes the lock.\<close>

lemma linearized_guard:
  assumes "linearized s0 S" and "tstates S t = Running r (i # is) l" and "\<not> critical (tstates S t)"
    and "exec G i (l, shared S) = Some (returns, l', s')"
  shows "linearized s0 (if returns \<or> is = []
      then S\<lparr>shared := s', tstates := (tstates S)(t := Idle), completed := completed S @ [(r, l')]\<rparr>
      else S\<lparr>shared := s', tstates := (tstates S)(t := Running r is l')\<rparr>)"
proof -
  have out: "ok r" "locked_code (i # is)" "set (i # is) \<subseteq> set (code G r)"
      "\<And>s. run_code G (i # is) (l, s) = atomic_call G r s"
    using linearized_outside [OF assms(1), of t] assms(2,3) unfolding outside_def by blast+
  show ?thesis
  proof (cases i)
    case (Guard g)
    with assms(4) have g: "g l = (returns, l')" "s' = shared S" by (auto simp: prod_eq_iff)
    have "locked_code is" using out(2) Guard by simp
    note is_ok = this code_not_Nil [OF disjI2 [OF this]] locked_code_acquire [OF this]
    show ?thesis
    proof (cases returns)
      case True
      then have "atomic_call G r a = Some (l', a)" for a using out(4) [of a] Guard g by simp
      then show ?thesis
        using linearized_aside [OF assms(1,3), of Idle "completed S @ [(r, l')]"] True g
        by (auto simp: outside_def intro: sequential_snoc)
    next
      case False
      then have "run_code G is (l', s) = atomic_call G r s" for s using out(4) [of s] Guard g by simp
      then have "outside (Running r is l')" using out is_ok by (simp add: outside_def)
      then show ?thesis
        using linearized_aside [OF assms(1,3), of "Running r is l'" "completed S"] False g is_ok by simp
    qed
  next
    case Acquire
    then have lock: "\<not> held G (shared S)" "\<not> returns" "l' = l" "s' = set_held G True (shared S)"
      using assms(4) by (auto split: if_splits)
    have "inside_code is" using out(2) Acquire by simp
    note is_ok = this code_not_Nil [OF disjI1 [OF this]] inside_code_acquire [OF this]
    let ?S = "S\<lparr>shared := s', tstates := (tstates S)(t := Running r is l')\<rparr>"
    from assms(1) have "linearized s0 ?S"
    proof (cases rule: linearized_cases)
      case free
      have "in_section (shared S) ?S t"
        using out(1,3) out(4) [of "shared S"] is_ok lock Acquire by (simp add: in_section_def held_set)
      with free linearized_outside [OF assms(1)] is_ok show ?thesis
        by (intro linearized_busy [where a = "shared S" and t = t]) (auto simp: outside_def)
    next
      case (busy a u)
      with lock(1) show ?thesis by (auto simp: in_section_def)
    qed
    with lock(2) is_ok show ?thesis by simp
  qed (use out(2) in simp_all)
qed

text \<open>The thread past its lock operation works on the shared state, or unlocks and returns.\<close>

lemma linearized_section:
  assumes "linearized s0 S" and "tstates S t = Running r (i # is) l" and "critical (tstates S t)"
    and "exec G i (l, shared S) = Some (returns, l', s')"
  shows "linearized s0 (if returns \<or> is = []
      then S\<lparr>shared := s', tstates := (tstates S)(t := Idle), completed := completed S @ [(r, l')]\<rparr>
      else S\<lparr>shared := s', tstates := (tstates S)(t := Running r is l')\<rparr>)"
  using assms(1)
proof (cases rule: linearized_cases)
  case free
  with assms(3) show ?thesis by blast
next
  case (busy a u)
  have "u = t" using busy(4) [of t] assms(3) by blast
  with busy(3) assms(2) have sec: "ok r" "inside_code (i # is)" "set (i # is) \<subseteq> set (code G r)"
      "held G (shared S)" "run_code G (i # is) (l, shared S) = atomic_call G r a"
    by (auto simp: in_section_def)
  note others = busy(1,2,4) linearized_outside [OF assms(1)] \<open>u = t\<close>
  show ?thesis
  proof (cases i)
    case (Run f)
    with assms(4) have f: "f (l, shared S) = Some (l', s')" "\<not> returns" by auto
    have "inside_code is" using sec(2) Run by simp
    note is_ok = this code_not_Nil [OF disjI1 [OF this]] inside_code_acquire [OF this]
    have "in_section a (S\<lparr>shared := s', tstates := (tstates S)(t := Running r is l')\<rparr>) t"
      using sec is_ok f run_keeps [of f r l "shared S" l' s'] Run by (simp add: in_section_def)
    with others f(2) is_ok show ?thesis
      by (auto simp: outside_def intro!: linearized_busy [where a = a and t = t])
  next
    case Release
    with assms(4) sec have rel: "is = []" "l' = l" "s' = set_held G False (shared S)"
        "atomic_call G r a = Some (l, s')"
      by (auto split: if_splits)
    then have "inv s'" using call_runs [OF sec(1) busy(2)] by auto
    with others rel show ?thesis
      by (auto simp: outside_def intro!: linearized_free intro: sequential_snoc split: if_splits)
  qed (use sec(2) in simp_all)
qed

lemma linearized_step:
  assumes "linearized s0 S" and "thread_step G ok S x S'"
  shows "linearized s0 S'"
  using assms(2)
proof cases
  case (t_call t r)
  then show ?thesis using linearized_call [OF assms(1)] by simp
next
  case (t_next t r i "is" l l' s')
  then show ?thesis
    using linearized_guard [OF assms(1) t_next(3) _ t_next(4)] linearized_section [OF assms(1) t_next(3) _ t_next(4)]
    by (cases "critical (tstates S t)") simp_all
next
  case (t_return t r i "is" l returns l' s')
  then show ?thesis
    using linearized_guard [OF assms(1) t_return(3) _ t_return(4)]
      linearized_section [OF assms(1) t_return(3) _ t_return(4)]
    by (cases "critical (tstates S t)") simp_all
qed

lemma reach_linearized:
  assumes "reach (threads_init s0) (thread_step G ok) S" and "inv s0"
  shows "linearized s0 S"
  using assms(1)
proof (induction rule: reach.induct)
  case (reach_init S)
  then show ?case using assms(2) by (intro linearized_free) (auto simp: threads_init_def outside_def)
next
  case (reach_step S x S')
  then show ?case by (blast intro: linearized_step)
qed

text \<open>Only the thread past its lock operation, which holds the lock, is at the shared state.\<close>

lemma touches_critical:
  assumes "linearized s0 S" and "touches (tstates S t)"
  shows "critical (tstates S t)"
proof -
  obtain r f "is" l where t: "tstates S t = Running r (Run f # is) l"
    using assms(2) by (elim touches.elims) simp
  with linearized_outside [OF assms(1), of t] show ?thesis unfolding outside_def by force
qed

lemma critical_held:
  assumes "linearized s0 S" and "critical (tstates S t)"
  shows "held G (shared S)"
  using assms(1) by (cases rule: linearized_cases) (use assms(2) in \<open>auto simp: in_section_def\<close>)

text \<open>Whoever is in a section can go on, and whoever waits can when nobody is.\<close>

lemma thread_goes_on:
  assumes "tstates S t = Running r is l" and "run_code G is (l, shared S) \<noteq> None" and "is \<noteq> []"
  shows "\<exists>S'. thread_step G ok S (T_step t) S'"
proof -
  obtain i js where ijs: "is = i # js" using assms(3) by (cases "is") auto
  then obtain returns l' s' where e: "exec G i (l, shared S) = Some (returns, l', s')"
    using assms(2) by (auto split: Option.bind_splits)
  show ?thesis
  proof (cases "returns \<or> js = []")
    case True
    from t_return [OF assms(1) [unfolded ijs] e True] show ?thesis by blast
  next
    case False
    with e have "exec G i (l, shared S) = Some (False, l', s')" by simp
    from t_next [OF assms(1) [unfolded ijs] this] False show ?thesis by blast
  qed
qed

lemma section_goes_on:
  assumes "inv a" and "in_section a S t"
  shows "\<exists>S'. thread_step G ok S (T_step t) S'"
  using assms(2) call_runs [OF _ assms(1)] thread_goes_on [of S t] code_not_Nil
  unfolding in_section_def by (metis option.distinct(1))

lemma waiting_goes_on:
  assumes "inv (shared S)" and "outside (tstates S t)" and "tstates S t \<noteq> Idle" and "\<not> critical (tstates S t)"
  shows "\<exists>S'. thread_step G ok S (T_step t) S'"
proof -
  obtain r "is" l where t: "tstates S t = Running r is l" using assms(3) by (cases "tstates S t") auto
  with assms(2,4) have "ok r" "locked_code is" "run_code G is (l, shared S) = atomic_call G r (shared S)"
    unfolding outside_def by blast+
  with call_runs [of r, OF _ assms(1)] thread_goes_on [OF t] code_not_Nil show ?thesis by force
qed

lemma not_stuck:
  assumes "linearized s0 S" and "tstates S t \<noteq> Idle"
  shows "\<exists>u S'. thread_step G ok S (T_step u) S'"
  using assms(1)
proof (cases rule: linearized_cases)
  case free
  with waiting_goes_on linearized_outside [OF assms(1)] assms(2) show ?thesis by blast
next
  case (busy a u)
  with section_goes_on show ?thesis by blast
qed

end

end
