(* ===== verification/Driver_Threads.thy ===== *)
theory Driver_Threads
  imports Driver_Theorems Lock_Discipline
begin

text \<open>
  The file operations of \<open>main.c\<close> run by any number of threads at once.  Each operation is a list of
  instructions: its early returns, \<open>mutex_lock_interruptible\<close>, the groups of statements that work on
  the device, and \<open>mutex_unlock\<close>, where the source has them; the instructions of different threads
  interleave.  Between two of them the device's invariant is broken: a block belongs to the ring and
  to the pending entry at once, or has no size yet.  The theory shows that run by themselves the
  instructions are the operations of \<open>Char_Driver\<close>, and that they satisfy the contract of
  \<open>Lock_Discipline\<close>.
\<close>

section \<open>Calls and their small steps\<close>

text \<open>A call of the VFS: the kernel's behaviour during the call, the file, and the arguments.\<close>

datatype dcall =
    C_read kapi kfile ptr size_t loff_t
  | C_write kapi kfile ptr size_t loff_t
  | C_llseek kapi kfile loff_t int
  | C_ioctl kapi kfile uint32_t ptr

text \<open>
  The local data of a call: its result, the bytes it hands to the user, \<open>*f_pos\<close>, the file structure,
  and the local variables of the operations.
\<close>

record dlocal =
  ret :: "size_t kres"
  out :: "byte list"
  pos :: loff_t
  filp :: kfile
  fresh :: bool
  committed :: bool
  removed :: ptr
  found :: "(uint8_t \<times> size_t) option"
  seekto :: aesd_seekto

definition local_start :: "kfile \<Rightarrow> loff_t \<Rightarrow> dlocal" where
  "local_start f p = \<lparr>ret = Inr 0, out = [], pos = p, filp = f, fresh = False, committed = False,
     removed = NULL, found = None, seekto = \<lparr>write_cmd = 0, write_cmd_offset = 0\<rparr>\<rparr>"

abbreviation failed :: "dlocal \<Rightarrow> bool" where
  "failed l \<equiv> (case ret l of Inl _ \<Rightarrow> True | Inr _ \<Rightarrow> False)"

abbreviation current :: "kernel \<Rightarrow> aesd_buffer_entry" where
  "current k \<equiv> current_write_entry (aesd_device k)"

definition set_current :: "aesd_buffer_entry \<Rightarrow> kernel \<Rightarrow> kernel" where
  "set_current e k = k\<lparr>aesd_device := (aesd_device k)\<lparr>current_write_entry := e\<rparr>\<rparr>"

text \<open>\<open>aesd_write\<close>: allocate, copy, insert, free the evicted buffer, reset the pending entry.\<close>

definition write_allocate :: "kapi \<Rightarrow> size_t \<Rightarrow> (dlocal, kernel) micro" where
  "write_allocate K count = (\<lambda>(l, k).
     if buffptr (current k) = NULL then
       let (p, h) = kzalloc K (kheap k) count in
       Some (l\<lparr>fresh := True, ret := if p = NULL then Inl ENOMEM else Inr 0\<rparr>,
         (set_current ((current k)\<lparr>buffptr := p\<rparr>) k)\<lparr>kheap := h\<rparr>)
     else
       let (p, h) = krealloc K (kheap k) (buffptr (current k)) (esize (current k) + count) in
       if p = NULL then Some (l\<lparr>ret := Inl ENOMEM\<rparr>, k\<lparr>kheap := h\<rparr>)
       else Some (l\<lparr>fresh := False\<rparr>, (set_current ((current k)\<lparr>buffptr := p\<rparr>) k)\<lparr>kheap := h\<rparr>))"

definition write_copy :: "kapi \<Rightarrow> ptr \<Rightarrow> size_t \<Rightarrow> (dlocal, kernel) micro" where
  "write_copy K buf count = (\<lambda>(l, k).
     if failed l then Some (l, k)
     else case copy_from_user K buf count of
         None \<Rightarrow> do {
           h \<leftarrow> release (kheap k) (buffptr (current k));
           Some (l\<lparr>ret := Inl EFAULT\<rparr>,
             (set_current ((current k)\<lparr>buffptr := NULL, esize := 0\<rparr>) k)\<lparr>kheap := h\<rparr>)
         }
       | Some bs \<Rightarrow> do {
           h \<leftarrow> store (kheap k) (buffptr (current k)) (if fresh l then 0 else unat (esize (current k))) bs;
           Some (l, (set_current ((current k)\<lparr>esize := if fresh l then count else esize (current k) + count\<rparr>) k)
             \<lparr>kheap := h\<rparr>)
         })"

definition write_insert :: "size_t \<Rightarrow> (dlocal, kernel) micro" where
  "write_insert count = (\<lambda>(l, k).
     if failed l then Some (l, k)
     else do {
       nl \<leftarrow> memchr (kheap k) (buffptr (current k)) newline (esize (current k));
       case nl of
         Some _ \<Rightarrow> do {
           let e = \<lparr>buffptr = buffptr (current k), esize = esize (current k)\<rparr>;
           (evicted, b) \<leftarrow> aesd_circular_buffer_add_entry (buffer (aesd_device k)) e;
           Some (l\<lparr>ret := Inr (esize e), committed := True, removed := evicted\<rparr>,
             k\<lparr>aesd_device := (aesd_device k)\<lparr>buffer := b\<rparr>\<rparr>)
         }
       | None \<Rightarrow> Some (l\<lparr>ret := Inr count\<rparr>, k)
     })"

definition write_free :: "(dlocal, kernel) micro" where
  "write_free = (\<lambda>(l, k).
     if committed l \<and> removed l \<noteq> NULL
     then do { h \<leftarrow> release (kheap k) (removed l); Some (l, k\<lparr>kheap := h\<rparr>) }
     else Some (l, k))"

definition write_reset :: "(dlocal, kernel) micro" where
  "write_reset = (\<lambda>(l, k).
     Some (case ret l of Inl _ \<Rightarrow> l | Inr n \<Rightarrow> l\<lparr>pos := pos l + n\<rparr>,
       if committed l then set_current ((current k)\<lparr>buffptr := NULL, esize := 0\<rparr>) k else k))"

text \<open>\<open>aesd_read\<close>: find the entry, copy to the user.\<close>

definition read_find :: "(dlocal, kernel) micro" where
  "read_find = (\<lambda>(l, k). do {
     r \<leftarrow> aesd_circular_buffer_find_entry_offset_for_fpos (buffer (aesd_device k)) (pos l);
     Some (l\<lparr>found := r\<rparr>, k)
   })"

definition read_copy :: "kapi \<Rightarrow> ptr \<Rightarrow> size_t \<Rightarrow> (dlocal, kernel) micro" where
  "read_copy K buf count = (\<lambda>(l, k).
     case found l of
       None \<Rightarrow> Some (l, k)
     | Some (i, entry_offset_byte) \<Rightarrow> do {
         e \<leftarrow> entry_at (buffer (aesd_device k)) (unat i);
         if entry_offset_byte \<ge> esize e then Some (l, k)
         else do {
           let bytes_to_copy = min count (esize e - entry_offset_byte);
           bs \<leftarrow> load (kheap k) (buffptr e) (unat entry_offset_byte) (unat bytes_to_copy);
           Some (if copy_to_user K buf bs
             then l\<lparr>ret := Inr bytes_to_copy, out := bs, pos := pos l + bytes_to_copy\<rparr>
             else l\<lparr>ret := Inl EFAULT\<rparr>, k)
         }
       })"

definition llseek_move :: "kapi \<Rightarrow> loff_t \<Rightarrow> int \<Rightarrow> (dlocal, kernel) micro" where
  "llseek_move K offset whence = (\<lambda>(l, k).
     let (newpos, p) = fixed_size_llseek K (f_pos (filp l)) offset whence
       (aesd_circular_buffer_size (buffer (aesd_device k))) in
     Some (l\<lparr>ret := newpos, filp := (filp l)\<lparr>f_pos := p\<rparr>\<rparr>, k))"

text \<open>\<open>aesd_ioctl\<close>: validate the arguments, sum the sizes and set the position.\<close>

definition ioctl_validate :: "(dlocal, kernel) micro" where
  "ioctl_validate = (\<lambda>(l, k).
     if unat (write_cmd (seekto l)) \<ge> AESDCHAR_MAX_WRITE_OPERATIONS_SUPPORTED
     then Some (l\<lparr>ret := Inl EINVAL\<rparr>, k)
     else do {
       e \<leftarrow> entry_at (buffer (aesd_device k)) (unat (write_cmd (seekto l)));
       if buffptr e = NULL \<or> unat (write_cmd_offset (seekto l)) \<ge> unat (esize e)
       then Some (l\<lparr>ret := Inl EINVAL\<rparr>, k)
       else Some (l, k)
     })"

definition ioctl_move :: "(dlocal, kernel) micro" where
  "ioctl_move = (\<lambda>(l, k).
     if failed l then Some (l, k)
     else Some (l\<lparr>filp := (filp l)\<lparr>f_pos := seek_char_offset (seekto l) (buffer (aesd_device k))\<rparr>\<rparr>, k))"

text \<open>
  What comes before the lock: \<open>aesd_ioctl\<close> decodes the command and fetches the argument, and
  \<open>mutex_lock_interruptible\<close> may return without the lock.
\<close>

definition ioctl_decode :: "kapi \<Rightarrow> uint32_t \<Rightarrow> dlocal \<Rightarrow> bool \<times> dlocal" where
  "ioctl_decode K cmd l =
     (if IOC_TYPE K cmd \<noteq> AESD_IOC_MAGIC then (True, l\<lparr>ret := Inl ENOTTY\<rparr>)
      else if IOC_NR K cmd > AESDCHAR_IOC_MAXNR then (True, l\<lparr>ret := Inl ENOTTY\<rparr>)
      else if cmd = AESDCHAR_IOCSEEKTO K then (False, l)
      else (True, l\<lparr>ret := Inl ENOTTY\<rparr>))"

definition ioctl_fetch :: "kapi \<Rightarrow> ptr \<Rightarrow> dlocal \<Rightarrow> bool \<times> dlocal" where
  "ioctl_fetch K arg l = (case copy_seekto_from_user K arg of
       None \<Rightarrow> (True, l\<lparr>ret := Inl EFAULT\<rparr>)
     | Some q \<Rightarrow> (False, l\<lparr>seekto := q\<rparr>))"

definition interruptible :: "kapi \<Rightarrow> dlocal \<Rightarrow> bool \<times> dlocal" where
  "interruptible K l = (if lock_interrupted K then (True, l\<lparr>ret := Inl ERESTARTSYS\<rparr>) else (False, l))"

text \<open>The operations in the order of their statements, locking included.\<close>

definition aesd_read_code :: "kapi \<Rightarrow> ptr \<Rightarrow> size_t \<Rightarrow> (dlocal, kernel) instr list" where
  [simp]: "aesd_read_code K buf count =
     [Guard (interruptible K), Acquire, Run read_find, Run (read_copy K buf count), Release]"

definition aesd_write_code :: "kapi \<Rightarrow> ptr \<Rightarrow> size_t \<Rightarrow> (dlocal, kernel) instr list" where
  [simp]: "aesd_write_code K buf count =
     [Guard (interruptible K), Acquire, Run (write_allocate K count), Run (write_copy K buf count),
      Run (write_insert count), Run write_free, Run write_reset, Release]"

definition aesd_llseek_code :: "kapi \<Rightarrow> loff_t \<Rightarrow> int \<Rightarrow> (dlocal, kernel) instr list" where
  [simp]: "aesd_llseek_code K offset whence =
     [Guard (interruptible K), Acquire, Run (llseek_move K offset whence), Release]"

definition aesd_ioctl_code :: "kapi \<Rightarrow> uint32_t \<Rightarrow> ptr \<Rightarrow> (dlocal, kernel) instr list" where
  [simp]: "aesd_ioctl_code K cmd arg =
     [Guard (ioctl_decode K cmd), Guard (ioctl_fetch K arg), Guard (interruptible K), Acquire,
      Run ioctl_validate, Run ioctl_move, Release]"

fun call_code :: "dcall \<Rightarrow> (dlocal, kernel) instr list" where
  "call_code (C_read K f buf count p) = aesd_read_code K buf count"
| "call_code (C_write K f buf count p) = aesd_write_code K buf count"
| "call_code (C_llseek K f offset whence) = aesd_llseek_code K offset whence"
| "call_code (C_ioctl K f cmd arg) = aesd_ioctl_code K cmd arg"

fun call_start :: "dcall \<Rightarrow> dlocal" where
  "call_start (C_read K f buf count p) = local_start f p"
| "call_start (C_write K f buf count p) = local_start f p"
| "call_start (C_llseek K f offset whence) = local_start f (f_pos f)"
| "call_start (C_ioctl K f cmd arg) = local_start f (f_pos f)"

definition set_lock :: "bool \<Rightarrow> kernel \<Rightarrow> kernel" where
  "set_lock b k = k\<lparr>aesd_device := (aesd_device k)\<lparr>lock := b\<rparr>\<rparr>"

definition driver_object :: "(dcall, dlocal, kernel) guarded" where
  "driver_object = \<lparr>held = (\<lambda>k. lock (aesd_device k)), set_held = set_lock,
     start = call_start, code = call_code\<rparr>"

section \<open>The calls as the operations of the driver\<close>

text \<open>What the caller sees: the result, the bytes read, \<open>*f_pos\<close> and the file structure.\<close>

type_synonym dresult = "size_t kres \<times> byte list \<times> loff_t \<times> kfile"

definition call_result :: "dlocal \<Rightarrow> dresult" where
  "call_result l = (ret l, out l, pos l, filp l)"

fun driver_call :: "dcall \<Rightarrow> kernel \<Rightarrow> (dresult \<times> kernel) option" where
  "driver_call (C_read K f buf count p) k = do {
     (r, bs, p', k') \<leftarrow> aesd_read K f buf count p k;
     Some ((r, bs, p', f), k')
   }"
| "driver_call (C_write K f buf count p) k = do {
     (r, p', k') \<leftarrow> aesd_write K f buf count p k;
     Some ((r, [], p', f), k')
   }"
| "driver_call (C_llseek K f offset whence) k = do {
     (r, f', k') \<leftarrow> aesd_llseek K f offset whence k;
     Some ((r, [], f_pos f, f'), k')
   }"
| "driver_call (C_ioctl K f cmd arg) k = do {
     (r, f', k') \<leftarrow> aesd_ioctl K f cmd arg k;
     Some ((r, [], f_pos f, f'), k')
   }"

fun call_ok :: "dcall \<Rightarrow> bool" where
  "call_ok (C_read K f buf count p) \<longleftrightarrow> private_data f = Some Aesd_device"
| "call_ok (C_write K f buf count p) \<longleftrightarrow> private_data f = Some Aesd_device \<and> kapi_ok K \<and> unat count \<le> MAX_RW_COUNT"
| "call_ok (C_llseek K f offset whence) \<longleftrightarrow> private_data f = Some Aesd_device"
| "call_ok (C_ioctl K f cmd arg) \<longleftrightarrow> private_data f = Some Aesd_device"

lemmas micro_defs = write_allocate_def write_copy_def write_insert_def write_free_def write_reset_def
  read_find_def read_copy_def llseek_move_def ioctl_validate_def ioctl_move_def set_current_def

lemma driver_object_sel [simp]:
  "held driver_object k = lock (aesd_device k)" "set_held driver_object = set_lock"
  "start driver_object = call_start" "code driver_object = call_code"
  by (simp_all add: driver_object_def)

lemma set_lock_simps [simp]:
  "lock (aesd_device (set_lock b k)) = b" "set_lock b (set_lock c k) = set_lock b k"
  "kheap (set_lock b k) = kheap k" "buffer (aesd_device (set_lock b k)) = buffer (aesd_device k)"
  "current (set_lock b k) = current k"
  by (simp_all add: set_lock_def)

lemma set_lock_same [simp]: "lock (aesd_device k) = b \<Longrightarrow> set_lock b k = k"
  by (cases k; cases "aesd_device k") (auto simp: set_lock_def)

definition call_view :: "(dlocal \<times> kernel) option \<Rightarrow> (dresult \<times> kernel) option" where
  "call_view = map_option (\<lambda>(l, k). (call_result l, k))"

lemmas atomic_simps = call_view_def atomic_call_def mutex_lock_interruptible_def mutex_unlock_def
  interruptible_def ioctl_decode_def ioctl_fetch_def micro_defs call_result_def local_start_def set_lock_def Let_def

lemma atomic_read:
  assumes "private_data f = Some d"
  shows "call_view (atomic_call driver_object (C_read K f buf count p) k) = driver_call (C_read K f buf count p) k"
  using assms
  by (auto simp: atomic_simps aesd_read_def split: option.splits Option.bind_splits prod.splits)

lemma atomic_llseek:
  assumes "private_data f = Some d"
  shows "call_view (atomic_call driver_object (C_llseek K f offset whence) k) = driver_call (C_llseek K f offset whence) k"
  using assms
  by (auto simp: atomic_simps aesd_llseek_def split: option.splits Option.bind_splits prod.splits)

lemma atomic_ioctl:
  assumes "private_data f = Some d"
  shows "call_view (atomic_call driver_object (C_ioctl K f cmd arg) k) = driver_call (C_ioctl K f cmd arg) k"
  using assms
  by (auto simp: atomic_simps aesd_ioctl_def split: option.splits Option.bind_splits prod.splits)

lemma allocate_copy:
  assumes "ret l = Inr 0" and "\<not> fresh l"
  shows "run_micros [write_allocate K count, write_copy K buf count] (l, k) = do {
    (err, cur, h) \<leftarrow> write_collect K buf count (current k) (kheap k);
    Some (l\<lparr>fresh := (buffptr (current k) = NULL), ret := (case err of None \<Rightarrow> Inr 0 | Some e \<Rightarrow> Inl e)\<rparr>,
      (set_current cur k)\<lparr>kheap := h\<rparr>)
  }"
proof (cases "buffptr (current k) = NULL")
  case True
  obtain p h where "kzalloc K (kheap k) count = (p, h)" by fastforce
  with True assms show ?thesis
    by (cases l; cases "copy_from_user K buf count")
      (auto simp: write_allocate_def write_copy_def write_collect_def set_current_def split: Option.bind_splits)
next
  case False
  obtain p h where "krealloc K (kheap k) (buffptr (current k)) (esize (current k) + count) = (p, h)" by fastforce
  with False assms show ?thesis
    by (cases l; cases "copy_from_user K buf count"; cases "p = NULL")
      (auto simp: write_allocate_def write_copy_def write_collect_def set_current_def split: Option.bind_splits)
qed

text \<open>The rest of the call, for a call that has collected its bytes and for one that has failed.\<close>

lemma insert_free_reset:
  assumes "ret l = Inr 0" and "\<not> committed l"
  shows "map_option (\<lambda>(l', k'). (call_result l', k'))
      (run_micros [write_insert count, write_free, write_reset] (l, k)) = do {
    (n, dev, h) \<leftarrow> write_commit count (aesd_device k) (kheap k);
    Some ((Inr n, out l, pos l + n, filp l), k\<lparr>aesd_device := dev, kheap := h\<rparr>)
  }"
proof (cases "memchr (kheap k) (buffptr (current k)) newline (esize (current k))")
  case None
  with assms show ?thesis by (simp add: write_insert_def write_commit_def)
next
  case (Some nl)
  with assms show ?thesis
    by (cases nl; cases "aesd_device k")
      (auto simp: write_insert_def write_free_def write_reset_def write_commit_def set_current_def call_result_def
        split: Option.bind_splits)
qed

lemma insert_free_reset_failed:
  assumes "ret l = Inl e" and "\<not> committed l"
  shows "run_micros [write_insert count, write_free, write_reset] (l, k) = Some (l, k)"
  using assms by (simp add: write_insert_def write_free_def write_reset_def)

abbreviation write_micros :: "kapi \<Rightarrow> ptr \<Rightarrow> size_t \<Rightarrow> (dlocal, kernel) micro list" where
  "write_micros K buf count \<equiv>
     [write_allocate K count, write_copy K buf count] @ [write_insert count, write_free, write_reset]"

lemma write_commit_lock: "write_commit count dev h = Some (n, dev', h') \<Longrightarrow> lock dev' = lock dev"
  by (auto simp: write_commit_def Let_def split: Option.bind_splits option.splits prod.splits if_splits)

lemma write_body_view:
  "call_view (run_micros (write_micros K buf count) (local_start f p, k)) = do {
     (err, cur, h) \<leftarrow> write_collect K buf count (current k) (kheap k);
     case err of
       Some e \<Rightarrow> Some ((Inl e, [], p, f), (set_current cur k)\<lparr>kheap := h\<rparr>)
     | None \<Rightarrow> do {
         (n, dev, h') \<leftarrow> write_commit count ((aesd_device k)\<lparr>current_write_entry := cur\<rparr>) h;
         Some ((Inr n, [], p + n, f), k\<lparr>aesd_device := dev, kheap := h'\<rparr>)
       }
   }"
proof -
  have l: "ret (local_start f p) = Inr 0" "\<not> fresh (local_start f p)" by (simp_all add: local_start_def)
  show ?thesis
    unfolding run_micros_append allocate_copy [OF l]
  proof (cases "write_collect K buf count (current k) (kheap k)", goal_cases)
    case 1
    then show ?case by (simp add: call_view_def)
  next
    case (2 c)
    obtain err cur h where c: "c = (err, cur, h)" by (cases c)
    let ?l = "(local_start f p)\<lparr>fresh := (buffptr (current k) = NULL), ret := (case err of None \<Rightarrow> Inr 0 | Some e \<Rightarrow> Inl e)\<rparr>"
      and ?k = "(set_current cur k)\<lparr>kheap := h\<rparr>"
    show ?case
    proof (cases err)
      case None
      then have "ret ?l = Inr 0" "\<not> committed ?l" by (simp_all add: local_start_def)
      from insert_free_reset [OF this, of count ?k] show ?thesis
        using 2 c None
        by (auto simp: call_view_def set_current_def local_start_def split: Option.bind_splits)
    next
      case (Some e)
      then have "ret ?l = Inl e" "\<not> committed ?l" by (simp_all add: local_start_def)
      from insert_free_reset_failed [OF this, of count ?k] show ?thesis
        using 2 c Some by (simp add: call_view_def call_result_def local_start_def)
    qed
  qed
qed

lemma call_view_unlock:
  "call_view (do { (l, k) \<leftarrow> m; Some (l, set_lock False k) }) = do { (r, k) \<leftarrow> call_view m; Some (r, set_lock False k) }"
  by (cases m) (auto simp: call_view_def)

lemma write_call_code:
  "call_code (C_write K f buf count p) =
     Guard (interruptible K) # Acquire # map Run (write_micros K buf count) @ [Release]"
  by simp

lemma call_code_lock:
  assumes "Run g \<in> set (call_code r)" and "g (l, k) = Some (l', k')"
  shows "lock (aesd_device k') = lock (aesd_device k)"
  using assms
  by (cases r)
    (auto simp: micro_defs Let_def split: if_splits option.splits Option.bind_splits prod.splits)

lemma write_micros_lock:
  assumes "run_micros (write_micros K buf count) (l, k) = Some (l', k')"
  shows "lock (aesd_device k') = lock (aesd_device k)"
proof (rule run_micros_keep [OF assms, where h = "\<lambda>k. lock (aesd_device k)"])
  fix g l k l' k'
  assume g: "g \<in> set (write_micros K buf count)" "g (l, k) = Some (l', k')"
  have "Run g \<in> set (call_code (C_write K f buf count p))" for f p using g(1) by auto
  from call_code_lock [OF this g(2)] show "lock (aesd_device k') = lock (aesd_device k)" .
qed

lemma atomic_write_free:
  assumes "\<not> lock_interrupted K" and "\<not> lock (aesd_device k)"
  shows "atomic_call driver_object (C_write K f buf count p) k = do {
      (l, k') \<leftarrow> run_micros (write_micros K buf count) (local_start f p, set_lock True k);
      Some (l, set_lock False k')
    }"
proof -
  have "interruptible K (start driver_object (C_write K f buf count p)) = (False, local_start f p)"
    using assms(1) by (simp add: interruptible_def)
  moreover have "held driver_object k'"
    if "run_micros (write_micros K buf count) (local_start f p, set_lock True k) = Some (l, k')" for l k'
    using write_micros_lock [OF that] by simp
  ultimately show ?thesis
    using atomic_call_locked [of driver_object "C_write K f buf count p" "interruptible K"
        "write_micros K buf count" "local_start f p" k] assms(2)
    by simp
qed

lemma atomic_write:
  assumes "private_data f = Some d"
  shows "call_view (atomic_call driver_object (C_write K f buf count p) k) = driver_call (C_write K f buf count p) k"
proof (cases "lock_interrupted K \<or> lock (aesd_device k)")
  case True
  with assms show ?thesis by (auto simp: atomic_simps aesd_write_def)
next
  case False
  then have free: "\<not> lock_interrupted K" "\<not> lock (aesd_device k)" by simp_all
  have "call_view (atomic_call driver_object (C_write K f buf count p) k) = do {
      (r, k') \<leftarrow> call_view (run_micros (write_micros K buf count) (local_start f p, set_lock True k));
      Some (r, set_lock False k')
    }"
    unfolding call_view_unlock [symmetric] atomic_write_free [OF free] ..
  with False assms show ?thesis
    unfolding write_body_view
    by (auto simp: aesd_write_def mutex_lock_interruptible_def mutex_unlock_def set_lock_def set_current_def
        dest: write_commit_lock split: Option.bind_splits option.splits)
qed

lemma atomic_driver_call:
  "call_ok r \<Longrightarrow> call_view (atomic_call driver_object r k) = driver_call r k"
  by (cases r) (simp_all only: call_ok.simps atomic_read atomic_write atomic_llseek atomic_ioctl)

section \<open>The driver keeps the lock's contract\<close>

text \<open>What a completed call did to the abstract device.\<close>

fun call_effect :: "dcall \<times> dresult \<Rightarrow> log_dev \<Rightarrow> log_dev" where
  "call_effect (C_write K f buf count p, Inr n, rest) a =
     (case copy_from_user K buf count of None \<Rightarrow> a | Some bs \<Rightarrow> log_write bs a)"
| "call_effect (C_write K f buf count p, Inl e, rest) a = (if e = EFAULT then a\<lparr>pending := []\<rparr> else a)"
| "call_effect (c, res) a = a"

lemma driver_call_total:
  assumes "dev_inv k" and "call_ok r"
  shows "\<exists>v k'. driver_call r k = Some (v, k') \<and> dev_inv k' \<and> abs_dev k' = call_effect (r, v) (abs_dev k)"
proof (cases r)
  case (C_read K f buf count p)
  then show ?thesis using assms read_total [OF assms(1), of f Aesd_device K buf count p] by auto
next
  case (C_write K f buf count p)
  with assms obtain v where v: "aesd_write K f buf count p k = Some v" "written K buf count p k v"
    using aesd_write_written [OF assms(1), of K count f Aesd_device buf p] by auto
  from v(2) show ?thesis
    using v(1) C_write assms(1) by cases auto
next
  case (C_llseek K f offset whence)
  with assms show ?thesis
    by (cases "fixed_size_llseek K (f_pos f) offset whence (word_of_nat (length (log_contents (abs_dev k))))")
      (auto simp: aesd_llseek_eq [OF assms(1), of f Aesd_device])
next
  case (C_ioctl K f cmd arg)
  with assms show ?thesis
    using aesd_ioctl_frame [OF assms(1), of f Aesd_device K cmd arg] by (auto split: option.splits)
qed

lemma call_code_locked: "locked_code (call_code r)"
  by (cases r) simp_all

lemma call_code_runs:
  assumes "call_ok r" and "dev_inv k"
  shows "\<exists>l k'. atomic_call driver_object r k = Some (l, k') \<and> dev_inv k'"
  using driver_call_total [OF assms(2,1)] atomic_driver_call [OF assms(1), of k]
  by (auto simp: call_view_def)

interpretation dt: guarded_object driver_object dev_inv call_ok
  using call_code_locked call_code_lock call_code_runs by unfold_locales (auto dest: dev_invD(2))

text \<open>Calls run one after the other, each with the result it returns.\<close>

fun driver_calls :: "kernel \<Rightarrow> (dcall \<times> dresult) list \<Rightarrow> kernel \<Rightarrow> bool" where
  "driver_calls k [] k' \<longleftrightarrow> k = k'"
| "driver_calls k ((r, v) # calls) k' \<longleftrightarrow> (\<exists>k1. driver_call r k = Some (v, k1) \<and> driver_calls k1 calls k')"

definition returned :: "(dcall, dlocal, kernel) tsys \<Rightarrow> (dcall \<times> dresult) list" where
  "returned S = map (\<lambda>(r, l). (r, call_result l)) (completed S)"

lemma sequential_driver_calls:
  assumes "sequential driver_object k calls k'" and "\<forall>c \<in> set calls. call_ok (fst c)" and "dev_inv k"
  shows "driver_calls k (map (\<lambda>(r, l). (r, call_result l)) calls) k' \<and>
    abs_dev k' = fold call_effect (map (\<lambda>(r, l). (r, call_result l)) calls) (abs_dev k)"
  using assms
proof (induction calls arbitrary: k)
  case (Cons c calls)
  obtain r l where c: "c = (r, l)" by (cases c)
  with Cons.prems obtain k1 where k1: "atomic_call driver_object r k = Some (l, k1)"
      "sequential driver_object k1 calls k'" and ok: "call_ok r"
    by auto
  then have call: "driver_call r k = Some (call_result l, k1)"
    using atomic_driver_call [OF ok, of k] by (simp add: call_view_def)
  then have "dev_inv k1" "abs_dev k1 = call_effect (r, call_result l) (abs_dev k)"
    using driver_call_total [OF Cons.prems(3) ok] by auto
  with Cons.IH [OF k1(2)] Cons.prems(2) call c show ?case by auto
qed simp

text \<open>
  (C5) Any number of threads may read, write, seek and call the ioctl on the device at once, their
  small steps (groups of statements) interleaved in any way, each taking and releasing the device's
  mutex where its own code does.  Run alone from any state of the kernel, the code of a call is the
  operation of \<open>main.c\<close>.  A thread at statements that work on the device is past its lock operation, at
  most one thread is, and it holds the mutex; the calls that have returned gave the results, and left
  the device, that they give when run one after the other in the order of their return, so writes are
  never mixed or lost; and while a call is under way some thread can take its next step, so no schedule
  ends in a deadlock.
\<close>

theorem driver_linearizable:
  assumes "dev_inv k0" and "reach (threads_init k0) (thread_step driver_object call_ok) S"
  shows "(\<exists>k. driver_calls k0 (returned S) k \<and> dev_inv k \<and>
      abs_dev k = fold call_effect (returned S) (abs_dev k0) \<and>
      ((\<forall>t. \<not> critical (tstates S t)) \<longrightarrow> shared S = k)) \<and>
    (\<forall>t u. critical (tstates S t) \<and> critical (tstates S u) \<longrightarrow> t = u) \<and>
    (\<forall>t. touches (tstates S t) \<longrightarrow> critical (tstates S t)) \<and>
    (\<forall>t. critical (tstates S t) \<longrightarrow> lock (aesd_device (shared S))) \<and>
    (\<forall>t. tstates S t \<noteq> Idle \<longrightarrow> (\<exists>u S'. thread_step driver_object call_ok S (T_step u) S')) \<and>
    (\<forall>r k. call_ok r \<longrightarrow> call_view (atomic_call driver_object r k) = driver_call r k)"
proof (intro conjI)
  note lin = dt.reach_linearized [OF assms(2,1)]
  have ok: "\<forall>c \<in> set (completed S). call_ok (fst c)" using reach_completed_ok [OF assms(2)] .
  from lin show "\<exists>k. driver_calls k0 (returned S) k \<and> dev_inv k \<and>
      abs_dev k = fold call_effect (returned S) (abs_dev k0) \<and>
      ((\<forall>t. \<not> critical (tstates S t)) \<longrightarrow> shared S = k)"
    unfolding returned_def
    by (cases rule: dt.linearized_cases) (use sequential_driver_calls [OF _ ok assms(1)] in blast)+
  from lin show "\<forall>t u. critical (tstates S t) \<and> critical (tstates S u) \<longrightarrow> t = u"
    by (cases rule: dt.linearized_cases) metis+
  show "\<forall>t. touches (tstates S t) \<longrightarrow> critical (tstates S t)"
    using dt.touches_critical [OF lin] by blast
  show "\<forall>t. critical (tstates S t) \<longrightarrow> lock (aesd_device (shared S))"
    using dt.critical_held [OF lin] by simp
  show "\<forall>t. tstates S t \<noteq> Idle \<longrightarrow> (\<exists>u S'. thread_step driver_object call_ok S (T_step u) S')"
    using dt.not_stuck [OF lin] by blast
  show "\<forall>r k. call_ok r \<longrightarrow> call_view (atomic_call driver_object r k) = driver_call r k"
    using atomic_driver_call by blast
qed

text \<open>
  Two threads write at once: thread 0 has written its line, thread 1, which called before thread 0
  was done, has allocated its buffer and not yet filled it.
\<close>

definition sample_call :: "byte list \<Rightarrow> dcall" where
  "sample_call bs = C_write (sample_kapi bs) opened 0 (word_of_nat (length bs)) 0"

definition sample_other :: "byte list" where
  "sample_other = ''x'' @ [newline]"

lemma sample_call_ok: "length bs \<le> MAX_RW_COUNT \<Longrightarrow> call_ok (sample_call bs)"
  by (simp add: sample_call_def opened_dev sample_kapi_ok MAX_RW_COUNT_def unat_of_nat64)

lemma write_allocate_returns: "\<exists>l' k'. write_allocate K count (l, k) = Some (l', k')"
  by (simp add: write_allocate_def Let_def split: prod.split)

abbreviation sample_reach :: "(dcall, dlocal, kernel) tsys \<Rightarrow> bool" where
  "sample_reach \<equiv> reach (threads_init loaded) (thread_step driver_object call_ok)"

text \<open>From a free lock, a thread that has called runs on until it has allocated its buffer.\<close>

lemma sample_enters:
  assumes "sample_reach S" and "tstates S t = Running (sample_call bs) (call_code (sample_call bs)) l"
    and "\<not> lock (aesd_device (shared S))"
  shows "\<exists>S'. sample_reach S' \<and> completed S' = completed S \<and> touches (tstates S' t)"
proof -
  let ?K = "sample_kapi bs" and ?n = "word_of_nat (length bs)"
  obtain ws where ws: "call_code (sample_call bs) =
      Guard (interruptible ?K) # Acquire # Run (write_allocate ?K ?n) # Run (write_copy ?K 0 ?n) # ws"
    by (simp add: sample_call_def)
  let ?S1 = "S\<lparr>shared := shared S, tstates := (tstates S)(t := Running (sample_call bs) (tl (call_code (sample_call bs))) l)\<rparr>"
  have "interruptible ?K l = (False, l)" by (simp add: interruptible_def sample_kapi_def)
  then have R1: "sample_reach ?S1"
    using reach_next [OF assms(1) assms(2) [unfolded ws]] by (simp add: ws del: fun_upd_apply)
  let ?S2 = "?S1\<lparr>shared := set_lock True (shared S),
    tstates := (tstates ?S1)(t := Running (sample_call bs) (tl (tl (call_code (sample_call bs)))) l)\<rparr>"
  have R2: "sample_reach ?S2"
    using reach_next [OF R1, of t "sample_call bs" Acquire _ l l "set_lock True (shared S)"] assms(3)
    by (simp add: ws)
  obtain l' k' where "write_allocate ?K ?n (l, set_lock True (shared S)) = Some (l', k')"
    using write_allocate_returns by blast
  then have "sample_reach (?S2\<lparr>shared := k', tstates := (tstates ?S2)
      (t := Running (sample_call bs) (Run (write_copy ?K 0 ?n) # ws) l')\<rparr>)"
    using reach_next [OF R2, of t "sample_call bs" "Run (write_allocate ?K ?n)" "Run (write_copy ?K 0 ?n) # ws" l l' k']
    by (simp add: ws)
  then show ?thesis by fastforce
qed

lemma sample_interleaving:
  "\<exists>S. sample_reach S \<and> touches (tstates S 1) \<and> returned S = [(sample_call sample_line, Inr 6, [], 6, opened)]"
proof -
  let ?c0 = "sample_call sample_line" and ?c1 = "sample_call sample_other"
  let ?S0 = "\<lparr>shared = loaded, tstates = (\<lambda>t. Idle), completed = []\<rparr> :: (dcall, dlocal, kernel) tsys"
  let ?S1 = "?S0\<lparr>tstates := (tstates ?S0)(0 := Running ?c0 (call_code ?c0) (call_start ?c0))\<rparr>"
  let ?S2 = "?S1\<lparr>tstates := (tstates ?S1)(1 := Running ?c1 (call_code ?c1) (call_start ?c1))\<rparr>"
  have ok: "call_ok ?c0" "call_ok ?c1" by (simp_all add: sample_call_ok sample_line_def sample_other_def MAX_RW_COUNT_def)
  have "sample_reach ?S0" by (rule reach_init) (simp add: threads_init_def)
  then have "sample_reach ?S1"
    using reach_call [where t = 0 and r = ?c0, of _ driver_object call_ok ?S0] by (simp add: ok)
  then have R2: "sample_reach ?S2"
    using reach_call [where t = 1 and r = ?c1, of _ driver_object call_ok ?S1] by (simp add: ok)
  obtain l k where run: "atomic_call driver_object ?c0 loaded = Some (l, k)" and inv: "dev_inv k"
    using call_code_runs [OF ok(1) loaded_inv] by blast
  have "map_option (\<lambda>(l, k). (ret l, out l, pos l, private_data (filp l), f_pos (filp l)))
      (atomic_call driver_object ?c0 loaded) = Some (Inr 6, [], 6, private_data opened, f_pos opened)"
    by code_simp
  with run have l: "ret l = Inr 6" "out l = []" "pos l = 6" "filp l = opened" by auto
  let ?S3 = "?S2\<lparr>shared := k, tstates := (tstates ?S2)(0 := Idle), completed := [(?c0, l)]\<rparr>"
  have "sample_reach ?S3"
    using reach_return [OF R2, of 0 ?c0 "call_code ?c0" "call_start ?c0" l k] run
    by (simp add: atomic_call_def sample_call_def)
  then obtain S where "sample_reach S" "completed S = completed ?S3" "touches (tstates S 1)"
    using sample_enters [of ?S3 1 sample_other "call_start ?c1"] dev_invD(2) [OF inv] by auto
  with l show ?thesis by (intro exI [of _ S]) (simp add: returned_def call_result_def)
qed

theorem driver_linearizable_witness:
  "\<exists>S k. driver_calls loaded (returned S) k \<and> critical (tstates S 1) \<and> \<not> critical (tstates S 0) \<and>
     lock (aesd_device (shared S)) \<and> abs_dev k = \<lparr>cmds = [sample_line], pending = []\<rparr>"
proof -
  obtain S where S: "sample_reach S" "touches (tstates S 1)"
      "returned S = [(sample_call sample_line, Inr 6, [], 6, opened)]"
    using sample_interleaving by blast
  note lin = driver_linearizable [OF loaded_inv S(1)]
  then obtain k where k: "driver_calls loaded (returned S) k" "abs_dev k = fold call_effect (returned S) (abs_dev loaded)"
    by blast
  have "fold call_effect (returned S) (abs_dev loaded) = \<lparr>cmds = [sample_line], pending = []\<rparr>"
    unfolding S(3) loaded_abs sample_call_def by code_simp
  moreover have one: "critical (tstates S 1)" "lock (aesd_device (shared S))" using lin S(2) by blast+
  moreover have "\<not> critical (tstates S 0)" using lin one(1) by (metis zero_neq_one)
  ultimately show ?thesis using k by metis
qed

end
