(* ===== verification/Ioctl_Abi.thy ===== *)
theory Ioctl_Abi
  imports Driver_Theorems
begin

text \<open>
  The seek structure as it crosses from user space to the kernel.  The server and the test program
  are compiled with \<open>server/aesd_ioctl.h\<close>, the driver with its own copy of the header; what they
  share is eight bytes in the caller's memory.  The layout is that of the C structure, two 32-bit
  members without padding, in the byte order of the machine.
\<close>

section \<open>Layout\<close>

text \<open>A 32-bit member in memory; \<open>be\<close> tells whether the machine is big-endian.\<close>

definition u32_bytes :: "bool \<Rightarrow> uint32_t \<Rightarrow> byte list" where
  "u32_bytes be x = (let bs = map (\<lambda>i. char_of (unat x div 256 ^ i)) [0, 1, 2, 3 :: nat] in if be then rev bs else bs)"

definition u32_of_bytes :: "bool \<Rightarrow> byte list \<Rightarrow> uint32_t" where
  "u32_of_bytes be bs = word_of_nat (foldr (\<lambda>b n. of_char b + 256 * n) (if be then rev bs else bs) 0)"

text \<open>\<open>struct aesd_seekto\<close> of the server's header, and its bytes.\<close>

record user_seekto =
  user_write_cmd :: uint32_t
  user_write_cmd_offset :: uint32_t

definition user_seekto_bytes :: "bool \<Rightarrow> user_seekto \<Rightarrow> byte list" where
  "user_seekto_bytes be q = u32_bytes be (user_write_cmd q) @ u32_bytes be (user_write_cmd_offset q)"

text \<open>What \<open>copy_from_user(&seekto, arg, sizeof(seekto))\<close> makes of the bytes.\<close>

definition seekto_of_bytes :: "bool \<Rightarrow> byte list \<Rightarrow> aesd_seekto" where
  "seekto_of_bytes be bs = \<lparr>write_cmd = u32_of_bytes be (take 4 bs), write_cmd_offset = u32_of_bytes be (drop 4 bs)\<rparr>"

text \<open>The kernel copies the structure byte by byte, like any other memory of the caller.\<close>

definition copy_seekto_ok :: "bool \<Rightarrow> kapi \<Rightarrow> bool" where
  "copy_seekto_ok be K \<longleftrightarrow> (\<forall>arg. copy_seekto_from_user K arg =
     map_option (seekto_of_bytes be) (copy_from_user K arg (word_of_nat sizeof_aesd_seekto)))"

section \<open>Round trip\<close>

lemma length_u32_bytes [simp]: "length (u32_bytes be x) = 4"
  by (simp add: u32_bytes_def Let_def)

lemma nat_digits:
  fixes n :: nat
  assumes "n < 256 ^ 4"
  shows "n mod 256 + 256 * (n div 256 mod 256 + 256 * (n div 65536 mod 256 + 256 * (n div 16777216 mod 256))) = n"
proof -
  have "n div 16777216 mod 256 = n div 16777216" using assms by (simp add: div_less_iff_less_mult)
  moreover have "n div 65536 = n div 256 div 256" "n div 16777216 = n div 256 div 256 div 256"
    by (simp_all add: div_mult2_eq [symmetric])
  ultimately show ?thesis by (metis mod_mult_div_eq add.commute)
qed

lemma u32_roundtrip: "u32_of_bytes be (u32_bytes be x) = x"
proof -
  have "unat x < 256 ^ 4" using unsigned_less [of x] by simp
  then have "foldr (\<lambda>b n. of_char b + 256 * n) (u32_bytes False x) 0 = unat x"
    using nat_digits [of "unat x"] by (simp add: u32_bytes_def)
  moreover have "(if be then rev (u32_bytes be x) else u32_bytes be x) = u32_bytes False x"
    by (simp add: u32_bytes_def Let_def)
  ultimately show ?thesis by (simp only: u32_of_bytes_def of_nat_unat ucast_id)
qed


definition sample_user_kapi :: "bool \<Rightarrow> user_seekto \<Rightarrow> kapi" where
  "sample_user_kapi be q = (let K = sample_kapi (user_seekto_bytes be q) in
     K\<lparr>copy_seekto_from_user := \<lambda>arg. map_option (seekto_of_bytes be) (copy_from_user K arg 8)\<rparr>)"


end
