(* ===== verification/Slist.thy ===== *)
theory Slist
  imports Aesd_Prelude
begin

text \<open>
  The singly linked lists of \<open>server/queue.h\<close> (the \<open>SLIST\<close> macros).  The link field of all live
  elements is one map from addresses to addresses, as in a heap split by fields; following the
  link of an address that is not live is undefined behaviour (\<open>None\<close>).  Traversals and searches
  are loops that might not end, so that they end is proved.  What a client relies on is the
  locale \<open>linked_list\<close>.
\<close>

section \<open>Data and operations\<close>

type_synonym links = "ptr \<rightharpoonup> ptr"

record slist_head =
  slh_first :: ptr

definition SLIST_INIT :: "slist_head \<Rightarrow> slist_head" where
  "SLIST_INIT head = head\<lparr>slh_first := NULL\<rparr>"

definition SLIST_EMPTY :: "slist_head \<Rightarrow> bool" where
  "SLIST_EMPTY head \<longleftrightarrow> slh_first head = NULL"

definition SLIST_FIRST :: "slist_head \<Rightarrow> ptr" where
  [simp]: "SLIST_FIRST head = slh_first head"

text \<open>
  \<open>QMD_ASSERT\<close>: with debug assertions (\<open>A\<close>) a false test ends the program, which is no result;
  without them the test is not evaluated.
\<close>

definition QMD_ASSERT :: "bool \<Rightarrow> bool option \<Rightarrow> unit option" where
  "QMD_ASSERT A test = (if A then do { b \<leftarrow> test; if b then Some () else None } else Some ())"

definition SLIST_ASSERT_NONEMPTY :: "bool \<Rightarrow> slist_head \<Rightarrow> unit option" where
  "SLIST_ASSERT_NONEMPTY A head = QMD_ASSERT A (Some (\<not> SLIST_EMPTY head))"

lemma QMD_ASSERT_True [simp]: "QMD_ASSERT A (Some True) = Some ()"
  by (simp add: QMD_ASSERT_def)

definition SLIST_NEXT :: "links \<Rightarrow> ptr \<Rightarrow> ptr option" where
  "SLIST_NEXT l elm = (if elm = NULL then None else l elm)"

text \<open>The assignment \<open>SLIST_NEXT(elm, field) = v\<close>.\<close>

definition set_next :: "links \<Rightarrow> ptr \<Rightarrow> ptr \<Rightarrow> links option" where
  "set_next l elm v = do { _ \<leftarrow> SLIST_NEXT l elm; Some (l(elm \<mapsto> v)) }"

definition SLIST_INSERT_AFTER :: "links \<Rightarrow> ptr \<Rightarrow> ptr \<Rightarrow> links option" where
  "SLIST_INSERT_AFTER l slistelm elm = do {
     n \<leftarrow> SLIST_NEXT l slistelm;
     l1 \<leftarrow> set_next l elm n;
     set_next l1 slistelm elm
   }"

definition SLIST_INSERT_HEAD :: "slist_head \<Rightarrow> links \<Rightarrow> ptr \<Rightarrow> (slist_head \<times> links) option" where
  "SLIST_INSERT_HEAD head l elm = do {
     l1 \<leftarrow> set_next l elm (SLIST_FIRST head);
     Some (head\<lparr>slh_first := elm\<rparr>, l1)
   }"

definition SLIST_REMOVE_AFTER :: "links \<Rightarrow> ptr \<Rightarrow> links option" where
  "SLIST_REMOVE_AFTER l elm = do {
     n \<leftarrow> SLIST_NEXT l elm;
     nn \<leftarrow> SLIST_NEXT l n;
     set_next l elm nn
   }"

definition SLIST_REMOVE_HEAD :: "slist_head \<Rightarrow> links \<Rightarrow> slist_head option" where
  "SLIST_REMOVE_HEAD head l = do {
     n \<leftarrow> SLIST_NEXT l (SLIST_FIRST head);
     Some (head\<lparr>slh_first := n\<rparr>)
   }"

text \<open>The while loop of \<open>SLIST_REMOVE\<close>: the element in front of \<open>elm\<close>.\<close>

partial_function (option) slist_prev :: "links \<Rightarrow> ptr \<Rightarrow> ptr \<Rightarrow> ptr option" where
  "slist_prev l elm Curelm = do {
     n \<leftarrow> SLIST_NEXT l Curelm;
     if n \<noteq> elm then slist_prev l elm n else Some Curelm
   }"

declare slist_prev.simps [code]

definition SLIST_REMOVE :: "slist_head \<Rightarrow> links \<Rightarrow> ptr \<Rightarrow> (slist_head \<times> links) option" where
  "SLIST_REMOVE head l elm =
     (if SLIST_FIRST head = elm then do {
        head' \<leftarrow> SLIST_REMOVE_HEAD head l;
        Some (head', l)
      }
      else do {
        prev \<leftarrow> slist_prev l elm (SLIST_FIRST head);
        l' \<leftarrow> SLIST_REMOVE_AFTER l prev;
        Some (head, l')
      })"

text \<open>The while loop of \<open>SLIST_CONCAT\<close>: the last element.\<close>

partial_function (option) slist_last :: "links \<Rightarrow> ptr \<Rightarrow> ptr option" where
  "slist_last l Curelm = do {
     n \<leftarrow> SLIST_NEXT l Curelm;
     if n \<noteq> NULL then slist_last l n else Some Curelm
   }"

declare slist_last.simps [code]

definition SLIST_CONCAT ::
  "slist_head \<Rightarrow> slist_head \<Rightarrow> links \<Rightarrow> (slist_head \<times> slist_head \<times> links) option"
where
  "SLIST_CONCAT head1 head2 l =
     (if SLIST_FIRST head1 = NULL then
        let head1' = head1\<lparr>slh_first := SLIST_FIRST head2\<rparr> in
        Some (head1', if SLIST_FIRST head1' \<noteq> NULL then SLIST_INIT head2 else head2, l)
      else if SLIST_FIRST head2 \<noteq> NULL then do {
        last \<leftarrow> slist_last l (SLIST_FIRST head1);
        l' \<leftarrow> set_next l last (SLIST_FIRST head2);
        Some (head1, SLIST_INIT head2, l')
      }
      else Some (head1, head2, l))"

definition SLIST_SPLIT_AFTER ::
  "bool \<Rightarrow> slist_head \<Rightarrow> links \<Rightarrow> ptr \<Rightarrow> slist_head \<Rightarrow> (slist_head \<times> links) option"
where
  "SLIST_SPLIT_AFTER A head l elm rest = do {
     _ \<leftarrow> SLIST_ASSERT_NONEMPTY A head;
     n \<leftarrow> SLIST_NEXT l elm;
     l' \<leftarrow> set_next l elm NULL;
     Some (rest\<lparr>slh_first := n\<rparr>, l')
   }"

definition SLIST_SWAP :: "slist_head \<Rightarrow> slist_head \<Rightarrow> slist_head \<times> slist_head" where
  "SLIST_SWAP head1 head2 =
     (let swap_first = SLIST_FIRST head1 in
      (head1\<lparr>slh_first := SLIST_FIRST head2\<rparr>, head2\<lparr>slh_first := swap_first\<rparr>))"

text \<open>
  The traversals from \<open>var\<close>: the body changes a state whose links \<open>nx\<close> reads.  \<open>SLIST_FOREACH\<close>
  follows the link after the body, \<open>SLIST_FOREACH_SAFE\<close> reads it before.
\<close>

partial_function (option) SLIST_FOREACH ::
  "('s \<Rightarrow> ptr \<Rightarrow> ptr option) \<Rightarrow> (ptr \<Rightarrow> 's \<Rightarrow> 's option) \<Rightarrow> ptr \<Rightarrow> 's \<Rightarrow> 's option"
where
  "SLIST_FOREACH nx body var s =
     (if var = NULL then Some s
      else do {
        s' \<leftarrow> body var s;
        n \<leftarrow> nx s' var;
        SLIST_FOREACH nx body n s'
      })"

partial_function (option) SLIST_FOREACH_SAFE ::
  "('s \<Rightarrow> ptr \<Rightarrow> ptr option) \<Rightarrow> (ptr \<Rightarrow> 's \<Rightarrow> 's option) \<Rightarrow> ptr \<Rightarrow> 's \<Rightarrow> 's option"
where
  "SLIST_FOREACH_SAFE nx body var s =
     (if var = NULL then Some s
      else do {
        tvar \<leftarrow> nx s var;
        s' \<leftarrow> body var s;
        SLIST_FOREACH_SAFE nx body tvar s'
      })"

declare SLIST_FOREACH.simps [code]
declare SLIST_FOREACH_SAFE.simps [code]

section \<open>The list of a head\<close>

text \<open>\<open>lseg l p xs q\<close>: from \<open>p\<close> the links visit \<open>xs\<close> and end at \<open>q\<close>.\<close>

fun lseg :: "links \<Rightarrow> ptr \<Rightarrow> ptr list \<Rightarrow> ptr \<Rightarrow> bool" where
  "lseg l p [] q \<longleftrightarrow> p = q"
| "lseg l p (x # xs) q \<longleftrightarrow>
     p = x \<and> x \<noteq> NULL \<and> (case l x of None \<Rightarrow> False | Some n \<Rightarrow> lseg l n xs q)"

definition slist :: "slist_head \<Rightarrow> links \<Rightarrow> ptr list \<Rightarrow> bool" where
  "slist head l xs \<longleftrightarrow> lseg l (slh_first head) xs NULL"

lemma lseg_append: "lseg l p (xs @ ys) q \<longleftrightarrow> (\<exists>r. lseg l p xs r \<and> lseg l r ys q)"
  by (induction xs arbitrary: p) (auto split: option.splits)

lemma lseg_upd [simp]: "x \<notin> set xs \<Longrightarrow> lseg (l(x := v)) p xs q = lseg l p xs q"
  by (induction xs arbitrary: p) (auto split: option.splits)

lemma lseg_live: "lseg l p xs q \<Longrightarrow> x \<in> set xs \<Longrightarrow> x \<noteq> NULL \<and> l x \<noteq> None"
  by (induction xs arbitrary: p) (auto split: option.splits)

lemma lseg_unique: "lseg l p xs NULL \<Longrightarrow> lseg l p ys NULL \<Longrightarrow> xs = ys"
proof (induction xs arbitrary: p ys)
  case Nil
  then show ?case by (cases ys) auto
next
  case (Cons x xs)
  then show ?case by (cases ys) (auto split: option.splits)
qed

text \<open>A list that ends at NULL has no cycle.\<close>

lemma lseg_distinct:
  assumes "lseg l p xs NULL"
  shows "distinct xs"
proof (rule ccontr)
  assume "\<not> distinct xs"
  then obtain us vs ws y where xs: "xs = us @ [y] @ vs @ [y] @ ws"
    using not_distinct_decomp by blast
  then have "lseg l y (y # vs @ y # ws) NULL" and "lseg l y (y # ws) NULL"
    using assms by (auto simp: lseg_append split: option.splits)
  then have "y # vs @ y # ws = y # ws" by (rule lseg_unique)
  then show False by simp
qed

lemma slist_Nil [simp]: "slist head l [] \<longleftrightarrow> slh_first head = NULL"
  by (simp add: slist_def)

lemma slist_distinct: "slist head l xs \<Longrightarrow> distinct xs"
  unfolding slist_def by (rule lseg_distinct)

lemma slist_live: "slist head l xs \<Longrightarrow> x \<in> set xs \<Longrightarrow> x \<noteq> NULL \<and> l x \<noteq> None"
  unfolding slist_def by (rule lseg_live)

lemma slist_unique: "slist head l xs \<Longrightarrow> slist head l ys \<Longrightarrow> xs = ys"
  unfolding slist_def by (rule lseg_unique)

lemma slist_upd [simp]: "x \<notin> set xs \<Longrightarrow> slist head (l(x := v)) xs = slist head l xs"
  by (simp add: slist_def)

abbreviation head_ptr :: "ptr list \<Rightarrow> ptr" where
  "head_ptr xs \<equiv> (case xs of [] \<Rightarrow> NULL | x # _ \<Rightarrow> x)"

lemma slist_first: "slist head l xs \<Longrightarrow> slh_first head = head_ptr xs"
  by (cases xs) (simp_all add: slist_def)

lemma slist_next: "slist head l (xs @ x # ys) \<Longrightarrow> l x = Some (head_ptr ys)"
  by (cases ys) (auto simp: slist_def lseg_append split: option.splits)

lemma slist_Cons:
  "slist head l (x # xs) \<longleftrightarrow> slh_first head = x \<and> x \<noteq> NULL \<and>
     (\<exists>n. l x = Some n \<and> lseg l n xs NULL)"
  by (auto simp: slist_def split: option.splits)

section \<open>The operations on the list\<close>

lemma insert_head_slist:
  assumes "slist head l xs" and "x \<in> dom l" and "x \<noteq> NULL" and "x \<notin> set xs"
  shows "SLIST_INSERT_HEAD head l x = Some (head\<lparr>slh_first := x\<rparr>, l(x \<mapsto> slh_first head))"
    and "slist (head\<lparr>slh_first := x\<rparr>) (l(x \<mapsto> slh_first head)) (x # xs)"
  using assms by (auto simp: SLIST_INSERT_HEAD_def set_next_def SLIST_NEXT_def slist_def)

lemma insert_after_slist:
  assumes "slist head l (xs @ x # ys)" and "y \<in> dom l" and "y \<noteq> NULL" and "y \<notin> set (xs @ x # ys)"
  shows "\<exists>l'. SLIST_INSERT_AFTER l x y = Some l' \<and> slist head l' (xs @ x # y # ys) \<and>
    dom l' = dom l \<and> (\<forall>z. z \<noteq> x \<longrightarrow> z \<noteq> y \<longrightarrow> l' z = l z)"
proof -
  have lx: "l x = Some (head_ptr ys)" by (rule slist_next [OF assms(1)])
  have "x \<noteq> NULL" and xs: "x \<notin> set xs" "x \<notin> set ys"
    using slist_live [OF assms(1), of x] slist_distinct [OF assms(1)] by auto
  let ?l = "l(y \<mapsto> head_ptr ys, x \<mapsto> y)"
  have "SLIST_INSERT_AFTER l x y = Some ?l"
    using assms(2-4) lx \<open>x \<noteq> NULL\<close> by (auto simp: SLIST_INSERT_AFTER_def set_next_def SLIST_NEXT_def)
  moreover have "slist head ?l (xs @ x # y # ys)"
    using assms xs lx \<open>x \<noteq> NULL\<close> by (auto simp: slist_def lseg_append)
  moreover have "dom ?l = dom l" using assms(2) lx by auto
  ultimately show ?thesis by (intro exI [of _ ?l]) auto
qed

lemma slist_prev_lseg:
  assumes "lseg l p (xs @ [y]) x" and "x \<notin> set (xs @ [y])"
  shows "slist_prev l x p = Some y"
  using assms
proof (induction xs arbitrary: p)
  case Nil
  then show ?case by (subst slist_prev.simps) (auto simp: SLIST_NEXT_def split: option.splits)
next
  case (Cons z xs)
  then obtain n where n: "p = z" "z \<noteq> NULL" "l z = Some n" "lseg l n (xs @ [y]) x"
    by (auto split: option.splits)
  moreover have "n \<noteq> x" using n(4) Cons.prems(2) by (cases xs) auto
  ultimately show ?case
    using Cons by (subst slist_prev.simps) (simp add: SLIST_NEXT_def)
qed

lemma remove_slist:
  assumes "slist head l xs" and "x \<in> set xs"
  shows "\<exists>head' l'. SLIST_REMOVE head l x = Some (head', l') \<and> slist head' l' (remove1 x xs) \<and>
    dom l' = dom l \<and> l' x = l x"
proof -
  obtain ys zs where xs: "xs = ys @ x # zs" using assms(2) by (metis split_list)
  have dist: "distinct (ys @ x # zs)" using slist_distinct [OF assms(1)] xs by simp
  then have rem: "remove1 x xs = ys @ zs" by (simp add: xs remove1_append)
  have lx: "l x = Some (head_ptr zs)" "x \<noteq> NULL"
    using slist_next assms(1) slist_live [OF assms(1,2)] by (auto simp: xs)
  show ?thesis
  proof (cases ys rule: rev_cases)
    case Nil
    then show ?thesis
      using assms(1) lx rem
      by (auto simp: xs slist_Cons SLIST_REMOVE_def SLIST_REMOVE_HEAD_def SLIST_NEXT_def slist_def)
  next
    case (snoc us y)
    have first: "slh_first head \<noteq> x"
      using slist_first [OF assms(1)] dist by (cases us) (auto simp: xs snoc)
    have seg: "lseg l (slh_first head) (us @ [y]) x" "lseg l (head_ptr zs) zs NULL"
      using assms(1) lx by (auto simp: xs snoc slist_def lseg_append split: option.splits)
    have prev: "slist_prev l x (slh_first head) = Some y"
      using dist by (intro slist_prev_lseg [OF seg(1)]) (auto simp: snoc)
    have ly: "l y = Some x" "y \<noteq> NULL"
      using slist_next [of head l us y "x # zs"] slist_live [OF assms(1), of y] assms(1)
      by (auto simp: xs snoc)
    let ?l = "l(y \<mapsto> head_ptr zs)"
    have "SLIST_REMOVE head l x = Some (head, ?l)"
      using first prev ly lx
      by (simp add: SLIST_REMOVE_def SLIST_REMOVE_AFTER_def SLIST_NEXT_def set_next_def)
    moreover have "slist head ?l (us @ y # zs)"
      using seg dist ly by (auto simp: slist_def lseg_append snoc split: option.splits)
    moreover have "dom ?l = dom l" "?l x = l x" using ly dist by (auto simp: snoc)
    ultimately show ?thesis using rem by (simp add: snoc)
  qed
qed

lemma slist_last_lseg: "lseg l p (xs @ [y]) NULL \<Longrightarrow> slist_last l p = Some y"
proof (induction xs arbitrary: p)
  case Nil
  then show ?case by (subst slist_last.simps) (auto simp: SLIST_NEXT_def split: option.splits)
next
  case (Cons z xs)
  then obtain n where n: "p = z" "z \<noteq> NULL" "l z = Some n" "lseg l n (xs @ [y]) NULL"
    by (auto split: option.splits)
  moreover have "n \<noteq> NULL" using n(4) by (cases xs) auto
  ultimately show ?case
    using Cons.IH by (subst slist_last.simps) (simp add: SLIST_NEXT_def)
qed

lemma concat_slist:
  assumes "slist head1 l xs" and "slist head2 l ys" and "set xs \<inter> set ys = {}"
  shows "\<exists>head1' head2' l'. SLIST_CONCAT head1 head2 l = Some (head1', head2', l') \<and>
    slist head1' l' (xs @ ys) \<and> slist head2' l' [] \<and> dom l' = dom l"
proof (cases "xs = [] \<or> ys = []")
  case True
  with assms show ?thesis
    by (auto simp: SLIST_CONCAT_def SLIST_INIT_def Let_def slist_def dest: slist_first)
next
  case False
  then obtain us y where xs: "xs = us @ [y]" by (cases xs rule: rev_cases) auto
  have seg: "lseg l (slh_first head1) us y" and ly: "l y = Some NULL" "y \<noteq> NULL"
    using assms(1) by (auto simp: xs slist_def lseg_append split: option.splits)
  have last: "slist_last l (slh_first head1) = Some y"
    using assms(1) by (intro slist_last_lseg [of _ _ us]) (simp add: slist_def xs)
  have "y \<notin> set us" "y \<notin> set ys"
    using slist_distinct [OF assms(1)] assms(3) by (auto simp: xs)
  moreover have "slh_first head1 \<noteq> NULL" "slh_first head2 \<noteq> NULL"
    using False assms(1,2) by (auto simp: slist_def neq_Nil_conv)
  ultimately show ?thesis
    using last ly seg assms(2)
    by (auto simp: SLIST_CONCAT_def SLIST_INIT_def set_next_def SLIST_NEXT_def slist_def xs
        lseg_append insert_absorb)
qed

lemma split_after_slist:
  assumes "slist head l (xs @ x # ys)"
  shows "\<exists>rest' l'. SLIST_SPLIT_AFTER A head l x rest = Some (rest', l') \<and>
    slist head l' (xs @ [x]) \<and> slist rest' l' ys"
proof -
  have lx: "l x = Some (head_ptr ys)" "x \<noteq> NULL"
    using slist_next [OF assms] slist_live [OF assms, of x] by auto
  have dist: "x \<notin> set xs" "x \<notin> set ys" using slist_distinct [OF assms] by auto
  have "lseg l (slh_first head) xs x" "lseg l (head_ptr ys) ys NULL"
    using assms lx by (auto simp: slist_def lseg_append)
  moreover from this lx have "SLIST_ASSERT_NONEMPTY A head = Some ()"
    by (cases xs) (auto simp: SLIST_ASSERT_NONEMPTY_def SLIST_EMPTY_def)
  ultimately show ?thesis
    using lx dist
    by (auto simp: SLIST_SPLIT_AFTER_def set_next_def SLIST_NEXT_def slist_def lseg_append)
qed

section \<open>Traversals\<close>

text \<open>What a traversal computes: the body on each element, in order.\<close>

fun visit :: "(ptr \<Rightarrow> 's \<Rightarrow> 's option) \<Rightarrow> ptr list \<Rightarrow> 's \<Rightarrow> 's option" where
  "visit body [] s = Some s"
| "visit body (x # xs) s = do { s' \<leftarrow> body x s; visit body xs s' }"

text \<open>
  With a body that leaves the links alone both loops are a visit of the list that the links
  follow, whatever the body does otherwise.
\<close>

lemma foreach_visit:
  assumes keep: "\<And>x s s'. body x s = Some s' \<Longrightarrow> nx s' = nx s"
    and follow: "\<And>ys x zs. xs = ys @ x # zs \<Longrightarrow> x \<noteq> NULL \<and> nx s x = Some (head_ptr zs)"
  shows "SLIST_FOREACH nx body (head_ptr xs) s = visit body xs s"
    and "SLIST_FOREACH_SAFE nx body (head_ptr xs) s = visit body xs s"
proof -
  have "SLIST_FOREACH nx body (head_ptr xs) s = visit body xs s \<and>
      SLIST_FOREACH_SAFE nx body (head_ptr xs) s = visit body xs s"
    using follow
  proof (induction xs arbitrary: s)
    case Nil
    then show ?case by (simp add: SLIST_FOREACH.simps SLIST_FOREACH_SAFE.simps)
  next
    case (Cons x xs)
    have x: "x \<noteq> NULL" "nx s x = Some (head_ptr xs)" using Cons.prems [of "[]" x xs] by auto
    show ?case
    proof (cases "body x s")
      case None
      with x show ?thesis by (subst SLIST_FOREACH.simps, subst SLIST_FOREACH_SAFE.simps) simp
    next
      case (Some s')
      have "SLIST_FOREACH nx body (head_ptr xs) s' = visit body xs s' \<and>
          SLIST_FOREACH_SAFE nx body (head_ptr xs) s' = visit body xs s'"
        using Cons.prems [of "x # ys" y zs for ys y zs] keep [OF Some] by (intro Cons.IH) auto
      with x Some keep [OF Some] show ?thesis
        by (subst SLIST_FOREACH.simps, subst SLIST_FOREACH_SAFE.simps) simp
    qed
  qed
  then show "SLIST_FOREACH nx body (head_ptr xs) s = visit body xs s"
    and "SLIST_FOREACH_SAFE nx body (head_ptr xs) s = visit body xs s" by auto
qed

section \<open>The contract\<close>

text \<open>
  A list of addresses, its elements linked through memory cells of their own.  \<open>alloc\<close> and
  \<open>forget\<close> are what allocating and freeing an element outside the list does to the cells.
\<close>

locale linked_list =
  fixes rep :: "'l \<Rightarrow> ptr list \<Rightarrow> bool"
    and cells :: "'l \<Rightarrow> ptr set"
    and first :: "'l \<Rightarrow> ptr"
    and nxt :: "'l \<Rightarrow> ptr \<Rightarrow> ptr option"
    and insert_head :: "'l \<Rightarrow> ptr \<Rightarrow> 'l option"
    and remove :: "'l \<Rightarrow> ptr \<Rightarrow> 'l option"
    and alloc :: "'l \<Rightarrow> ptr \<Rightarrow> 'l"
    and forget :: "'l \<Rightarrow> ptr \<Rightarrow> 'l"
  assumes rep_distinct: "rep s xs \<Longrightarrow> distinct xs"
    and rep_cells: "rep s xs \<Longrightarrow> x \<in> set xs \<Longrightarrow> x \<noteq> NULL \<and> x \<in> cells s"
    and rep_first: "rep s xs \<Longrightarrow> first s = head_ptr xs"
    and rep_next: "rep s (xs @ x # ys) \<Longrightarrow> nxt s x = Some (head_ptr ys)"
    and insert_head_rep: "rep s xs \<Longrightarrow> x \<in> cells s \<Longrightarrow> x \<noteq> NULL \<Longrightarrow> x \<notin> set xs \<Longrightarrow>
      \<exists>s'. insert_head s x = Some s' \<and> rep s' (x # xs) \<and> cells s' = cells s"
    and remove_rep: "rep s xs \<Longrightarrow> x \<in> set xs \<Longrightarrow>
      \<exists>s'. remove s x = Some s' \<and> rep s' (remove1 x xs) \<and> cells s' = cells s"
    and alloc_rep: "rep s xs \<Longrightarrow> x \<notin> cells s \<Longrightarrow>
      rep (alloc s x) xs \<and> cells (alloc s x) = insert x (cells s)"
    and forget_rep: "rep s xs \<Longrightarrow> x \<notin> set xs \<Longrightarrow>
      rep (forget s x) xs \<and> cells (forget s x) = cells s - {x}"
begin

text \<open>
  The rule for a safe traversal: \<open>J c ys zs\<close> relates the client's state to the elements already
  visited and those still to visit; the body may take the current element out of the list, as
  long as the later ones stay linked.
\<close>

lemma foreach_safe_rule:
  assumes linked: "\<And>c ys x zs. J c ys (x # zs) \<Longrightarrow> \<exists>ws. rep (get c) (ws @ x # zs)"
    and body: "\<And>c ys x zs. J c ys (x # zs) \<Longrightarrow> \<exists>c'. body x c = Some c' \<and> J c' (ys @ [x]) zs"
    and "J c ys xs"
  shows "\<exists>c'. SLIST_FOREACH_SAFE (\<lambda>c. nxt (get c)) body (head_ptr xs) c = Some c' \<and> J c' (ys @ xs) []"
  using assms(3)
proof (induction xs arbitrary: c ys)
  case Nil
  then show ?case by (simp add: SLIST_FOREACH_SAFE.simps)
next
  case (Cons x xs)
  obtain ws where rep: "rep (get c) (ws @ x # xs)" using linked [OF Cons.prems] by blast
  obtain c' where c': "body x c = Some c'" "J c' (ys @ [x]) xs" using body [OF Cons.prems] by blast
  have "x \<noteq> NULL" "nxt (get c) x = Some (head_ptr xs)"
    using rep_cells [OF rep, of x] rep_next [OF rep] by auto
  with c'(1) Cons.IH [OF c'(2)] show ?case by (subst SLIST_FOREACH_SAFE.simps) simp
qed

text \<open>Traversals with a body that leaves the list alone.\<close>

lemma foreach_rep:
  assumes "rep (get s) xs" and "\<And>x s s'. body x s = Some s' \<Longrightarrow> get s' = get s"
  shows "SLIST_FOREACH (\<lambda>s. nxt (get s)) body (first (get s)) s = visit body xs s"
    and "SLIST_FOREACH_SAFE (\<lambda>s. nxt (get s)) body (first (get s)) s = visit body xs s"
proof -
  have keep: "body x s = Some s' \<Longrightarrow> nxt (get s') = nxt (get s)" for x s s' by (simp add: assms(2))
  have follow: "x \<noteq> NULL \<and> nxt (get s) x = Some (head_ptr zs)" if "xs = ys @ x # zs" for ys x zs
    using that assms(1) rep_cells [OF assms(1), of x] rep_next [of "get s" ys x zs] by simp
  show "SLIST_FOREACH (\<lambda>s. nxt (get s)) body (first (get s)) s = visit body xs s"
    "SLIST_FOREACH_SAFE (\<lambda>s. nxt (get s)) body (first (get s)) s = visit body xs s"
    using foreach_visit [where nx = "\<lambda>s. nxt (get s)" and body = body and xs = xs, OF keep follow]
    by (simp_all add: rep_first [OF assms(1)])
qed

text \<open>Inserting a freshly allocated element, and taking one out and freeing it.\<close>

lemma alloc_insert:
  assumes "rep s xs" and "x \<notin> cells s" and "x \<noteq> NULL"
  shows "\<exists>s'. insert_head (alloc s x) x = Some s' \<and> rep s' (x # xs) \<and> cells s' = insert x (cells s)"
proof -
  have a: "rep (alloc s x) xs" "cells (alloc s x) = insert x (cells s)"
    using alloc_rep [OF assms(1,2)] by auto
  have "x \<notin> set xs" using rep_cells [OF assms(1)] assms(2) by auto
  with insert_head_rep [OF a(1), of x] a(2) assms(3) show ?thesis by auto
qed

lemma remove_forget:
  assumes "rep s xs" and "x \<in> set xs"
  shows "\<exists>s'. remove s x = Some s' \<and> rep (forget s' x) (remove1 x xs) \<and>
    cells (forget s' x) = cells s - {x}"
proof -
  obtain s' where s': "remove s x = Some s'" "rep s' (remove1 x xs)" "cells s' = cells s"
    using remove_rep [OF assms] by blast
  have "x \<notin> set (remove1 x xs)" using rep_distinct [OF assms(1)] by simp
  with s' forget_rep [OF s'(2), of x] show ?thesis by auto
qed

end

interpretation sl: linked_list "\<lambda>(head, l) xs. slist head l xs" "\<lambda>(head, l). dom l"
  "\<lambda>(head, l). SLIST_FIRST head" "\<lambda>(head, l). SLIST_NEXT l"
  "\<lambda>(head, l) x. SLIST_INSERT_HEAD head l x" "\<lambda>(head, l) x. SLIST_REMOVE head l x"
  "\<lambda>(head, l) x. (head, l(x \<mapsto> NULL))" "\<lambda>(head, l) x. (head, l(x := None))"
proof (unfold_locales, goal_cases)
  case (1 s xs)
  then show ?case by (auto intro: slist_distinct)
next
  case (2 s xs x)
  then show ?case using slist_live by (cases s) force
next
  case (3 s xs)
  then show ?case by (auto dest: slist_first)
next
  case (4 s xs x ys)
  then show ?case
    using slist_live [of "fst s" "snd s" "xs @ x # ys" x]
    by (cases s) (auto simp: SLIST_NEXT_def dest: slist_next)
next
  case (5 s xs x)
  then show ?case
    using insert_head_slist [of "fst s" "snd s" xs x] by (cases s) (auto simp: insert_absorb)
next
  case (6 s xs x)
  then show ?case using remove_slist [of "fst s" "snd s" xs x] by (cases s) force
next
  case (7 s xs x)
  then have "x \<notin> set xs" using slist_live [of "fst s" "snd s" xs x] by (cases s) auto
  with 7 show ?case by (cases s) auto
next
  case (8 s xs x)
  then show ?case by (cases s) auto
qed

section \<open>Properties\<close>

text \<open>
  \<open>SLIST_REMOVE\<close> of an element of the list ends, without following a dangling or NULL link,
  and the list is the old one without that element, whether it was the first or not; no
  element gains or loses its link cell.
\<close>

theorem SLIST_REMOVE_removes:
  assumes "slist head l xs" and "x \<in> set xs"
  shows "\<exists>head' l'. SLIST_REMOVE head l x = Some (head', l') \<and> slist head' l' (remove1 x xs) \<and>
    x \<notin> set (remove1 x xs) \<and> dom l' = dom l"
  using remove_slist [OF assms] slist_distinct [OF assms(1)] by auto

definition sample_links :: links where
  "sample_links = [5 \<mapsto> 7, 7 \<mapsto> 2, 2 \<mapsto> 0, 9 \<mapsto> 0]"

lemma sample_slist: "slist \<lparr>slh_first = 5\<rparr> sample_links [5, 7, 2]"
  by (simp add: slist_def sample_links_def)

theorem SLIST_REMOVE_removes_witness:
  "\<exists>head' l'. SLIST_REMOVE \<lparr>slh_first = 5\<rparr> sample_links 7 = Some (head', l') \<and> slist head' l' [5, 2]"
  using SLIST_REMOVE_removes [OF sample_slist, of 7] by auto

text \<open>
  The constructive operations on linked lists: inserting at the head or after an element,
  splitting after an element and concatenating two disjoint lists give the lists one expects.
\<close>

theorem SLIST_list_operations:
  assumes "slist head l (xs @ x # ys)" and "slist head2 l zs"
    and "set (xs @ x # ys) \<inter> set zs = {}"
    and "y \<in> dom l" and "y \<noteq> NULL" and "y \<notin> set (xs @ x # ys)"
  shows "(\<exists>head' l'. SLIST_INSERT_HEAD head l y = Some (head', l') \<and>
      slist head' l' (y # xs @ x # ys)) \<and>
    (\<exists>l'. SLIST_INSERT_AFTER l x y = Some l' \<and> slist head l' (xs @ x # y # ys)) \<and>
    (\<exists>rest' l'. SLIST_SPLIT_AFTER A head l x rest = Some (rest', l') \<and>
      slist head l' (xs @ [x]) \<and> slist rest' l' ys) \<and>
    (\<exists>h1 h2 l'. SLIST_CONCAT head head2 l = Some (h1, h2, l') \<and>
      slist h1 l' (xs @ x # ys @ zs) \<and> SLIST_EMPTY h2)"
proof (intro conjI)
  show "\<exists>head' l'. SLIST_INSERT_HEAD head l y = Some (head', l') \<and> slist head' l' (y # xs @ x # ys)"
    using insert_head_slist [OF assms(1,4,5,6)] by blast
  show "\<exists>l'. SLIST_INSERT_AFTER l x y = Some l' \<and> slist head l' (xs @ x # y # ys)"
    using insert_after_slist [OF assms(1,4,5,6)] by blast
  show "\<exists>rest' l'. SLIST_SPLIT_AFTER A head l x rest = Some (rest', l') \<and>
      slist head l' (xs @ [x]) \<and> slist rest' l' ys"
    by (rule split_after_slist [OF assms(1)])
  show "\<exists>h1 h2 l'. SLIST_CONCAT head head2 l = Some (h1, h2, l') \<and>
      slist h1 l' (xs @ x # ys @ zs) \<and> SLIST_EMPTY h2"
    using concat_slist [OF assms(1-3)] by (auto simp: SLIST_EMPTY_def)
qed

theorem SLIST_list_operations_witness:
  "\<exists>h1 h2 l'. SLIST_CONCAT \<lparr>slh_first = 5\<rparr> \<lparr>slh_first = 9\<rparr> (sample_links(3 \<mapsto> 0)) = Some (h1, h2, l') \<and>
     slist h1 l' [5, 7, 2, 9] \<and> SLIST_EMPTY h2"
  using SLIST_list_operations [of "\<lparr>slh_first = 5\<rparr>" "sample_links(3 \<mapsto> 0)" "[5]" 7 "[2]"
      "\<lparr>slh_first = 9\<rparr>" "[9]" 3]
  by (simp add: slist_def sample_links_def)

end
