(* ===== verification/Server.thy ===== *)
theory Server
  imports Slist
begin

text \<open>
  The socket server of \<open>server/aesdsocket.c\<close>: set-up, the accept loop, the list of connection
  nodes shared with the handler threads, the reaping of finished threads and the signal
  handlers.  \<open>USE_AESD_CHAR_DEVICE\<close>, which the Makefile defines, is an argument where the two
  builds differ.
\<close>

section \<open>Data\<close>

datatype signum = SIGINT | SIGTERM | SIGALRM | Other_signal int

text \<open>
  \<open>struct conn_node\<close>; its link field \<open>nodes.sle_next\<close> is kept in the links of the server's state.
  \<open>thread_id\<close> has no value until \<open>pthread_create\<close> stores one.
\<close>

record conn_node =
  thread_id :: "nat option"
  cli_addr :: nat
  clfd :: int
  finished :: bool

text \<open>
  The state of the server process: \<open>server_running\<close>, the list head of \<open>server_info\<close>, the link
  field and the other fields of the allocated nodes, the threads that are not joined with the
  node each works on and whether it has returned, the open client sockets, and where \<open>main\<close> is.
\<close>

datatype main_pc = At_loop | At_accept | At_shutdown | Exited int

record server =
  server_running :: bool
  conn_node_head :: slist_head
  node_links :: links
  conn_nodes :: "ptr \<rightharpoonup> conn_node"
  threads :: "nat \<rightharpoonup> ptr \<times> bool"
  client_fds :: "int set"
  pc :: main_pc

definition SERVER_PORT :: nat where
  [simp]: "SERVER_PORT = 9000"

section \<open>Signals\<close>

definition signal_handler :: "signum \<Rightarrow> server \<Rightarrow> server" where
  "signal_handler sig s =
     (if sig \<noteq> SIGINT \<and> sig \<noteq> SIGTERM then s else s\<lparr>server_running := False\<rparr>)"

section \<open>Reaping\<close>

text \<open>
  \<open>close\<close> of a client socket that is not open, \<open>free\<close> of a node that is not allocated and
  \<open>pthread_join\<close> of a thread that was joined before have no meaning; \<open>pthread_join\<close> of a thread
  that has not returned waits, which within one step is \<open>None\<close> too.
\<close>

definition close_client :: "int \<Rightarrow> server \<Rightarrow> server option" where
  "close_client fd s =
     (if fd \<in> client_fds s then Some (s\<lparr>client_fds := client_fds s - {fd}\<rparr>) else None)"

definition free_node :: "ptr \<Rightarrow> server \<Rightarrow> server option" where
  "free_node p s = do {
     _ \<leftarrow> conn_nodes s p;
     Some (s\<lparr>conn_nodes := (conn_nodes s)(p := None), node_links := (node_links s)(p := None)\<rparr>)
   }"

definition pthread_join :: "nat \<Rightarrow> server \<Rightarrow> server option" where
  "pthread_join tid s = do {
     (p, returned) \<leftarrow> threads s tid;
     if returned then Some (s\<lparr>threads := (threads s)(tid := None)\<rparr>) else None
   }"

definition slist_remove_node :: "ptr \<Rightarrow> server \<Rightarrow> server option" where
  "slist_remove_node p s = do {
     (head', l') \<leftarrow> SLIST_REMOVE (conn_node_head s) (node_links s) p;
     Some (s\<lparr>conn_node_head := head', node_links := l'\<rparr>)
   }"

definition reap_body :: "ptr \<Rightarrow> server \<times> int \<Rightarrow> (server \<times> int) option" where
  "reap_body cur_node = (\<lambda>(s, reaped_count). do {
     n \<leftarrow> conn_nodes s cur_node;
     if finished n then do {
       tid \<leftarrow> thread_id n;
       s1 \<leftarrow> pthread_join tid s;
       s2 \<leftarrow> slist_remove_node cur_node s1;
       s3 \<leftarrow> free_node cur_node s2;
       Some (s3, reaped_count + 1)
     }
     else Some (s, reaped_count)
   })"

definition reap_threads :: "server \<Rightarrow> (server \<times> int) option" where
  "reap_threads s =
     SLIST_FOREACH_SAFE (\<lambda>(s, c). SLIST_NEXT (node_links s)) reap_body
       (SLIST_FIRST (conn_node_head s)) (s, 0)"

section \<open>Set-up\<close>

text \<open>
  Results of the calls \<open>main\<close> makes before the loop, and the calls themselves, in order.
\<close>

record setup_os =
  socket_result :: int
  bind_result :: int
  daemon_result :: int
  sigaction_result :: "signum \<Rightarrow> int"
  timer_create_result :: int
  timer_settime_result :: int

datatype os_call =
    Call_socket | Call_bind int nat | Call_close int | Call_daemon | Call_sigaction signum
  | Call_timer_create | Call_timer_settime nat nat | Call_listen int nat | Call_unlink

definition server_start :: server where
  "server_start =
     \<lparr>server_running = True, conn_node_head = SLIST_INIT \<lparr>slh_first = NULL\<rparr>, node_links = Map.empty,
      conn_nodes = Map.empty, threads = Map.empty, client_fds = {}, pc = At_loop\<rparr>"

text \<open>
  \<open>main\<close> up to the loop: the calls made and either the exit status or the server's first state.
  Every call that fails ends the process with \<open>EXIT_FAILURE\<close>, but \<open>listen\<close>, whose result \<open>main\<close> ignores.
  What \<open>main\<close> does with the file mutex before (lines 108 to 110) is \<open>main_mutexes\<close> of \<open>File_Host\<close>.
\<close>

definition main_timer :: "bool \<Rightarrow> setup_os \<Rightarrow> os_call list \<times> bool" where
  "main_timer use_char_device os =
     (if use_char_device then ([], True)
      else if sigaction_result os SIGALRM \<noteq> 0 then ([Call_sigaction SIGALRM], False)
      else if timer_create_result os \<noteq> 0 then ([Call_sigaction SIGALRM, Call_timer_create], False)
      else
        ([Call_sigaction SIGALRM, Call_timer_create, Call_timer_settime 10 10],
         timer_settime_result os = 0))"

definition main_signals :: "bool \<Rightarrow> setup_os \<Rightarrow> os_call list \<times> bool" where
  "main_signals use_char_device os =
     (if sigaction_result os SIGINT \<noteq> 0 then ([Call_sigaction SIGINT], False)
      else if sigaction_result os SIGTERM \<noteq> 0
      then ([Call_sigaction SIGINT, Call_sigaction SIGTERM], False)
      else let (calls, ok) = main_timer use_char_device os in
        ([Call_sigaction SIGINT, Call_sigaction SIGTERM] @ calls, ok))"

definition main_setup ::
  "bool \<Rightarrow> setup_os \<Rightarrow> string list \<Rightarrow> os_call list \<times> (int + server)"
where
  "main_setup use_char_device os argv =
     (let argc = length argv; sockfd = socket_result os in
      if argc > 2 then ([], Inl 1)
      else if sockfd < 0 then ([Call_socket], Inl 1)
      else if bind_result os < 0
      then ([Call_socket, Call_bind sockfd SERVER_PORT, Call_close sockfd], Inl 1)
      else
        let daemonize = (argc > 1 \<and> argv ! 1 = ''-d'');
            calls = [Call_socket, Call_bind sockfd SERVER_PORT] @
              (if daemonize then [Call_daemon] else []) in
        if daemonize \<and> daemon_result os < 0 then (calls @ [Call_close sockfd], Inl 1)
        else let (calls', ok) = main_signals use_char_device os in
          if \<not> ok then (calls @ calls', Inl 1)
          else (calls @ calls' @ [Call_listen sockfd 5], Inr server_start))"

section \<open>The accept loop\<close>

text \<open>What the system answers in one iteration of the loop.\<close>

record accept_env =
  accept_result :: int
  accept_EINTR :: bool
  accept_addr :: nat
  malloc_result :: ptr
  pthread_create_result :: "nat option"

definition loop_test :: "server \<Rightarrow> server" where
  "loop_test s = (if server_running s then s\<lparr>pc := At_accept\<rparr> else s\<lparr>pc := At_shutdown\<rparr>)"

text \<open>The node of a new connection, before its thread exists.\<close>

definition new_conn_node :: "accept_env \<Rightarrow> conn_node" where
  "new_conn_node env =
     \<lparr>thread_id = None, cli_addr = accept_addr env, clfd = accept_result env, finished = False\<rparr>"

text \<open>The rest of the loop body once \<open>accept\<close> and \<open>malloc\<close> have succeeded.\<close>

definition start_connection :: "accept_env \<Rightarrow> server \<Rightarrow> server option" where
  "start_connection env s = (let new_node = malloc_result env in do {
     let s1 = s\<lparr>conn_nodes := (conn_nodes s)(new_node \<mapsto> new_conn_node env),
       node_links := (node_links s)(new_node \<mapsto> NULL)\<rparr>;
     (head', l') \<leftarrow> SLIST_INSERT_HEAD (conn_node_head s1) (node_links s1) new_node;
     let s2 = s1\<lparr>conn_node_head := head', node_links := l'\<rparr>;
     case pthread_create_result env of
       None \<Rightarrow> do {
         s3 \<leftarrow> slist_remove_node new_node s2;
         s4 \<leftarrow> free_node new_node s3;
         s5 \<leftarrow> close_client (accept_result env) s4;
         Some (s5\<lparr>pc := At_loop\<rparr>)
       }
     | Some tid \<Rightarrow> do {
         n \<leftarrow> conn_nodes s2 new_node;
         let s3 = s2\<lparr>conn_nodes := (conn_nodes s2)(new_node \<mapsto> n\<lparr>thread_id := Some tid\<rparr>),
           threads := (threads s2)(tid \<mapsto> (new_node, False))\<rparr>;
         (s4, _) \<leftarrow> reap_threads s3;
         Some (s4\<lparr>pc := At_loop\<rparr>)
       }
   })"

definition accept_body :: "accept_env \<Rightarrow> server \<Rightarrow> server option" where
  "accept_body env s =
     (if accept_result env < 0 then
        if accept_EINTR env \<and> \<not> server_running s then Some (s\<lparr>pc := At_shutdown\<rparr>)
        else Some (s\<lparr>pc := At_loop\<rparr>)
      else let s1 = s\<lparr>client_fds := insert (accept_result env) (client_fds s)\<rparr> in
        if malloc_result env = NULL then do {
          s2 \<leftarrow> close_client (accept_result env) s1;
          Some (s2\<lparr>pc := At_loop\<rparr>)
        }
        else start_connection env s1)"

text \<open>
  After the loop: a last reaping, the listening socket is closed, the data file of the build
  without the device is removed (a failure is only logged), and \<open>main\<close> returns 0.
\<close>

definition main_shutdown :: "bool \<Rightarrow> int \<Rightarrow> server \<Rightarrow> (os_call list \<times> server) option" where
  "main_shutdown use_char_device sockfd s = do {
     (s1, _) \<leftarrow> reap_threads s;
     Some (Call_close sockfd # (if use_char_device then [] else [Call_unlink]),
       s1\<lparr>pc := Exited 0\<rparr>)
   }"

text \<open>
  The end of every path of \<open>handle_connection\<close>: the client's socket is closed, the node marked
  and the thread returns.
\<close>

definition conn_finish :: "nat \<Rightarrow> server \<Rightarrow> server option" where
  "conn_finish tid s = do {
     (p, returned) \<leftarrow> threads s tid;
     if returned then None else do {
       n \<leftarrow> conn_nodes s p;
       s1 \<leftarrow> close_client (clfd n) s;
       Some (s1\<lparr>conn_nodes := (conn_nodes s1)(p \<mapsto> n\<lparr>finished := True\<rparr>),
         threads := (threads s1)(tid \<mapsto> (p, True))\<rparr>)
     }
   }"

section \<open>Invariant\<close>

text \<open>
  The allocated nodes are exactly the elements of the list; every node has one unjoined thread,
  which works on it and has returned just when the node is marked; the open client sockets are
  those of the nodes not marked, one each.
\<close>

definition nodes_inv :: "ptr list \<Rightarrow> server \<Rightarrow> bool" where
  "nodes_inv xs s \<longleftrightarrow> slist (conn_node_head s) (node_links s) xs \<and>
     dom (node_links s) = set xs \<and> dom (conn_nodes s) = set xs"

definition thread_inv :: "server \<Rightarrow> bool" where
  "thread_inv s \<longleftrightarrow>
     (\<forall>p n. conn_nodes s p = Some n \<longrightarrow>
        (\<exists>tid. thread_id n = Some tid \<and> threads s tid = Some (p, finished n))) \<and>
     (\<forall>tid p r. threads s tid = Some (p, r) \<longrightarrow>
        (\<exists>n. conn_nodes s p = Some n \<and> thread_id n = Some tid))"

definition open_conns :: "server \<Rightarrow> ptr \<rightharpoonup> int" where
  "open_conns s p = (case conn_nodes s p of None \<Rightarrow> None
     | Some n \<Rightarrow> if finished n then None else Some (clfd n))"

definition fd_inv :: "server \<Rightarrow> bool" where
  "fd_inv s \<longleftrightarrow> ran (open_conns s) = client_fds s \<and> inj_on (open_conns s) (dom (open_conns s))"

definition server_inv :: "server \<Rightarrow> bool" where
  "server_inv s \<longleftrightarrow> (\<exists>xs. nodes_inv xs s) \<and> thread_inv s \<and> fd_inv s"

definition unfinished :: "server \<Rightarrow> ptr \<Rightarrow> bool" where
  "unfinished s p \<longleftrightarrow> p \<in> dom (open_conns s)"

lemma unfinished_iff: "unfinished s p \<longleftrightarrow> (\<exists>n. conn_nodes s p = Some n \<and> \<not> finished n)"
  by (auto simp: unfinished_def open_conns_def split: option.splits if_splits)

text \<open>The threads that work on nodes of a set.\<close>

definition threads_on :: "server \<Rightarrow> ptr set \<Rightarrow> nat \<rightharpoonup> ptr \<times> bool" where
  "threads_on s K tid = (case threads s tid of None \<Rightarrow> None
     | Some (p, r) \<Rightarrow> if p \<in> K then Some (p, r) else None)"

lemma thread_of_node:
  assumes "thread_inv s" and "conn_nodes s p = Some n"
  obtains tid where "thread_id n = Some tid" "threads s tid = Some (p, finished n)"
  using assms unfolding thread_inv_def by blast

lemma node_of_thread:
  assumes "thread_inv s" and "threads s tid = Some (p, r)"
  obtains n where "conn_nodes s p = Some n" "thread_id n = Some tid" "finished n = r"
proof -
  obtain n where n: "conn_nodes s p = Some n" "thread_id n = Some tid"
    using assms unfolding thread_inv_def by blast
  moreover have "finished n = r" using thread_of_node [OF assms(1) n(1)] n(2) assms(2) by auto
  ultimately show ?thesis by (rule that)
qed

section \<open>Reaping is filtering\<close>

lemma remove_free_node:
  assumes "slist (conn_node_head s) (node_links s) (ws @ x # zs)"
    and "dom (node_links s) = set (ws @ x # zs)" and "x \<in> dom (conn_nodes s)"
  shows "\<exists>h l. do { s1 \<leftarrow> slist_remove_node x s; free_node x s1 } =
      Some (s\<lparr>conn_node_head := h, node_links := l, conn_nodes := (conn_nodes s)(x := None)\<rparr>) \<and>
    slist h l (ws @ zs) \<and> dom l = set (ws @ zs)"
proof -
  have dist: "distinct (ws @ x # zs)" by (rule slist_distinct [OF assms(1)])
  obtain h l where hl: "SLIST_REMOVE (conn_node_head s) (node_links s) x = Some (h, l)"
      "slist h (l(x := None)) (remove1 x (ws @ x # zs))" "dom l - {x} = dom (node_links s) - {x}"
    using sl.remove_forget [of "(conn_node_head s, node_links s)" "ws @ x # zs" x] assms(1) by auto
  have "dom (l(x := None)) = set (ws @ zs)" using hl(3) assms(2) dist by auto
  moreover have "remove1 x (ws @ x # zs) = ws @ zs" using dist by (simp add: remove1_append)
  ultimately show ?thesis
    using hl(1,2) assms(3)
    by (intro exI [of _ h] exI [of _ "l(x := None)"])
      (auto simp: slist_remove_node_def free_node_def)
qed

text \<open>The state after the nodes \<open>ys\<close> have been visited and \<open>zs\<close> are left.\<close>

definition reaping :: "server \<Rightarrow> server \<times> int \<Rightarrow> ptr list \<Rightarrow> ptr list \<Rightarrow> bool" where
  "reaping s0 c ys zs \<longleftrightarrow>
     (let kept = filter (unfinished s0) ys @ zs in
      \<exists>h l. c = (s0\<lparr>conn_node_head := h, node_links := l, conn_nodes := conn_nodes s0 |` set kept,
          threads := threads_on s0 (set kept)\<rparr>,
        int (length (filter (\<lambda>p. \<not> unfinished s0 p) ys))) \<and>
      slist h l kept \<and> dom l = set kept) \<and>
     distinct (ys @ zs) \<and> set (ys @ zs) = dom (conn_nodes s0)"

lemma reap_body_step:
  assumes inv: "thread_inv s0" and J: "reaping s0 c ys (x # zs)"
  shows "\<exists>c'. reap_body x c = Some c' \<and> reaping s0 c' (ys @ [x]) zs"
proof -
  let ?ws = "filter (unfinished s0) ys"
  let ?K = "set (?ws @ x # zs)"
  from J obtain h l where c: "c = (s0\<lparr>conn_node_head := h, node_links := l,
      conn_nodes := conn_nodes s0 |` ?K, threads := threads_on s0 ?K\<rparr>,
      int (length (filter (\<lambda>p. \<not> unfinished s0 p) ys)))"
    and sl: "slist h l (?ws @ x # zs)" "dom l = ?K"
    and all: "distinct (ys @ x # zs)" "set (ys @ x # zs) = dom (conn_nodes s0)"
    by (auto simp: reaping_def Let_def)
  from all(2) obtain n where n: "conn_nodes s0 x = Some n" by auto
  show ?thesis
  proof (cases "finished n")
    case False
    then have "unfinished s0 x" using n by (auto simp: unfinished_iff)
    with False n c sl all J show ?thesis
      by (auto simp: reap_body_def reaping_def Let_def)
  next
    case True
    then have x: "\<not> unfinished s0 x" using n by (auto simp: unfinished_iff)
    obtain tid where tid: "thread_id n = Some tid" "threads s0 tid = Some (x, True)"
      using thread_of_node [OF inv n] True by metis
    have one: "threads s0 t = Some (x, r) \<Longrightarrow> t = tid" for t r
      using node_of_thread [OF inv, of t x r] n tid(1) by auto
    let ?K' = "set (?ws @ zs)"
    have K': "?K' = ?K - {x}" using all(1) by auto
    have thr: "(threads_on s0 ?K)(tid := None) = threads_on s0 ?K'"
    proof
      fix t
      show "((threads_on s0 ?K)(tid := None)) t = threads_on s0 ?K' t"
        using one [of t] tid(2) unfolding K'
        by (cases "t = tid") (simp_all add: threads_on_def split: option.split, blast)
    qed
    have nodes: "(conn_nodes s0 |` ?K)(x := None) = conn_nodes s0 |` ?K'"
      unfolding K' by (auto simp: restrict_map_def fun_eq_iff)
    let ?s1 = "s0\<lparr>conn_node_head := h, node_links := l, conn_nodes := conn_nodes s0 |` ?K,
      threads := threads_on s0 ?K'\<rparr>"
    have join: "pthread_join tid (fst c) = Some ?s1"
      using tid(2) thr by (simp add: pthread_join_def c) (simp add: threads_on_def)
    obtain h' l' where rf: "do { s1 \<leftarrow> slist_remove_node x ?s1; free_node x s1 } =
        Some (?s1\<lparr>conn_node_head := h', node_links := l', conn_nodes := (conn_nodes ?s1)(x := None)\<rparr>)"
      "slist h' l' (?ws @ zs)" "dom l' = ?K'"
      using remove_free_node [of ?s1 ?ws x zs] sl n by auto
    have "conn_nodes (fst c) x = Some n" by (simp add: c n)
    then have "reap_body x c = do {
        s2 \<leftarrow> do { s1 \<leftarrow> slist_remove_node x ?s1; free_node x s1 };
        Some (s2, snd c + 1) }"
      using join tid(1) True by (simp add: reap_body_def case_prod_unfold)
    also have "\<dots> = Some (s0\<lparr>conn_node_head := h', node_links := l',
        conn_nodes := conn_nodes s0 |` ?K', threads := threads_on s0 ?K'\<rparr>, snd c + 1)"
      using nodes unfolding rf(1) by simp
    finally show ?thesis
      using rf(2,3) x all by (auto simp: reaping_def Let_def c)
  qed
qed

text \<open>The server after a reaping: the finished nodes and their threads are gone.\<close>

definition reaped :: "server \<Rightarrow> server \<Rightarrow> ptr list \<Rightarrow> bool" where
  "reaped s s' xs \<longleftrightarrow> nodes_inv xs s' \<and>
     conn_nodes s' = conn_nodes s |` Collect (unfinished s) \<and>
     threads s' = threads_on s (Collect (unfinished s)) \<and>
     server_running s' = server_running s \<and> client_fds s' = client_fds s \<and> pc s' = pc s"

lemma reap_threads_reaped:
  assumes "nodes_inv xs s" and "thread_inv s"
  shows "\<exists>s'. reap_threads s = Some (s', int (length (filter (\<lambda>p. \<not> unfinished s p) xs))) \<and>
    reaped s s' (filter (unfinished s) xs)"
proof -
  have sl: "slist (conn_node_head s) (node_links s) xs" "dom (node_links s) = set xs"
      "dom (conn_nodes s) = set xs"
    using assms(1) by (auto simp: nodes_inv_def)
  have "threads_on s (set xs) = threads s"
  proof
    fix tid
    have "threads s tid = Some (p, r) \<Longrightarrow> p \<in> set xs" for p r
      using node_of_thread [OF assms(2), of tid p r] sl(3) by blast
    then show "threads_on s (set xs) tid = threads s tid"
      by (auto simp: threads_on_def split: option.splits)
  qed
  moreover have "conn_nodes s |` set xs = conn_nodes s"
    unfolding sl(3) [symmetric] by (auto simp: restrict_map_def fun_eq_iff domIff)
  moreover have "s = s\<lparr>conn_node_head := conn_node_head s, node_links := node_links s\<rparr>" by (cases s) simp
  ultimately have start: "reaping s (s, 0) [] xs"
    using sl slist_distinct [OF sl(1)] unfolding reaping_def Let_def
    by (intro conjI exI [of _ "conn_node_head s"] exI [of _ "node_links s"]) simp_all
  have "\<exists>c'. SLIST_FOREACH_SAFE
      (\<lambda>c. (\<lambda>(head, l). SLIST_NEXT l) ((\<lambda>(s, c). (conn_node_head s, node_links s)) c))
      reap_body (head_ptr xs) (s, 0) = Some c' \<and> reaping s c' ([] @ xs) []"
  proof (rule sl.foreach_safe_rule [where J = "reaping s"])
    show "\<exists>ws. (\<lambda>(head, l) xs. slist head l xs) ((\<lambda>(s, c). (conn_node_head s, node_links s)) c) (ws @ x # zs)"
      if "reaping s c ys (x # zs)" for c ys x zs
      using that by (auto simp: reaping_def Let_def)
  qed (rule reap_body_step [OF assms(2)], assumption, rule start)
  then obtain c' where c': "SLIST_FOREACH_SAFE (\<lambda>(s, c). SLIST_NEXT (node_links s)) reap_body
      (head_ptr xs) (s, 0) = Some c'" "reaping s c' xs []"
    by (auto simp: case_prod_unfold)
  let ?kept = "filter (unfinished s) xs"
  have kept: "conn_nodes s |` set ?kept = conn_nodes s |` Collect (unfinished s)"
      "threads_on s (set ?kept) = threads_on s (Collect (unfinished s))" "set ?kept \<subseteq> dom (conn_nodes s)"
    using sl(3) by (auto simp: restrict_map_def threads_on_def fun_eq_iff unfinished_iff split: option.splits)
  with c' show ?thesis
    using slist_first [OF sl(1)]
    by (auto simp: reap_threads_def reaping_def reaped_def nodes_inv_def Let_def)
qed

lemma reaped_open_conns: "reaped s s' xs \<Longrightarrow> open_conns s' = open_conns s"
  by (auto simp: reaped_def open_conns_def unfinished_iff restrict_map_def fun_eq_iff
      split: option.splits)

lemma reaped_inv:
  assumes "reaped s s' xs" and "thread_inv s" and "fd_inv s"
  shows "server_inv s'"
proof -
  have "thread_inv s'"
    unfolding thread_inv_def
  proof (intro conjI allI impI)
    fix p n assume "conn_nodes s' p = Some n"
    then have n: "conn_nodes s p = Some n" "unfinished s p"
      using assms(1) by (auto simp: reaped_def restrict_map_def split: if_splits)
    obtain tid where "thread_id n = Some tid" "threads s tid = Some (p, finished n)"
      by (rule thread_of_node [OF assms(2) n(1)])
    with n(2) assms(1) show "\<exists>tid. thread_id n = Some tid \<and> threads s' tid = Some (p, finished n)"
      by (simp add: reaped_def threads_on_def)
  next
    fix tid p r assume "threads s' tid = Some (p, r)"
    then have t: "threads s tid = Some (p, r)" "unfinished s p"
      using assms(1) by (auto simp: reaped_def threads_on_def split: option.splits if_splits)
    obtain n where "conn_nodes s p = Some n" "thread_id n = Some tid"
      by (rule node_of_thread [OF assms(2) t(1)])
    with t(2) assms(1) show "\<exists>n. conn_nodes s' p = Some n \<and> thread_id n = Some tid"
      by (simp add: reaped_def)
  qed
  with assms(1,3) reaped_open_conns [OF assms(1)] show ?thesis
    by (auto simp: server_inv_def fd_inv_def reaped_def)
qed

section \<open>The loop body\<close>

text \<open>What the system guarantees of its answers: descriptors, addresses and thread ids are fresh.\<close>

definition accept_ok :: "accept_env \<Rightarrow> server \<Rightarrow> bool" where
  "accept_ok env s \<longleftrightarrow>
     (0 \<le> accept_result env \<longrightarrow> accept_result env \<notin> client_fds s) \<and>
     (malloc_result env \<noteq> NULL \<longrightarrow> conn_nodes s (malloc_result env) = None) \<and>
     (\<forall>tid. pthread_create_result env = Some tid \<longrightarrow> threads s tid = None)"

lemma insert_node:
  assumes "nodes_inv xs s" and "p \<notin> set xs" and "p \<noteq> NULL"
  shows "SLIST_INSERT_HEAD (conn_node_head s) ((node_links s)(p \<mapsto> NULL)) p =
      Some ((conn_node_head s)\<lparr>slh_first := p\<rparr>, (node_links s)(p \<mapsto> slh_first (conn_node_head s)))"
    and "slist ((conn_node_head s)\<lparr>slh_first := p\<rparr>)
      ((node_links s)(p \<mapsto> slh_first (conn_node_head s))) (p # xs)"
  using insert_head_slist [of "conn_node_head s" "(node_links s)(p \<mapsto> NULL)" xs p] assms
  by (auto simp: nodes_inv_def)

lemma accept_body_failed:
  assumes "nodes_inv xs s" and "accept_ok env s"
    and "accept_result env < 0 \<or> malloc_result env = NULL \<or> pthread_create_result env = None"
  shows "accept_body env s = Some (s\<lparr>pc := if accept_result env < 0 \<and> accept_EINTR env \<and>
    \<not> server_running s then At_shutdown else At_loop\<rparr>)"
proof -
  let ?fd = "accept_result env" and ?p = "malloc_result env"
  show ?thesis
  proof (cases "?fd < 0")
    case True
    then show ?thesis by (simp add: accept_body_def)
  next
    case fd: False
    then have fresh: "?fd \<notin> client_fds s" using assms(2) by (simp add: accept_ok_def)
    have same: "s\<lparr>client_fds := client_fds s, pc := At_loop\<rparr> = s\<lparr>pc := At_loop\<rparr>" by (cases s) simp
    show ?thesis
    proof (cases "?p = NULL")
      case True
      with fd fresh show ?thesis by (simp add: accept_body_def close_client_def same)
    next
      case p: False
      with assms have new: "conn_nodes s ?p = None" "?p \<notin> set xs" "pthread_create_result env = None"
        using fd by (auto simp: accept_ok_def nodes_inv_def)
      have restored: "(node_links s)(?p := None) = node_links s" "(conn_nodes s)(?p := None) = conn_nodes s"
        using new assms(1) by (auto simp: nodes_inv_def fun_upd_idem_iff)
      have "s\<lparr>conn_nodes := conn_nodes s, node_links := node_links s, conn_node_head := conn_node_head s,
          client_fds := client_fds s, pc := At_loop\<rparr> = s\<lparr>pc := At_loop\<rparr>" by (cases s) simp
      with fd fresh p new restored insert_node(1) [OF assms(1) new(2) p] show ?thesis
        by (simp add: accept_body_def start_connection_def Let_def slist_remove_node_def SLIST_REMOVE_def
            SLIST_REMOVE_HEAD_def SLIST_NEXT_def free_node_def close_client_def)
    qed
  qed
qed

text \<open>The state in which the thread of a new connection has just been created.\<close>

definition connected :: "accept_env \<Rightarrow> nat \<Rightarrow> server \<Rightarrow> server" where
  "connected env tid s = (let p = malloc_result env in
     s\<lparr>client_fds := insert (accept_result env) (client_fds s),
       conn_node_head := (conn_node_head s)\<lparr>slh_first := p\<rparr>,
       node_links := (node_links s)(p \<mapsto> slh_first (conn_node_head s)),
       conn_nodes := (conn_nodes s)(p \<mapsto> (new_conn_node env)\<lparr>thread_id := Some tid\<rparr>),
       threads := (threads s)(tid \<mapsto> (p, False))\<rparr>)"

lemma accept_body_connected:
  assumes "nodes_inv xs s" and "accept_ok env s" and "0 \<le> accept_result env"
    and "malloc_result env \<noteq> NULL" and "pthread_create_result env = Some tid"
  shows "accept_body env s = map_option (\<lambda>(t, c). t\<lparr>pc := At_loop\<rparr>) (reap_threads (connected env tid s))"
    and "nodes_inv (malloc_result env # xs) (connected env tid s)"
proof -
  have new: "malloc_result env \<notin> set xs"
    using assms by (auto simp: accept_ok_def nodes_inv_def)
  have "do { (s4, c) \<leftarrow> r; Some (s4\<lparr>pc := At_loop\<rparr>) } = map_option (\<lambda>(t, c). t\<lparr>pc := At_loop\<rparr>) r"
    for r :: "(server \<times> int) option" by (cases r) auto
  with insert_node(1) [OF assms(1) new assms(4)]
  show "accept_body env s = map_option (\<lambda>(t, c). t\<lparr>pc := At_loop\<rparr>) (reap_threads (connected env tid s))"
    using assms by (simp add: accept_body_def start_connection_def Let_def connected_def)
  show "nodes_inv (malloc_result env # xs) (connected env tid s)"
    using insert_node(2) [OF assms(1) new assms(4)] assms(1)
    by (auto simp: nodes_inv_def connected_def Let_def)
qed

lemma connected_thread_inv:
  assumes "thread_inv s" and "accept_ok env s" and "malloc_result env \<noteq> NULL"
    and "pthread_create_result env = Some tid"
  shows "thread_inv (connected env tid s)"
proof -
  have fresh: "conn_nodes s (malloc_result env) = None" "threads s tid = None"
    using assms(2-4) by (auto simp: accept_ok_def)
  show ?thesis
    unfolding thread_inv_def
  proof (intro conjI allI impI)
    fix p n assume n: "conn_nodes (connected env tid s) p = Some n"
    show "\<exists>t. thread_id n = Some t \<and> threads (connected env tid s) t = Some (p, finished n)"
    proof (cases "p = malloc_result env")
      case True
      with n show ?thesis by (auto simp: connected_def Let_def new_conn_node_def)
    next
      case False
      with n have "conn_nodes s p = Some n" by (simp add: connected_def Let_def)
      from thread_of_node [OF assms(1) this]
      obtain t where "thread_id n = Some t" "threads s t = Some (p, finished n)" by blast
      with fresh show ?thesis by (intro exI [of _ t]) (auto simp: connected_def Let_def)
    qed
  next
    fix t p r assume t: "threads (connected env tid s) t = Some (p, r)"
    show "\<exists>n. conn_nodes (connected env tid s) p = Some n \<and> thread_id n = Some t"
    proof (cases "t = tid")
      case True
      with t show ?thesis by (auto simp: connected_def Let_def)
    next
      case False
      with t have "threads s t = Some (p, r)" by (simp add: connected_def Let_def)
      from node_of_thread [OF assms(1) this]
      obtain n where "conn_nodes s p = Some n" "thread_id n = Some t" by blast
      with fresh show ?thesis by (intro exI [of _ n]) (auto simp: connected_def Let_def)
    qed
  qed
qed

lemma fd_inv_upd:
  assumes "open_conns t = (open_conns s)(p \<mapsto> fd)" and "open_conns s p = None"
    and "client_fds t = insert fd (client_fds s)" and "fd \<notin> client_fds s" and "fd_inv s"
  shows "fd_inv t"
proof -
  have "open_conns s q \<noteq> Some fd" for q
    using assms(4,5) by (auto simp: fd_inv_def ran_def)
  then show ?thesis
    using assms(1-3,5) by (auto simp: fd_inv_def inj_on_def)
qed

lemma connected_fd_inv:
  assumes "fd_inv s" and "accept_ok env s" and "0 \<le> accept_result env" and "malloc_result env \<noteq> NULL"
  shows "fd_inv (connected env tid s)"
proof (rule fd_inv_upd [OF _ _ _ _ assms(1)])
  show "open_conns (connected env tid s) = (open_conns s)(malloc_result env \<mapsto> accept_result env)"
    by (auto simp: open_conns_def connected_def Let_def new_conn_node_def fun_eq_iff)
  show "open_conns s (malloc_result env) = None"
    using assms(2,4) by (simp add: open_conns_def accept_ok_def)
  show "client_fds (connected env tid s) = insert (accept_result env) (client_fds s)"
    by (simp add: connected_def Let_def)
  show "accept_result env \<notin> client_fds s" using assms(2,3) by (simp add: accept_ok_def)
qed

lemma server_inv_pc [simp]: "server_inv (s\<lparr>pc := v\<rparr>) = server_inv s"
  by (simp add: server_inv_def nodes_inv_def thread_inv_def fd_inv_def open_conns_def [abs_def])

lemma accept_body_inv:
  assumes "server_inv s" and "accept_ok env s"
  shows "\<exists>t. accept_body env s = Some t \<and> server_inv t"
proof -
  obtain xs where xs: "nodes_inv xs s" and inv: "thread_inv s" "fd_inv s"
    using assms(1) by (auto simp: server_inv_def)
  show ?thesis
  proof (cases "accept_result env < 0 \<or> malloc_result env = NULL \<or> pthread_create_result env = None")
    case True
    then show ?thesis using accept_body_failed [OF xs assms(2)] assms(1) by simp
  next
    case False
    then obtain tid where ok: "0 \<le> accept_result env" "malloc_result env \<noteq> NULL"
        "pthread_create_result env = Some tid" by auto
    note thr = connected_thread_inv [OF inv(1) assms(2) ok(2,3)]
    from reap_threads_reaped [OF accept_body_connected(2) [OF xs assms(2) ok] thr]
    obtain t c where t: "reap_threads (connected env tid s) = Some (t, c)"
      "reaped (connected env tid s) t (filter (unfinished (connected env tid s)) (malloc_result env # xs))"
      by blast
    then have "server_inv t" using reaped_inv thr connected_fd_inv [OF inv(2) assms(2) ok(1,2)] by blast
    with t(1) accept_body_connected(1) [OF xs assms(2) ok] show ?thesis by simp
  qed
qed

section \<open>A connection ends\<close>

lemma conn_finish_eq:
  assumes "server_inv s" and "threads s tid = Some (p, False)"
  obtains n where "conn_nodes s p = Some n" "thread_id n = Some tid" "\<not> finished n"
    "clfd n \<in> client_fds s"
    "conn_finish tid s = Some (s\<lparr>client_fds := client_fds s - {clfd n},
      conn_nodes := (conn_nodes s)(p \<mapsto> n\<lparr>finished := True\<rparr>),
      threads := (threads s)(tid \<mapsto> (p, True))\<rparr>)"
proof -
  have inv: "thread_inv s" "fd_inv s" using assms(1) by (auto simp: server_inv_def)
  obtain n where n: "conn_nodes s p = Some n" "thread_id n = Some tid" "finished n = False"
    by (rule node_of_thread [OF inv(1) assms(2)])
  then have "open_conns s p = Some (clfd n)" by (simp add: open_conns_def)
  then have "clfd n \<in> client_fds s" using inv(2) by (auto simp: fd_inv_def intro: ranI)
  with n assms(2) that show ?thesis by (simp add: conn_finish_def close_client_def)
qed

lemma conn_finish_inv:
  assumes "server_inv s" and "conn_finish tid s = Some t"
  shows "server_inv t"
proof -
  obtain p where p: "threads s tid = Some (p, False)"
    using assms(2) by (auto simp: conn_finish_def split: Option.bind_splits if_splits)
  obtain n where n: "conn_nodes s p = Some n" "thread_id n = Some tid" "\<not> finished n"
    and t: "t = s\<lparr>client_fds := client_fds s - {clfd n},
      conn_nodes := (conn_nodes s)(p \<mapsto> n\<lparr>finished := True\<rparr>),
      threads := (threads s)(tid \<mapsto> (p, True))\<rparr>"
    using conn_finish_eq [OF assms(1) p] assms(2) by auto
  obtain xs where xs: "nodes_inv xs s" and thr: "thread_inv s" and fds: "fd_inv s"
    using assms(1) by (auto simp: server_inv_def)
  have "nodes_inv xs t" using xs n(1) by (auto simp: nodes_inv_def t)
  moreover have "thread_inv t"
    unfolding thread_inv_def
  proof (intro conjI allI impI)
    fix q m assume m: "conn_nodes t q = Some m"
    show "\<exists>u. thread_id m = Some u \<and> threads t u = Some (q, finished m)"
    proof (cases "q = p")
      case True
      with m n(2) show ?thesis by (auto simp: t)
    next
      case False
      with m have "conn_nodes s q = Some m" by (simp add: t)
      from thread_of_node [OF thr this]
      obtain u where "thread_id m = Some u" "threads s u = Some (q, finished m)" by blast
      with False p show ?thesis by (intro exI [of _ u]) (auto simp: t)
    qed
  next
    fix u q r assume u: "threads t u = Some (q, r)"
    then have "\<exists>r'. threads s u = Some (q, r')" using p by (auto simp: t split: if_splits)
    with node_of_thread [OF thr] obtain m where "conn_nodes s q = Some m" "thread_id m = Some u"
      by metis
    with n show "\<exists>m. conn_nodes t q = Some m \<and> thread_id m = Some u" by (auto simp: t)
  qed
  moreover have "fd_inv t"
  proof -
    have oc: "open_conns t = (open_conns s)(p := None)" "open_conns s p = Some (clfd n)"
      using n by (auto simp: open_conns_def t fun_eq_iff)
    have only: "q = p" if "open_conns s q = Some (clfd n)" for q
      using fds oc(2) that by (auto simp: fd_inv_def inj_on_def dom_def)
    have "ran ((open_conns s)(p := None)) = ran (open_conns s) - {clfd n}"
      using oc(2) by (auto simp: ran_def dest: only) (metis option.inject)
    moreover have "inj_on ((open_conns s)(p := None)) (dom ((open_conns s)(p := None)))"
      using fds by (auto simp: fd_inv_def inj_on_def)
    ultimately show ?thesis using fds oc(1) by (simp add: fd_inv_def t)
  qed
  ultimately show ?thesis by (auto simp: server_inv_def)
qed

section \<open>The server as a transition system\<close>

datatype slabel =
    S_signal signum
  | S_finish nat
  | S_loop
  | S_accept accept_env
  | S_shutdown bool int "os_call list"

text \<open>
  \<open>signal_handler\<close> runs and connections end at any time; \<open>main\<close> alternates between the loop's test and its
  body until it leaves the loop.  Which signals reach the handler is in \<open>Server_Signals\<close>.
\<close>

inductive server_step :: "server \<Rightarrow> slabel \<Rightarrow> server \<Rightarrow> bool" where
  s_signal: "server_step s (S_signal sig) (signal_handler sig s)"
| s_finish: "conn_finish tid s = Some t \<Longrightarrow> server_step s (S_finish tid) t"
| s_loop: "pc s = At_loop \<Longrightarrow> server_step s S_loop (loop_test s)"
| s_accept: "pc s = At_accept \<Longrightarrow> accept_ok env s \<Longrightarrow> accept_body env s = Some t \<Longrightarrow>
    server_step s (S_accept env) t"
| s_shutdown: "pc s = At_shutdown \<Longrightarrow> main_shutdown use_char_device sockfd s = Some (calls, t) \<Longrightarrow>
    server_step s (S_shutdown use_char_device sockfd calls) t"

inductive_cases server_signal_cases: "server_step s (S_signal sig) t"
inductive_cases server_loop_cases: "server_step s S_loop t"
inductive_cases server_accept_cases: "server_step s (S_accept env) t"

definition server_init :: "server \<Rightarrow> bool" where
  "server_init s \<longleftrightarrow> (\<exists>use_char_device os argv. snd (main_setup use_char_device os argv) = Inr s)"

lemma server_start_inv: "server_inv server_start"
  by (auto simp: server_inv_def server_start_def nodes_inv_def thread_inv_def fd_inv_def
      open_conns_def SLIST_INIT_def inj_on_def ran_def intro!: exI [of _ "[]"])

lemma server_init_start: "server_init s \<Longrightarrow> s = server_start"
  by (auto simp: server_init_def main_setup_def Let_def split: if_splits prod.splits)

lemma server_inv_running [simp]: "server_inv (s\<lparr>server_running := v\<rparr>) = server_inv s"
  by (simp add: server_inv_def nodes_inv_def thread_inv_def fd_inv_def open_conns_def [abs_def])

lemma main_shutdown_reaped:
  assumes "server_inv s"
  shows "\<exists>xs t. nodes_inv xs s \<and> main_shutdown use_char_device sockfd s =
      Some (Call_close sockfd # (if use_char_device then [] else [Call_unlink]), t\<lparr>pc := Exited 0\<rparr>) \<and>
    reaped s t (filter (unfinished s) xs) \<and> server_inv t"
proof -
  obtain xs where xs: "nodes_inv xs s" and inv: "thread_inv s" "fd_inv s"
    using assms by (auto simp: server_inv_def)
  obtain t c where t: "reap_threads s = Some (t, c)" "reaped s t (filter (unfinished s) xs)"
    using reap_threads_reaped [OF xs inv(1)] by blast
  with xs reaped_inv [OF t(2) inv] show ?thesis
    by (intro exI [of _ xs] exI [of _ t]) (simp add: main_shutdown_def)
qed

lemma server_step_inv:
  assumes "server_inv s" and "server_step s l t"
  shows "server_inv t"
  using assms(2)
proof cases
  case (s_signal sig)
  with assms(1) show ?thesis by (simp add: signal_handler_def)
next
  case (s_finish tid)
  with assms(1) show ?thesis by (auto intro: conn_finish_inv)
next
  case s_loop
  with assms(1) show ?thesis by (simp add: loop_test_def)
next
  case (s_accept env)
  with accept_body_inv [OF assms(1), of env] show ?thesis by auto
next
  case (s_shutdown use_char_device sockfd calls)
  with main_shutdown_reaped [OF assms(1), of use_char_device sockfd] show ?thesis by auto
qed

interpretation srv: invariant_system server_init server_step server_inv
  by unfold_locales (auto simp: server_start_inv dest: server_init_start server_step_inv)

section \<open>Properties\<close>

text \<open>A server with three connections, the first of which has ended.\<close>

definition sample_env :: "nat \<Rightarrow> accept_env" where
  "sample_env i = \<lparr>accept_result = int i + 4, accept_EINTR = False, accept_addr = 100 + i,
     malloc_result = 10 + i, pthread_create_result = Some (20 + i)\<rparr>"

definition sample_accept :: "nat \<Rightarrow> server \<Rightarrow> server" where
  "sample_accept i s = the (accept_body (sample_env i) (loop_test s))"

definition sample_server :: server where
  "sample_server = the (conn_finish 20 (sample_accept 2 (sample_accept 1 (sample_accept 0 server_start))))"

lemma sample_accept_reach:
  assumes "reach server_init server_step s" and "pc s = At_loop" and "server_running s"
    and "accept_ok (sample_env i) s"
  shows "reach server_init server_step (sample_accept i s)"
proof -
  have pc: "pc (loop_test s) = At_accept" "accept_ok (sample_env i) (loop_test s)"
    using assms(2-4) by (auto simp: loop_test_def accept_ok_def)
  have r1: "reach server_init server_step (loop_test s)"
    using assms(1) s_loop [OF assms(2)] by (auto intro: reach.intros)
  obtain t where t: "accept_body (sample_env i) (loop_test s) = Some t"
    using accept_body_inv [OF srv.reach_inv [OF r1] pc(2)] by blast
  then have "server_step (loop_test s) (S_accept (sample_env i)) t" by (rule s_accept [OF pc])
  with r1 t show ?thesis by (auto simp: sample_accept_def intro: reach.intros)
qed

lemma sample_setup:
  "snd (main_setup True \<lparr>socket_result = 3, bind_result = 0, daemon_result = 0,
     sigaction_result = (\<lambda>_. 0), timer_create_result = 0, timer_settime_result = 0\<rparr>
     [''aesdsocket'', ''-d'']) = Inr server_start"
  by (simp add: main_setup_def main_signals_def main_timer_def)

lemma sample_server_reach: "reach server_init server_step sample_server"
proof -
  have "server_init server_start" unfolding server_init_def using sample_setup by blast
  then have r0: "reach server_init server_step server_start" by (rule reach.intros)
  have r1: "reach server_init server_step (sample_accept 0 server_start)"
    by (rule sample_accept_reach [OF r0])
      (simp_all add: server_start_def accept_ok_def sample_env_def)
  have s1: "pc (sample_accept 0 server_start) = At_loop" "server_running (sample_accept 0 server_start)"
      "accept_ok (sample_env 1) (sample_accept 0 server_start)"
    by (code_simp, code_simp, simp add: accept_ok_def sample_env_def, code_simp)
  have r2: "reach server_init server_step (sample_accept 1 (sample_accept 0 server_start))"
    by (rule sample_accept_reach [OF r1 s1])
  have s2: "pc (sample_accept 1 (sample_accept 0 server_start)) = At_loop"
      "server_running (sample_accept 1 (sample_accept 0 server_start))"
      "accept_ok (sample_env 2) (sample_accept 1 (sample_accept 0 server_start))"
    by (code_simp, code_simp, simp add: accept_ok_def sample_env_def, code_simp)
  have r3: "reach server_init server_step (sample_accept 2 (sample_accept 1 (sample_accept 0 server_start)))"
    by (rule sample_accept_reach [OF r2 s2])
  have "threads (sample_accept 2 (sample_accept 1 (sample_accept 0 server_start))) 20 = Some (10, False)"
    by code_simp
  from conn_finish_eq [OF srv.reach_inv [OF r3] this]
  obtain t where "conn_finish 20 (sample_accept 2 (sample_accept 1 (sample_accept 0 server_start))) = Some t"
    by blast
  with s_finish [OF this] r3 show ?thesis by (auto simp: sample_server_def intro: reach.intros)
qed

lemma sample_server_nodes: "nodes_inv [12, 11, 10] sample_server"
proof -
  obtain xs where xs: "nodes_inv xs sample_server"
    using srv.reach_inv [OF sample_server_reach] by (auto simp: server_inv_def)
  have "slist (conn_node_head sample_server) (node_links sample_server) [12, 11, 10]" by code_simp
  with xs slist_unique show ?thesis by (fastforce simp: nodes_inv_def)
qed

text \<open>
  (C13) \<open>reap_threads\<close> ends and takes exactly the finished connections out: each of their threads is
  joined once and each of their nodes unlinked and freed once, while the traversal goes on past
  freed nodes; the other connections keep their order, nodes and threads.  The result is the
  number of finished ones.
\<close>

theorem reap_threads_filters:
  assumes "nodes_inv xs s" and "thread_inv s"
  shows "\<exists>s'. reap_threads s = Some (s', int (length (filter (\<lambda>p. \<not> unfinished s p) xs))) \<and>
    nodes_inv (filter (unfinished s) xs) s' \<and>
    conn_nodes s' = conn_nodes s |` Collect (unfinished s) \<and>
    threads s' = threads_on s (Collect (unfinished s)) \<and>
    client_fds s' = client_fds s \<and> server_running s' = server_running s"
  using reap_threads_reaped [OF assms] by (auto simp: reaped_def)

theorem reap_threads_filters_witness:
  "\<exists>s'. reap_threads sample_server = Some (s', 1) \<and> nodes_inv [12, 11] s'"
proof -
  have "unfinished sample_server 12" "unfinished sample_server 11" "\<not> unfinished sample_server 10"
    unfolding unfinished_def domIff by code_simp+
  then show ?thesis
    using reap_threads_filters [OF sample_server_nodes] srv.reach_inv [OF sample_server_reach]
    by (auto simp: server_inv_def)
qed

text \<open>
  (C9) In every reachable state of the server, under any interleaving of signals, ending
  connections and iterations of the loop: the node of a connection whose thread has not
  returned is still allocated and its socket still open; every allocated node is in the
  list once and belongs to exactly one unjoined thread; every open client socket belongs to a
  connection.
\<close>

theorem server_reachable_safe:
  assumes "reach server_init server_step s"
  shows "(\<forall>tid p. threads s tid = Some (p, False) \<longrightarrow>
      (\<exists>n. conn_nodes s p = Some n \<and> thread_id n = Some tid \<and> \<not> finished n \<and> clfd n \<in> client_fds s)) \<and>
    (\<exists>xs. slist (conn_node_head s) (node_links s) xs \<and> distinct xs \<and> set xs = dom (conn_nodes s)) \<and>
    (\<forall>p \<in> dom (conn_nodes s). \<exists>!tid. \<exists>r. threads s tid = Some (p, r)) \<and>
    (\<forall>fd \<in> client_fds s. \<exists>p n. conn_nodes s p = Some n \<and> \<not> finished n \<and> clfd n = fd)"
proof -
  have inv: "server_inv s" by (rule srv.reach_inv [OF assms])
  then obtain xs where xs: "nodes_inv xs s" and thr: "thread_inv s" and fds: "fd_inv s"
    by (auto simp: server_inv_def)
  have "\<exists>n. conn_nodes s p = Some n \<and> thread_id n = Some tid \<and> \<not> finished n \<and> clfd n \<in> client_fds s"
    if "threads s tid = Some (p, False)" for tid p
    using conn_finish_eq [OF inv that] by blast
  moreover have "\<exists>xs. slist (conn_node_head s) (node_links s) xs \<and> distinct xs \<and> set xs = dom (conn_nodes s)"
    using xs slist_distinct by (auto simp: nodes_inv_def)
  moreover have "\<exists>!tid. \<exists>r. threads s tid = Some (p, r)" if p: "p \<in> dom (conn_nodes s)" for p
  proof -
    from p obtain n where n: "conn_nodes s p = Some n" by blast
    obtain tid where tid: "thread_id n = Some tid" "threads s tid = Some (p, finished n)"
      by (rule thread_of_node [OF thr n])
    moreover have "u = tid" if "threads s u = Some (p, r)" for u r
      using node_of_thread [OF thr that] n tid(1) by auto
    ultimately show ?thesis by blast
  qed
  moreover have "\<exists>p n. conn_nodes s p = Some n \<and> \<not> finished n \<and> clfd n = fd" if "fd \<in> client_fds s" for fd
  proof -
    from that fds obtain p where "open_conns s p = Some fd" by (auto simp: fd_inv_def ran_def)
    then show ?thesis by (auto simp: open_conns_def split: option.splits if_splits)
  qed
  ultimately show ?thesis by blast
qed

theorem server_reachable_safe_witness:
  "\<exists>n. conn_nodes sample_server 11 = Some n \<and> thread_id n = Some 21 \<and> \<not> finished n \<and>
     clfd n \<in> client_fds sample_server"
proof -
  have "threads sample_server 21 = Some (11, False)" by code_simp
  then show ?thesis using server_reachable_safe [OF sample_server_reach] by blast
qed

text \<open>
  Nothing the server does is undefined or stuck: in every reachable state the body of the
  loop returns whatever \<open>accept\<close>, \<open>malloc\<close> and \<open>pthread_create\<close> answer, the shutdown returns, and a
  running connection can end.
\<close>

theorem server_operations_return:
  assumes "reach server_init server_step s" and "accept_ok env s"
  shows "accept_body env s \<noteq> None \<and> reap_threads s \<noteq> None \<and>
    main_shutdown use_char_device sockfd s \<noteq> None \<and>
    (\<forall>tid p. threads s tid = Some (p, False) \<longrightarrow> conn_finish tid s \<noteq> None)"
proof -
  have inv: "server_inv s" by (rule srv.reach_inv [OF assms(1)])
  have "main_shutdown use_char_device sockfd s \<noteq> None"
    using main_shutdown_reaped [OF inv, of use_char_device sockfd] by auto
  moreover from this have "reap_threads s \<noteq> None"
    by (cases "reap_threads s") (simp_all add: main_shutdown_def)
  moreover have "accept_body env s \<noteq> None" using accept_body_inv [OF inv assms(2)] by auto
  moreover have "conn_finish tid s \<noteq> None" if "threads s tid = Some (p, False)" for tid p
    using conn_finish_eq [OF inv that] by blast
  ultimately show ?thesis by blast
qed

theorem server_operations_return_witness:
  "accept_body (sample_env 3) sample_server \<noteq> None \<and> main_shutdown True 3 sample_server \<noteq> None"
proof -
  have "accept_ok (sample_env 3) sample_server"
    by (simp add: accept_ok_def sample_env_def) code_simp
  then show ?thesis
    using server_operations_return [OF sample_server_reach, of "sample_env 3" True 3] by blast
qed

text \<open>
  (C32) An iteration that fails leaves no trace: when \<open>accept\<close>, \<open>malloc\<close> or \<open>pthread_create\<close> fails the
  socket is closed, the node unlinked and freed, and the state is the old one, with \<open>main\<close> back at
  the loop's test, or past the loop when \<open>accept\<close> was interrupted during a shutdown.
\<close>

theorem accept_failure_restores:
  assumes "reach server_init server_step s" and "accept_ok env s"
    and "accept_result env < 0 \<or> malloc_result env = NULL \<or> pthread_create_result env = None"
  shows "accept_body env s = Some (s\<lparr>pc := if accept_result env < 0 \<and> accept_EINTR env \<and>
    \<not> server_running s then At_shutdown else At_loop\<rparr>)"
  using srv.reach_inv [OF assms(1)] accept_body_failed [OF _ assms(2,3)] by (auto simp: server_inv_def)

theorem accept_failure_restores_witness:
  "accept_body ((sample_env 3)\<lparr>pthread_create_result := None\<rparr>) sample_server =
     Some (sample_server\<lparr>pc := At_loop\<rparr>)"
proof -
  have "accept_ok ((sample_env 3)\<lparr>pthread_create_result := None\<rparr>) sample_server"
    by (simp add: accept_ok_def sample_env_def) code_simp
  then show ?thesis
    using accept_failure_restores [OF sample_server_reach, of "(sample_env 3)\<lparr>pthread_create_result := None\<rparr>"]
    by (simp add: sample_env_def)
qed

text \<open>How far \<open>main\<close> is from its exit, and what the body of the loop leaves alone.\<close>

fun main_rank :: "main_pc \<Rightarrow> nat" where
  "main_rank At_accept = 3"
| "main_rank At_loop = 2"
| "main_rank At_shutdown = 1"
| "main_rank (Exited r) = 0"

lemma accept_body_frame:
  assumes "server_inv s" and "accept_ok env s" and "accept_body env s = Some t"
  shows "server_running t = server_running s \<and> (pc t = At_loop \<or> pc t = At_shutdown)"
proof -
  obtain xs where xs: "nodes_inv xs s" and inv: "thread_inv s" using assms(1) by (auto simp: server_inv_def)
  show ?thesis
  proof (cases "accept_result env < 0 \<or> malloc_result env = NULL \<or> pthread_create_result env = None")
    case True
    with assms(3) show ?thesis by (auto simp: accept_body_failed [OF xs assms(2)] split: if_splits)
  next
    case False
    then obtain tid where ok: "0 \<le> accept_result env" "malloc_result env \<noteq> NULL"
        "pthread_create_result env = Some tid" by auto
    have "\<exists>u c. reap_threads (connected env tid s) = Some (u, c) \<and> server_running u = server_running s"
      using reap_threads_reaped [OF accept_body_connected(2) [OF xs assms(2) ok]
          connected_thread_inv [OF inv assms(2) ok(2,3)]]
      by (auto simp: reaped_def connected_def Let_def)
    with assms(3) show ?thesis by (auto simp: accept_body_connected(1) [OF xs assms(2) ok])
  qed
qed

text \<open>
  Of the signals that the handler runs for, \<open>SIGINT\<close> and \<open>SIGTERM\<close> stop the server; once stopped it stays
  stopped, and every step of \<open>main\<close> then brings it nearer to its exit: at most one more body of the
  loop, the test, the shutdown.  When \<open>main\<close> takes these steps is in \<open>Server_Signals\<close>.
\<close>

theorem server_stops:
  assumes "reach server_init server_step s" and "server_step s l t"
  shows "(\<forall>sig. l = S_signal sig \<longrightarrow>
      server_running t = (server_running s \<and> sig \<noteq> SIGINT \<and> sig \<noteq> SIGTERM)) \<and>
    (\<not> server_running s \<longrightarrow> \<not> server_running t \<and> main_rank (pc t) \<le> main_rank (pc s) \<and>
      (main_rank (pc t) = main_rank (pc s) \<longrightarrow> (\<exists>sig. l = S_signal sig) \<or> (\<exists>tid. l = S_finish tid)))"
  using assms(2)
proof cases
  case (s_signal sig)
  then show ?thesis by (auto simp: signal_handler_def)
next
  case (s_finish tid)
  then show ?thesis
    by (auto simp: conn_finish_def close_client_def split: Option.bind_splits if_splits)
next
  case s_loop
  then show ?thesis by (auto simp: loop_test_def)
next
  case (s_accept env)
  with accept_body_frame [OF srv.reach_inv [OF assms(1)] s_accept(3,4)] show ?thesis by auto
next
  case (s_shutdown use_char_device sockfd calls)
  with main_shutdown_reaped [OF srv.reach_inv [OF assms(1)], of use_char_device sockfd]
  show ?thesis by (auto simp: reaped_def)
qed

theorem server_stops_witness:
  "\<not> server_running (signal_handler SIGTERM sample_server)"
  using server_stops [OF sample_server_reach s_signal, of SIGTERM] by simp

text \<open>
  (C31) At shutdown \<open>main\<close> returns 0 after joining the connections that have already ended only:
  a connection still running is neither waited for nor joined, and its node is not freed.
\<close>

theorem shutdown_abandons_running:
  assumes "reach server_init server_step s"
  shows "\<exists>calls t. main_shutdown use_char_device sockfd s = Some (calls, t) \<and> pc t = Exited 0 \<and>
    calls = Call_close sockfd # (if use_char_device then [] else [Call_unlink]) \<and>
    (\<forall>tid p. threads t tid = Some (p, False) \<longleftrightarrow> threads s tid = Some (p, False)) \<and>
    (\<forall>tid p. threads t tid \<noteq> Some (p, True)) \<and>
    (\<forall>p n. conn_nodes t p = Some n \<longleftrightarrow> conn_nodes s p = Some n \<and> \<not> finished n)"
proof -
  have inv: "server_inv s" by (rule srv.reach_inv [OF assms])
  then have thr: "thread_inv s" by (simp add: server_inv_def)
  have ret: "unfinished s p \<longleftrightarrow> \<not> r" if t: "threads s tid = Some (p, r)" for tid p r
  proof -
    obtain n where "conn_nodes s p = Some n" "finished n = r" by (rule node_of_thread [OF thr t])
    then show ?thesis by (simp add: unfinished_iff)
  qed
  obtain t where t: "main_shutdown use_char_device sockfd s =
      Some (Call_close sockfd # (if use_char_device then [] else [Call_unlink]), t\<lparr>pc := Exited 0\<rparr>)"
    and thr': "threads t = threads_on s (Collect (unfinished s))"
    and nodes: "conn_nodes t = conn_nodes s |` Collect (unfinished s)"
    using main_shutdown_reaped [OF inv, of use_char_device sockfd] by (auto simp: reaped_def)
  have "threads t tid = Some (p, r) \<longleftrightarrow> threads s tid = Some (p, r) \<and> \<not> r" for tid p r
    using ret [of tid p r] unfolding thr' threads_on_def
    by (cases "threads s tid") (simp_all add: split_def prod_eq_iff, blast)
  moreover have "conn_nodes t p = Some n \<longleftrightarrow> conn_nodes s p = Some n \<and> \<not> finished n" for p n
    by (auto simp: nodes restrict_map_def unfinished_iff)
  ultimately show ?thesis using t by simp
qed

theorem shutdown_abandons_running_witness:
  "\<exists>calls t. main_shutdown True 3 sample_server = Some (calls, t) \<and> pc t = Exited 0 \<and>
     threads t 21 = Some (11, False)"
proof -
  have "threads sample_server 21 = Some (11, False)" by code_simp
  then show ?thesis using shutdown_abandons_running [OF sample_server_reach, of True 3] by blast
qed

text \<open>
  The set-up of \<open>main\<close>.  It reaches the loop exactly when there is at most one argument and every call
  up to \<open>listen\<close> succeeds; \<open>listen\<close> is called exactly then, and its result is not looked at.  Otherwise it
  exits with status 1.  The process becomes a daemon only for \<open>-d\<close>, after the socket has been bound.
\<close>

lemma main_setup_outcome:
  "case main_setup use_char_device os argv of (calls, result) \<Rightarrow>
     (result = Inr server_start \<or> result = Inl 1) \<and>
     (result = Inr server_start \<longleftrightarrow>
        length argv \<le> 2 \<and> 0 \<le> socket_result os \<and> 0 \<le> bind_result os \<and>
        (length argv = 2 \<and> argv ! 1 = ''-d'' \<longrightarrow> 0 \<le> daemon_result os) \<and>
        sigaction_result os SIGINT = 0 \<and> sigaction_result os SIGTERM = 0 \<and>
        (use_char_device \<or> sigaction_result os SIGALRM = 0 \<and> timer_create_result os = 0 \<and>
          timer_settime_result os = 0)) \<and>
     (Call_listen (socket_result os) 5 \<in> set calls \<longleftrightarrow> result = Inr server_start) \<and>
     (Call_daemon \<in> set calls \<longrightarrow> length argv = 2 \<and> argv ! 1 = ''-d'' \<and>
        take 3 calls = [Call_socket, Call_bind (socket_result os) 9000, Call_daemon])"
  by (auto simp: main_setup_def main_signals_def main_timer_def Let_def)

end
