(* ===== verification/Handler.thy ===== *)
theory Handler
  imports Char_Driver
begin

text \<open>
  The connection handler of \<open>server/handler.c\<close>: receiving, collecting a packet in a growing
  buffer, the seek command, appending a packet to the device and sending the device's contents
  back.  The system calls are the record \<open>hapi\<close>, over a world of any type; user memory is a heap
  of blocks, so that every access is checked.
\<close>

section \<open>Data and the system interface\<close>

definition BUFFER_SIZE :: nat where
  [simp]: "BUFFER_SIZE = 1024"

definition SEEKTO :: string where
  "SEEKTO = ''AESDCHAR_IOCSEEKTO:''"

abbreviation nul :: byte where
  "nul \<equiv> CHR 0x00"

text \<open>
  Results of the system calls in a world: None is undefined behaviour in the called code.
  \<open>sys_read\<close> gives the bytes read, or None where \<open>read\<close> returns -1; the descriptor results and
  those of \<open>sys_write\<close>, \<open>sys_send\<close> and \<open>sys_ioctl\<close> are the C values.  \<open>libc_int\<close> is what \<open>sscanf\<close> stores
  for a \<open>%d\<close> with that value.  The mutex is the one of the build without the device.
\<close>

record 'w hapi =
  sys_open_rdonly :: "'w \<Rightarrow> (int \<times> 'w) option"
  sys_open_append :: "'w \<Rightarrow> (int \<times> 'w) option"
  sys_read :: "'w \<Rightarrow> int \<Rightarrow> nat \<Rightarrow> (byte list option \<times> 'w) option"
  sys_write :: "'w \<Rightarrow> int \<Rightarrow> byte list \<Rightarrow> (int \<times> 'w) option"
  sys_ioctl :: "'w \<Rightarrow> int \<Rightarrow> aesd_seekto \<Rightarrow> (int \<times> 'w) option"
  sys_close :: "'w \<Rightarrow> int \<Rightarrow> 'w option"
  sys_send :: "'w \<Rightarrow> byte list \<Rightarrow> (int \<times> 'w) option"
  mutex_lock_file :: "'w \<Rightarrow> 'w option"
  mutex_unlock_file :: "'w \<Rightarrow> 'w option"
  malloc :: "heap \<Rightarrow> size_t \<Rightarrow> ptr \<times> heap"
  realloc :: "heap \<Rightarrow> ptr \<Rightarrow> size_t \<Rightarrow> ptr \<times> heap"
  libc_int :: "int \<Rightarrow> 32 word"
  use_char_device :: bool

text \<open>
  The handler's state: the world, user memory, the variables \<open>data_buffer\<close> and \<open>data_len\<close>, how
  often \<open>close(conn_info->clfd)\<close> ran, and \<open>conn_info->done\<close>.
\<close>

record 'w conn =
  world :: 'w
  uheap :: heap
  data_buffer :: ptr
  data_len :: size_t
  clfd_closed :: nat
  done_flag :: bool

section \<open>The C string functions\<close>

text \<open>\<open>strncmp(a, b, n) == 0\<close> for the bytes of \<open>a\<close>'s block and a literal with its terminator.\<close>

fun strncmp_0 :: "byte list \<Rightarrow> byte list \<Rightarrow> nat \<Rightarrow> bool option" where
  "strncmp_0 a b 0 = Some True"
| "strncmp_0 (x # a) (y # b) (Suc n) =
     (if x \<noteq> y then Some False else if x = nul then Some True else strncmp_0 a b n)"
| "strncmp_0 a b (Suc n) = None"

text \<open>The string at an offset of a block: it must end inside the block.\<close>

definition cstring :: "heap \<Rightarrow> ptr \<Rightarrow> nat \<Rightarrow> byte list option" where
  "cstring h p off = do {
     bs \<leftarrow> h p;
     if p \<noteq> NULL \<and> nul \<in> set (drop off bs) then Some (takeWhile (\<lambda>x. x \<noteq> nul) (drop off bs)) else None
   }"

definition isspace :: "byte \<Rightarrow> bool" where
  "isspace c \<longleftrightarrow> c = CHR 0x20 \<or> (9 \<le> (of_char c :: nat) \<and> (of_char c :: nat) \<le> 13)"

definition isdigit :: "byte \<Rightarrow> bool" where
  "isdigit c \<longleftrightarrow> 48 \<le> (of_char c :: nat) \<and> (of_char c :: nat) \<le> 57"

fun digits_value :: "nat \<Rightarrow> byte list \<Rightarrow> nat" where
  "digits_value acc [] = acc"
| "digits_value acc (c # cs) = digits_value (10 * acc + (of_char c - 48)) cs"

text \<open>A \<open>%d\<close> conversion: the value and the rest of the input, or None where nothing matches.\<close>

definition scan_sign :: "byte list \<Rightarrow> bool \<times> byte list" where
  "scan_sign s = (case s of
       c # cs \<Rightarrow> if c = CHR ''-'' then (True, cs) else if c = CHR ''+'' then (False, cs) else (False, s)
     | [] \<Rightarrow> (False, []))"

definition scan_d :: "byte list \<Rightarrow> (int \<times> byte list) option" where
  "scan_d s = (let (neg, s1) = scan_sign (dropWhile isspace s); ds = takeWhile isdigit s1 in
     if ds = [] then None
     else Some (if neg then - int (digits_value 0 ds) else int (digits_value 0 ds),
       dropWhile isdigit s1))"

text \<open>\<open>sscanf(s, "%d,%d", ...) == 2\<close>, with the two values.\<close>

definition sscanf_d_d :: "byte list \<Rightarrow> (int \<times> int) option" where
  "sscanf_d_d s = do {
     (a, s1) \<leftarrow> scan_d s;
     case s1 of
       c # s2 \<Rightarrow> if c = CHR '','' then do { (b, _) \<leftarrow> scan_d s2; Some (a, b) } else None
     | [] \<Rightarrow> None
   }"

section \<open>Operations\<close>

partial_function (option) write_to_client :: "'w hapi \<Rightarrow> int \<Rightarrow> 'w \<Rightarrow> (int \<times> 'w) option" where
  "write_to_client K fd w = do {
     (r, w1) \<leftarrow> sys_read K w fd BUFFER_SIZE;
     case r of
       None \<Rightarrow> Some (0, w1)
     | Some bs \<Rightarrow>
         if bs = [] then Some (0, w1)
         else do {
           (sent, w2) \<leftarrow> sys_send K w1 bs;
           if sent \<noteq> int (length bs) then Some (-1, w2) else write_to_client K fd w2
         }
   }"

declare write_to_client.simps [code]

definition append_packet :: "'w hapi \<Rightarrow> byte list \<Rightarrow> 'w \<Rightarrow> (int \<times> 'w) option" where
  "append_packet K buf w = do {
     (fd, w1) \<leftarrow> sys_open_append K w;
     if fd = -1 then Some (-1, w1)
     else do {
       (res, w2) \<leftarrow> sys_write K w1 fd buf;
       w3 \<leftarrow> sys_close K w2 fd;
       Some (if res = -1 then -1 else 0, w3)
     }
   }"

text \<open>
  The steps of one iteration of the receive loop; each gives the new state and whether the loop
  goes on (a \<open>break\<close> is False).  First the received bytes are added to the buffer.
\<close>

definition grow_buffer :: "'w hapi \<Rightarrow> size_t \<Rightarrow> 'w conn \<Rightarrow> bool \<times> 'w conn" where
  "grow_buffer K n s =
     (if data_len s + n \<ge> of_nat BUFFER_SIZE then
        let new_size = 2 * (data_len s + n);
            (new_buffer, h) = realloc K (uheap s) (data_buffer s) new_size in
        if new_buffer = NULL then (False, s\<lparr>uheap := h\<rparr>)
        else (True, s\<lparr>uheap := h, data_buffer := new_buffer\<rparr>)
      else (True, s))"

definition collect :: "byte list \<Rightarrow> 'w conn \<Rightarrow> 'w conn option" where
  "collect read_buffer s = do {
     h1 \<leftarrow> store (uheap s) (data_buffer s) (unat (data_len s)) read_buffer;
     let data_len' = data_len s + of_nat (length read_buffer);
     h2 \<leftarrow> store h1 (data_buffer s) (unat data_len') [nul];
     Some (s\<lparr>uheap := h2, data_len := data_len'\<rparr>)
   }"

definition reset_buffer :: "'w hapi \<Rightarrow> 'w conn \<Rightarrow> (bool \<times> 'w conn) option" where
  "reset_buffer K s = do {
     h1 \<leftarrow> release (uheap s) (data_buffer s);
     let (p, h2) = malloc K h1 (of_nat BUFFER_SIZE);
     Some (p \<noteq> NULL, s\<lparr>data_len := 0, uheap := h2, data_buffer := p\<rparr>)
   }"

definition handle_seek :: "'w hapi \<Rightarrow> int \<Rightarrow> 'w conn \<Rightarrow> (bool \<times> 'w conn) option" where
  "handle_seek K fd s = do {
     seek_args \<leftarrow> cstring (uheap s) (data_buffer s) (length SEEKTO);
     case sscanf_d_d seek_args of
       Some (write_cmd', write_cmd_offset') \<Rightarrow> do {
         let seekto = \<lparr>write_cmd = libc_int K write_cmd', write_cmd_offset = libc_int K write_cmd_offset'\<rparr>;
         (ioctl_result, w1) \<leftarrow> sys_ioctl K (world s) fd seekto;
         if ioctl_result \<noteq> 0 then Some (False, s\<lparr>world := w1\<rparr>)
         else do {
           (r, w2) \<leftarrow> write_to_client K fd w1;
           if r \<noteq> 0 then Some (False, s\<lparr>world := w2\<rparr>) else reset_buffer K (s\<lparr>world := w2\<rparr>)
         }
       }
     | None \<Rightarrow> reset_buffer K s
   }"

definition handle_packet :: "'w hapi \<Rightarrow> int \<Rightarrow> 'w conn \<Rightarrow> (bool \<times> 'w conn) option" where
  "handle_packet K fd s = do {
     buf \<leftarrow> load (uheap s) (data_buffer s) 0 (unat (data_len s));
     w0 \<leftarrow> (if use_char_device K then Some (world s) else mutex_lock_file K (world s));
     (r, w1) \<leftarrow> append_packet K buf w0;
     w2 \<leftarrow> (if use_char_device K then Some w1 else mutex_unlock_file K w1);
     let s1 = s\<lparr>world := w2\<rparr>;
     if r \<noteq> 0 then Some (False, s1)
     else do {
       (ok, s2) \<leftarrow> reset_buffer K s1;
       if \<not> ok then Some (False, s2)
       else do {
         (r', w3) \<leftarrow> write_to_client K fd (world s2);
         Some (r' = 0, s2\<lparr>world := w3\<rparr>)
       }
     }
   }"

definition recv_body :: "'w hapi \<Rightarrow> int \<Rightarrow> byte list \<Rightarrow> 'w conn \<Rightarrow> (bool \<times> 'w conn) option" where
  "recv_body K fd read_buffer s =
     (let (ok, s1) = grow_buffer K (of_nat (length read_buffer)) s in
      if \<not> ok then Some (False, s1)
      else do {
        s2 \<leftarrow> collect read_buffer s1;
        block \<leftarrow> uheap s2 (data_buffer s2);
        seek \<leftarrow> strncmp_0 block (SEEKTO @ [nul]) (length SEEKTO);
        if seek then handle_seek K fd s2
        else do {
          nl \<leftarrow> memchr (uheap s2) (data_buffer s2) newline (data_len s2);
          if nl \<noteq> None then handle_packet K fd s2 else Some (True, s2)
        }
      })"

text \<open>
  The receive loop on the chunks that \<open>recv\<close> delivers; the last \<open>recv\<close>, which ends the loop, is
  the end of the connection or an error, and both close the connection alike.
\<close>

fun recv_loop :: "'w hapi \<Rightarrow> int \<Rightarrow> byte list list \<Rightarrow> 'w conn \<Rightarrow> 'w conn option" where
  "recv_loop K fd [] s = Some s"
| "recv_loop K fd (c # cs) s = do {
     (go_on, s') \<leftarrow> recv_body K fd c s;
     if go_on then recv_loop K fd cs s' else Some s'
   }"

definition conn_close :: "'w conn \<Rightarrow> 'w conn" where
  "conn_close s = s\<lparr>clfd_closed := clfd_closed s + 1, done_flag := True\<rparr>"

definition handle_connection :: "'w hapi \<Rightarrow> byte list list \<Rightarrow> 'w conn \<Rightarrow> 'w conn option" where
  "handle_connection K chunks s =
     (let (p, h) = malloc K (uheap s) (of_nat BUFFER_SIZE) in
      if p = NULL then Some (conn_close (s\<lparr>uheap := h, data_buffer := p\<rparr>))
      else do {
        let s1 = s\<lparr>uheap := h, data_buffer := p, data_len := 0\<rparr>;
        (fd, w1) \<leftarrow> sys_open_rdonly K (world s1);
        if fd < 0 then do {
          h2 \<leftarrow> release (uheap s1) (data_buffer s1);
          Some (conn_close (s1\<lparr>world := w1, uheap := h2\<rparr>))
        }
        else do {
          s2 \<leftarrow> recv_loop K fd chunks (s1\<lparr>world := w1\<rparr>);
          w3 \<leftarrow> sys_close K (world s2) fd;
          h3 \<leftarrow> release (uheap s2) (data_buffer s2);
          Some (conn_close (s2\<lparr>world := w3, uheap := h3\<rparr>))
        }
      })"

end
