(* ===== verification/Handler_Buffer.thy ===== *)
theory Handler_Buffer
  imports Handler
begin

text \<open>
  Memory safety of the connection handler's packet buffer: the documented behaviour of \<open>malloc\<close>
  and \<open>realloc\<close>, the buffer invariant, and what collecting a chunk, comparing with the seek command,
  scanning its arguments and resetting the buffer do.
\<close>

section \<open>Documented behaviour of the allocator\<close>

definition malloc_ok :: "'w hapi \<Rightarrow> bool" where
  "malloc_ok K \<longleftrightarrow>
     (\<forall>h n p h'. malloc K h n = (p, h') \<longrightarrow> n \<noteq> 0 \<longrightarrow>
        (if p = NULL then h' = h
         else h p = None \<and> unat n < 2 ^ 63 \<and> (\<exists>bs. length bs = unat n \<and> h' = h(p \<mapsto> bs))))"

definition realloc_ok :: "'w hapi \<Rightarrow> bool" where
  "realloc_ok K \<longleftrightarrow>
     (\<forall>h q n old p h'. realloc K h q n = (p, h') \<longrightarrow> n \<noteq> 0 \<longrightarrow> q \<noteq> NULL \<longrightarrow> h q = Some old \<longrightarrow>
        (if p = NULL then h' = h
         else (p = q \<or> h p = None) \<and> unat n < 2 ^ 63 \<and>
           (\<exists>new. length new = unat n \<and>
              take (min (length old) (unat n)) new = take (min (length old) (unat n)) old \<and>
              h' = (h(q := None))(p \<mapsto> new))))"

definition mem_ok :: "'w hapi \<Rightarrow> bool" where
  "mem_ok K \<longleftrightarrow> malloc_ok K \<and> realloc_ok K"

lemma mem_okD: "mem_ok K \<Longrightarrow> malloc_ok K" "mem_ok K \<Longrightarrow> realloc_ok K"
  by (simp_all add: mem_ok_def)

lemma mallocD:
  assumes "malloc_ok K" and "malloc K h n = (p, h')" and "n \<noteq> 0" and "p \<noteq> NULL"
  obtains bs where "h p = None" "unat n < 2 ^ 63" "length bs = unat n" "h' = h(p \<mapsto> bs)"
  using assms unfolding malloc_ok_def by (metis (no_types, lifting))

lemma malloc_NULL: "malloc_ok K \<Longrightarrow> malloc K h n = (NULL, h') \<Longrightarrow> n \<noteq> 0 \<Longrightarrow> h' = h"
  unfolding malloc_ok_def by (metis (no_types, lifting))

lemma reallocD:
  assumes "realloc_ok K" and "realloc K h q n = (p, h')" and "n \<noteq> 0" and "q \<noteq> NULL"
    and "h q = Some old" and "p \<noteq> NULL" and "m \<le> length old" and "m \<le> unat n"
  obtains new where "p = q \<or> h p = None" "unat n < 2 ^ 63" "length new = unat n"
    "take m new = take m old" "h' = (h(q := None))(p \<mapsto> new)"
proof -
  from assms(1-6) obtain new where new: "p = q \<or> h p = None" "unat n < 2 ^ 63" "length new = unat n"
      "take (min (length old) (unat n)) new = take (min (length old) (unat n)) old"
      "h' = (h(q := None))(p \<mapsto> new)"
    unfolding realloc_ok_def by (metis (no_types, lifting))
  moreover have "take m new = take m old"
    using arg_cong [OF new(4), of "take m"] assms(7,8) by (simp add: min_def split: if_splits)
  ultimately show ?thesis by (intro that)
qed

lemma realloc_NULL:
  "realloc_ok K \<Longrightarrow> realloc K h q n = (NULL, h') \<Longrightarrow> n \<noteq> 0 \<Longrightarrow> q \<noteq> NULL \<Longrightarrow> h q = Some old \<Longrightarrow> h' = h"
  unfolding realloc_ok_def by (metis (no_types, lifting))

section \<open>The buffer\<close>

text \<open>
  The buffer is a block of its own beside the rest \<open>h0\<close> of the memory, with room for the collected
  bytes and a terminator.  A buffer that has grown holds at most half of what it could.
\<close>

definition buf_inv :: "heap \<Rightarrow> 'w conn \<Rightarrow> byte list \<Rightarrow> bool" where
  "buf_inv h0 s d \<longleftrightarrow>
     (\<exists>block. data_buffer s \<noteq> NULL \<and> h0 (data_buffer s) = None \<and>
        uheap s = h0(data_buffer s \<mapsto> block) \<and> d = take (unat (data_len s)) block \<and>
        1024 \<le> length block \<and> length block < 2 ^ 63 \<and> unat (data_len s) < length block \<and>
        (1024 \<le> unat (data_len s) \<longrightarrow> 2 * unat (data_len s) \<le> length block))"

text \<open>\<open>free(data_buffer)\<close> is defined and leaves the rest of the memory.\<close>

definition freeable :: "heap \<Rightarrow> 'w conn \<Rightarrow> bool" where
  "freeable h0 s \<longleftrightarrow> release (uheap s) (data_buffer s) = Some h0"

lemma buf_inv_freeable: "buf_inv h0 s d \<Longrightarrow> freeable h0 s"
  by (auto simp: buf_inv_def freeable_def release_def fun_upd_idem)

lemma buf_inv_world [simp]: "buf_inv h0 (s\<lparr>world := w\<rparr>) d = buf_inv h0 s d"
  by (simp add: buf_inv_def)

lemma freeable_world [simp]: "freeable h0 (s\<lparr>world := w\<rparr>) = freeable h0 s"
  by (simp add: freeable_def)

lemma buf_inv_length: "buf_inv h0 s d \<Longrightarrow> length d = unat (data_len s)"
  by (auto simp: buf_inv_def)

lemma buf_inv_load: "buf_inv h0 s d \<Longrightarrow> load (uheap s) (data_buffer s) 0 (unat (data_len s)) = Some d"
  by (auto simp: buf_inv_def load_def)

text \<open>The size computation does not wrap.\<close>

lemma grow_size:
  fixes dl n :: size_t
  assumes "unat dl < 2 ^ 62 + 1024" and "unat n \<le> 1024"
  shows "unat (dl + n) = unat dl + unat n" and "unat (2 * (dl + n)) = 2 * (unat dl + unat n)"
proof -
  show 1: "unat (dl + n) = unat dl + unat n"
    using assms by (intro unat_add_no_overflow) simp
  have "unat ((dl + n) + (dl + n)) = unat (dl + n) + unat (dl + n)"
  proof (rule unat_add_no_overflow)
    show "unat (dl + n) + unat (dl + n) < 2 ^ 64"
      using assms unfolding 1 by simp
  qed
  also have "(dl + n) + (dl + n) = 2 * (dl + n)" by (rule mult_2 [symmetric])
  finally show "unat (2 * (dl + n)) = 2 * (unat dl + unat n)"
    by (simp only: 1 mult_2 [of "unat dl + unat n"])
qed

lemma grow_buffer_inv:
  assumes K: "realloc_ok K" and inv: "buf_inv h0 s d" and c: "0 < length c" "length c < 1024"
  shows "case grow_buffer K (of_nat (length c)) s of (ok, s1) \<Rightarrow>
    buf_inv h0 s1 d \<and> data_len s1 = data_len s \<and> world s1 = world s \<and>
    (ok \<longrightarrow> (\<exists>block. uheap s1 (data_buffer s1) = Some block \<and>
       unat (data_len s) + length c < length block \<and>
       (1024 \<le> unat (data_len s) + length c \<longrightarrow> 2 * (unat (data_len s) + length c) \<le> length block)))"
proof -
  obtain block where b: "data_buffer s \<noteq> NULL" "h0 (data_buffer s) = None"
      "uheap s = h0(data_buffer s \<mapsto> block)" "d = take (unat (data_len s)) block"
      "1024 \<le> length block" "length block < 2 ^ 63" "unat (data_len s) < length block"
      "1024 \<le> unat (data_len s) \<longrightarrow> 2 * unat (data_len s) \<le> length block"
    using inv unfolding buf_inv_def by blast
  let ?n = "of_nat (length c) :: size_t" and ?dl = "unat (data_len s)"
  have n: "unat ?n = length c" using c by (intro unat_of_nat64) simp
  have dl: "?dl < 2 ^ 62 + 1024"
    using b(6,8) by (cases "1024 \<le> ?dl") simp_all
  have sz: "unat (data_len s + ?n) = ?dl + length c" "unat (2 * (data_len s + ?n)) = 2 * (?dl + length c)"
    using grow_size [OF dl, of ?n] c n by simp_all
  show ?thesis
  proof (cases "1024 \<le> ?dl + length c")
    case False
    then have "grow_buffer K ?n s = (True, s)"
      by (simp add: grow_buffer_def word_le_nat_alt sz)
    with False b inv show ?thesis by simp
  next
    case True
    obtain p h where re: "realloc K (uheap s) (data_buffer s) (2 * (data_len s + ?n)) = (p, h)"
      by (cases "realloc K (uheap s) (data_buffer s) (2 * (data_len s + ?n))")
    have big: "data_len s + ?n \<ge> of_nat BUFFER_SIZE"
      using True by (simp add: word_le_nat_alt sz)
    have nz: "2 * (data_len s + ?n) \<noteq> 0"
    proof
      assume "2 * (data_len s + ?n) = 0"
      then have "2 * (?dl + length c) = 0" using sz(2) by simp
      with c show False by simp
    qed
    have old: "uheap s (data_buffer s) = Some block" by (simp add: b(3))
    show ?thesis
    proof (cases "p = NULL")
      case True
      with re have "h = uheap s" using realloc_NULL [where K = K] K nz b(1) old by blast
      with True big re inv show ?thesis by (simp add: grow_buffer_def)
    next
      case np: False
      have m: "?dl \<le> length block" "?dl \<le> unat (2 * (data_len s + ?n))"
        using b(7) unfolding sz(2) by simp_all
      obtain new where new: "p = data_buffer s \<or> uheap s p = None" "2 * (?dl + length c) < 2 ^ 63"
          "length new = 2 * (?dl + length c)" "take ?dl new = take ?dl block"
          "h = ((uheap s)(data_buffer s := None))(p \<mapsto> new)"
        by (rule reallocD [OF K re nz b(1) old np m, unfolded sz(2)])
      have p: "h0 p = None" using new(1) b(2,3) by (auto split: if_splits)
      have h: "h = h0(p \<mapsto> new)" using new(5) b(2,3) by (simp add: fun_upd_idem)
      have grown: "grow_buffer K ?n s = (True, s\<lparr>uheap := h, data_buffer := p\<rparr>)"
        using big re np by (simp add: grow_buffer_def)
      have "buf_inv h0 (s\<lparr>uheap := h, data_buffer := p\<rparr>) d"
        unfolding buf_inv_def using h np p new(2-4) b(4) True c
        by (intro exI [of _ new]) simp
      with h new(3) c True show ?thesis unfolding grown by simp
    qed
  qed
qed

text \<open>The received bytes and a terminator after them are stored inside the block.\<close>

lemma store_over:
  assumes "h p = Some block" and "p \<noteq> NULL" and "off + length bs \<le> length block"
  shows "store h p off bs = Some (h(p \<mapsto> take off block @ bs @ drop (off + length bs) block))"
  using assms by (simp add: store_def)

definition terminated :: "'w conn \<Rightarrow> byte list \<Rightarrow> bool" where
  "terminated s d \<longleftrightarrow> (\<exists>rest. uheap s (data_buffer s) = Some (d @ nul # rest))"

lemma collect_inv:
  assumes inv: "buf_inv h0 s d" and c: "length c < 1024"
    and room: "\<exists>block. uheap s (data_buffer s) = Some block \<and>
       unat (data_len s) + length c < length block \<and>
       (1024 \<le> unat (data_len s) + length c \<longrightarrow> 2 * (unat (data_len s) + length c) \<le> length block)"
  shows "\<exists>s'. collect c s = Some s' \<and> buf_inv h0 s' (d @ c) \<and> terminated s' (d @ c) \<and> world s' = world s"
proof -
  let ?p = "data_buffer s" and ?dl = "unat (data_len s)"
  obtain block where b: "?p \<noteq> NULL" "h0 ?p = None" "uheap s = h0(?p \<mapsto> block)" "d = take ?dl block"
      "1024 \<le> length block" "length block < 2 ^ 63"
    using inv unfolding buf_inv_def by blast
  have room': "?dl + length c < length block"
      "1024 \<le> ?dl + length c \<longrightarrow> 2 * (?dl + length c) \<le> length block"
    using room b(3) by auto
  let ?dl' = "data_len s + of_nat (length c)"
  have "unat (of_nat (length c) :: size_t) = length c" using c by (intro unat_of_nat64) simp
  moreover from this have "unat ?dl' = ?dl + unat (of_nat (length c) :: size_t)"
    using room'(1) b(6) by (intro unat_add_no_overflow) simp
  ultimately have dl': "unat ?dl' = ?dl + length c" by simp
  let ?b1 = "d @ c @ drop (?dl + length c) block"
  let ?b2 = "(d @ c) @ nul # drop (Suc (?dl + length c)) block"
  have ld: "length d = ?dl" using b(4) room'(1) by simp
  have s1: "store (uheap s) ?p ?dl c = Some (h0(?p \<mapsto> ?b1))"
    using b(1,3,4) room'(1) by (subst store_over [where block = block]) auto
  have "store (h0(?p \<mapsto> ?b1)) ?p (?dl + length c) [nul] = Some (h0(?p \<mapsto> ?b2))"
    using b(1) ld room'(1) by (subst store_over [where block = ?b1]) auto
  then have "collect c s = Some (s\<lparr>uheap := h0(?p \<mapsto> ?b2), data_len := ?dl'\<rparr>)"
    using s1 dl' by (simp add: collect_def)
  moreover have "buf_inv h0 (s\<lparr>uheap := h0(?p \<mapsto> ?b2), data_len := ?dl'\<rparr>) (d @ c)"
  proof -
    define b2 where "b2 = ?b2"
    have "length b2 = length block" "take (?dl + length c) b2 = d @ c"
      using ld room'(1) by (simp_all add: b2_def)
    then show ?thesis
      unfolding buf_inv_def b2_def [symmetric] using b room' dl' by (intro exI [of _ b2]) simp
  qed
  moreover have "terminated (s\<lparr>uheap := h0(?p \<mapsto> ?b2), data_len := ?dl'\<rparr>) (d @ c)"
    by (auto simp: terminated_def)
  ultimately show ?thesis by simp
qed

section \<open>Strings\<close>

text \<open>Comparing with a literal never reads past the terminator and decides the prefix.\<close>

lemma strncmp_0_prefix:
  assumes "nul \<notin> set lit"
  shows "strncmp_0 (d @ nul # rest) (lit @ [nul]) (length lit) = Some (take (length lit) d = lit)"
  using assms
proof (induction lit arbitrary: d)
  case Nil
  then show ?case by simp
next
  case (Cons y lit)
  then show ?case by (cases d) auto
qed

lemma nul_SEEKTO: "nul \<notin> set SEEKTO"
  by (simp add: SEEKTO_def)

lemma strncmp_seekto:
  assumes "terminated s d"
  shows "do { block \<leftarrow> uheap s (data_buffer s); strncmp_0 block (SEEKTO @ [nul]) (length SEEKTO) } =
    Some (take (length SEEKTO) d = SEEKTO)"
  using assms strncmp_0_prefix [OF nul_SEEKTO] by (auto simp: terminated_def)

lemma cstring_terminated:
  assumes "terminated s d" and "data_buffer s \<noteq> NULL" and "off \<le> length d"
  shows "cstring (uheap s) (data_buffer s) off = Some (takeWhile (\<lambda>x. x \<noteq> nul) (drop off d))"
proof -
  have "takeWhile P (xs @ x # ys) = takeWhile P xs" if "\<not> P x" for P xs and x :: byte and ys
    using that by (induction xs) auto
  with assms show ?thesis by (auto simp: terminated_def cstring_def)
qed

section \<open>Resetting\<close>

lemma fresh_buffer:
  assumes "malloc_ok K" and "malloc K h0 (of_nat BUFFER_SIZE) = (p, h)" and "p \<noteq> NULL"
  shows "buf_inv h0 (s\<lparr>data_len := 0, uheap := h, data_buffer := p\<rparr>) []"
proof -
  have "(of_nat BUFFER_SIZE :: size_t) \<noteq> 0" by simp
  from mallocD [OF assms(1,2) this assms(3)] obtain bs where
    "h0 p = None" "length bs = unat (of_nat BUFFER_SIZE :: size_t)" "h = h0(p \<mapsto> bs)"
    by blast
  with assms(3) show ?thesis by (auto simp: buf_inv_def)
qed

lemma reset_buffer_inv:
  assumes "malloc_ok K" and "freeable h0 s"
  shows "\<exists>ok s'. reset_buffer K s = Some (ok, s') \<and> world s' = world s \<and>
    (if ok then buf_inv h0 s' [] else freeable h0 s')"
proof -
  obtain p h where m: "malloc K h0 (of_nat BUFFER_SIZE) = (p, h)"
    by (cases "malloc K h0 (of_nat BUFFER_SIZE)")
  have r: "reset_buffer K s = Some (p \<noteq> NULL, s\<lparr>data_len := 0, uheap := h, data_buffer := p\<rparr>)"
    using assms(2) m by (simp add: reset_buffer_def freeable_def)
  show ?thesis
  proof (cases "p = NULL")
    case True
    with m have "h = h0" using malloc_NULL [OF assms(1)] by fastforce
    with True r show ?thesis by (intro exI [of _ False]) (simp add: freeable_def)
  next
    case False
    with r fresh_buffer [OF assms(1) m False] show ?thesis by (intro exI [of _ True]) simp
  qed
qed

section \<open>A received chunk\<close>

text \<open>
  One received chunk: out of memory, or the chunk is added to the packet, which is a seek command,
  complete, or to be continued.
\<close>

lemma recv_body_cases:
  assumes buf: "buf_inv h0 s d" and c: "0 < length c" "length c < BUFFER_SIZE" and mem: "mem_ok K"
  obtains (no_memory) s1 where "recv_body K fd c s = Some (False, s1)" "freeable h0 s1" "world s1 = world s"
      "\<not> fst (grow_buffer K (of_nat (length c)) s)"
    | (collected) s2 where "buf_inv h0 s2 (d @ c)" "terminated s2 (d @ c)" "world s2 = world s"
      "recv_body K fd c s =
        (if take (length SEEKTO) (d @ c) = SEEKTO then handle_seek K fd s2
         else if newline \<in> set (d @ c) then handle_packet K fd s2 else Some (True, s2))"
proof -
  obtain ok s1 where g: "grow_buffer K (of_nat (length c)) s = (ok, s1)" by fastforce
  have s1: "buf_inv h0 s1 d" "data_len s1 = data_len s" "world s1 = world s"
    "ok \<Longrightarrow> \<exists>block. uheap s1 (data_buffer s1) = Some block \<and>
       unat (data_len s) + length c < length block \<and>
       (1024 \<le> unat (data_len s) + length c \<longrightarrow> 2 * (unat (data_len s) + length c) \<le> length block)"
    using grow_buffer_inv [OF mem_okD(2) [OF mem] buf, of c] c g by auto
  show ?thesis
  proof (cases ok)
    case False
    with g s1 buf_inv_freeable [OF s1(1)] show ?thesis
      by (intro no_memory [of s1]) (simp_all add: recv_body_def)
  next
    case True
    then obtain s2 where s2: "collect c s1 = Some s2" "buf_inv h0 s2 (d @ c)" "terminated s2 (d @ c)"
        "world s2 = world s"
      using collect_inv [OF s1(1), of c] s1(2-4) c by auto
    obtain block where bl: "uheap s2 (data_buffer s2) = Some block"
      using s2(3) by (auto simp: terminated_def)
    have cmp: "strncmp_0 block (SEEKTO @ [nul]) (length SEEKTO) = Some (take (length SEEKTO) (d @ c) = SEEKTO)"
      using strncmp_seekto [OF s2(3)] bl by simp
    have "recv_body K fd c s =
        (if take (length SEEKTO) (d @ c) = SEEKTO then handle_seek K fd s2
         else if newline \<in> set (d @ c) then handle_packet K fd s2 else Some (True, s2))"
      using g True s2(1) bl cmp buf_inv_load [OF s2(2)] by (simp add: recv_body_def memchr_def)
    with s2 show ?thesis by (intro collected [of s2])
  qed
qed

section \<open>The connection's status\<close>

text \<open>No step of the receive loop closes the client's socket or marks the connection.\<close>

definition conn_status :: "'w conn \<Rightarrow> nat \<times> bool" where
  "conn_status s = (clfd_closed s, done_flag s)"

lemma conn_status_upd [simp]:
  "conn_status (s\<lparr>world := w\<rparr>) = conn_status s"
  "conn_status (s\<lparr>uheap := h\<rparr>) = conn_status s"
  "conn_status (s\<lparr>data_buffer := p\<rparr>) = conn_status s"
  "conn_status (s\<lparr>data_len := n\<rparr>) = conn_status s"
  by (simp_all add: conn_status_def)

lemma grow_buffer_status: "grow_buffer K n s = (ok, s') \<Longrightarrow> conn_status s' = conn_status s"
  by (auto simp: grow_buffer_def Let_def split: if_splits prod.splits)

lemma collect_status: "collect c s = Some s' \<Longrightarrow> conn_status s' = conn_status s"
  by (auto simp: collect_def Let_def split: Option.bind_splits)

lemma reset_buffer_status: "reset_buffer K s = Some (ok, s') \<Longrightarrow> conn_status s' = conn_status s"
  by (auto simp: reset_buffer_def Let_def split: Option.bind_splits prod.splits)

lemma handle_seek_status: "handle_seek K fd s = Some (ok, s') \<Longrightarrow> conn_status s' = conn_status s"
  by (auto simp: handle_seek_def Let_def dest: reset_buffer_status
      split: Option.bind_splits option.splits prod.splits if_splits)

lemma handle_packet_status: "handle_packet K fd s = Some (ok, s') \<Longrightarrow> conn_status s' = conn_status s"
  by (auto simp: handle_packet_def Let_def dest!: reset_buffer_status
      split: Option.bind_splits prod.splits if_splits)

lemma recv_body_status: "recv_body K fd c s = Some (ok, s') \<Longrightarrow> conn_status s' = conn_status s"
  by (auto simp: recv_body_def Let_def
      dest!: collect_status handle_seek_status handle_packet_status grow_buffer_status
      split: Option.bind_splits prod.splits if_splits)

lemma recv_loop_status: "recv_loop K fd cs s = Some s' \<Longrightarrow> conn_status s' = conn_status s"
  by (induction cs arbitrary: s)
    (auto dest!: recv_body_status split: Option.bind_splits prod.splits if_splits)

end
