(* ===== verification/Handler_Host.thy ===== *)
theory Handler_Host
  imports Handler_Buffer Driver_Refinement
begin

text \<open>
  What the connection handler needs of the system it runs on, as two locales.  \<open>server_host\<close> is
  what holds even while other threads use the same storage: descriptors that are this thread's own,
  an invariant, a bound on positions.  From it follows that the handler always returns and cleans
  up.  \<open>storage_host\<close> adds what the calls do to the stored data while nobody else uses it.  The
  handler's lemmas are proved from these laws alone; \<open>Device_Host\<close> and \<open>File_Host\<close> prove the laws for
  the driver and for a plain file.
\<close>

section \<open>A host with other threads\<close>

text \<open>
  \<open>inv b\<close> is the invariant, with \<open>b\<close> telling whether the thread holds the file mutex; \<open>fds\<close> are the
  thread's own descriptors with their positions; \<open>packet\<close> says which data may be written.
\<close>

locale server_host =
  fixes K :: "'w hapi"
    and inv :: "bool \<Rightarrow> 'w \<Rightarrow> bool"
    and fds :: "'w \<Rightarrow> int \<rightharpoonup> nat"
    and limit :: nat
    and packet :: "byte list \<Rightarrow> bool"
  assumes open_rdonly_law: "inv b w \<Longrightarrow>
      \<exists>fd w'. sys_open_rdonly K w = Some (fd, w') \<and> inv b w' \<and>
        (if fd < 0 then fds w' = fds w else fds w fd = None \<and> fds w' = (fds w)(fd \<mapsto> 0))"
    and open_append_law: "inv b w \<Longrightarrow>
      \<exists>fd w'. sys_open_append K w = Some (fd, w') \<and> inv b w' \<and>
        (if fd < 0 then fd = -1 \<and> fds w' = fds w else fds w fd = None \<and> fds w' = (fds w)(fd \<mapsto> 0))"
    and read_law: "inv b w \<Longrightarrow> fds w fd = Some p \<Longrightarrow> 0 < n \<Longrightarrow> n \<le> MAX_RW_COUNT \<Longrightarrow>
      \<exists>r w'. sys_read K w fd n = Some (r, w') \<and> inv b w' \<and>
        (case r of None \<Rightarrow> fds w' = fds w
         | Some bs \<Rightarrow> fds w' = (fds w)(fd \<mapsto> p + length bs) \<and> (bs \<noteq> [] \<longrightarrow> p + length bs \<le> limit))"
    and write_law: "inv b w \<Longrightarrow> fds w fd = Some p \<Longrightarrow> packet bs \<Longrightarrow>
      \<exists>r w' q. sys_write K w fd bs = Some (r, w') \<and> inv b w' \<and> fds w' = (fds w)(fd \<mapsto> q)"
    and ioctl_law: "inv b w \<Longrightarrow> fds w fd = Some p \<Longrightarrow>
      \<exists>r w' q. sys_ioctl K w fd seekto = Some (r, w') \<and> inv b w' \<and> fds w' = (fds w)(fd \<mapsto> q)"
    and close_law: "inv b w \<Longrightarrow> fds w fd = Some p \<Longrightarrow>
      \<exists>w'. sys_close K w fd = Some w' \<and> inv b w' \<and> fds w' = (fds w)(fd := None)"
    and send_law: "inv b w \<Longrightarrow> \<exists>r w'. sys_send K w bs = Some (r, w') \<and> inv b w' \<and> fds w' = fds w"
    and lock_law: "\<not> use_char_device K \<Longrightarrow> inv False w \<Longrightarrow>
      \<exists>w'. mutex_lock_file K w = Some w' \<and> inv True w' \<and> fds w' = fds w"
    and unlock_law: "\<not> use_char_device K \<Longrightarrow> inv True w \<Longrightarrow>
      \<exists>w'. mutex_unlock_file K w = Some w' \<and> inv False w' \<and> fds w' = fds w"
begin

text \<open>
  Sending the contents ends: every round that does not stop moves the position forward, below the
  limit, whatever the other threads write in between.
\<close>

lemma write_to_client_returns:
  assumes "inv b w" and "fds w fd = Some p"
  shows "\<exists>r w' q. write_to_client K fd w = Some (r, w') \<and> inv b w' \<and> fds w' = (fds w)(fd \<mapsto> q)"
  using assms
proof (induction "limit - p" arbitrary: w p rule: less_induct)
  case less
  have "0 < BUFFER_SIZE" "BUFFER_SIZE \<le> MAX_RW_COUNT" by (simp_all add: MAX_RW_COUNT_def)
  from read_law [OF less.prems this]
  obtain r w1 where rd: "sys_read K w fd BUFFER_SIZE = Some (r, w1)" "inv b w1"
    and cases: "case r of None \<Rightarrow> fds w1 = fds w
      | Some bs \<Rightarrow> fds w1 = (fds w)(fd \<mapsto> p + length bs) \<and> (bs \<noteq> [] \<longrightarrow> p + length bs \<le> limit)"
    by blast
  show ?case
  proof (cases "r = None \<or> r = Some []")
    case True
    then have "write_to_client K fd w = Some (0, w1)"
      using rd(1) by (subst write_to_client.simps) auto
    moreover have "fds w1 = (fds w)(fd \<mapsto> p)" using True cases less.prems(2) by (auto simp: fun_upd_idem)
    ultimately show ?thesis using rd(2) by blast
  next
    case False
    then obtain bs where bs: "r = Some bs" "bs \<noteq> []" by auto
    with cases have pos: "fds w1 = (fds w)(fd \<mapsto> p + length bs)" "p + length bs \<le> limit" by auto
    obtain r2 w2 where snd: "sys_send K w1 bs = Some (r2, w2)" "inv b w2" "fds w2 = fds w1"
      using send_law [OF rd(2), of bs] by blast
    have step: "write_to_client K fd w =
        (if r2 \<noteq> int (length bs) then Some (-1, w2) else write_to_client K fd w2)"
      using rd(1) bs snd(1) by (subst write_to_client.simps) simp
    have "limit - (p + length bs) < limit - p" using pos(2) bs(2) by (cases bs) auto
    moreover have "fds w2 fd = Some (p + length bs)" using snd(3) pos(1) by simp
    ultimately have "\<exists>r w' q. write_to_client K fd w2 = Some (r, w') \<and> inv b w' \<and> fds w' = (fds w2)(fd \<mapsto> q)"
      using less.hyps snd(2) by blast
    then show ?thesis using step snd pos(1) by (cases "r2 = int (length bs)") auto
  qed
qed

lemma append_packet_returns:
  assumes "inv b w" and "packet d"
  shows "\<exists>r w'. append_packet K d w = Some (r, w') \<and> inv b w' \<and> fds w' = fds w"
proof -
  obtain fd w1 where op: "sys_open_append K w = Some (fd, w1)" "inv b w1"
      "if fd < 0 then fd = -1 \<and> fds w1 = fds w else fds w fd = None \<and> fds w1 = (fds w)(fd \<mapsto> 0)"
    using open_append_law [OF assms(1)] by blast
  show ?thesis
  proof (cases "fd < 0")
    case True
    with op show ?thesis by (simp add: append_packet_def)
  next
    case False
    with op have pos: "fds w1 fd = Some 0" "fds w fd = None" "fds w1 = (fds w)(fd \<mapsto> 0)" by auto
    obtain r w2 q where wr: "sys_write K w1 fd d = Some (r, w2)" "inv b w2" "fds w2 = (fds w1)(fd \<mapsto> q)"
      using write_law [OF op(2) pos(1) assms(2)] by blast
    have "fds w2 fd = Some q" using wr(3) by simp
    from close_law [OF wr(2) this] obtain w3 where cl: "sys_close K w2 fd = Some w3" "inv b w3"
        "fds w3 = (fds w2)(fd := None)" by blast
    have "fds w3 = fds w" using cl(3) wr(3) pos by (simp add: fun_upd_idem)
    with False op wr cl show ?thesis by (auto simp: append_packet_def)
  qed
qed

text \<open>The packet under the file mutex where the build has one.\<close>

definition locked_append where
  "locked_append d w = do {
     w0 \<leftarrow> (if use_char_device K then Some w else mutex_lock_file K w);
     (r, w1) \<leftarrow> append_packet K d w0;
     w2 \<leftarrow> (if use_char_device K then Some w1 else mutex_unlock_file K w1);
     Some (r, w2)
   }"

lemma locked_append_returns:
  assumes "inv False w" and "packet d"
  shows "\<exists>r w'. locked_append d w = Some (r, w') \<and> inv False w' \<and> fds w' = fds w"
proof (cases "use_char_device K")
  case True
  with append_packet_returns [OF assms] show ?thesis by (auto simp: locked_append_def)
next
  case False
  obtain w0 where w0: "mutex_lock_file K w = Some w0" "inv True w0" "fds w0 = fds w"
    using lock_law [OF False assms(1)] by blast
  obtain r w1 where w1: "append_packet K d w0 = Some (r, w1)" "inv True w1" "fds w1 = fds w0"
    using append_packet_returns [OF w0(2) assms(2)] by blast
  obtain w2 where "mutex_unlock_file K w1 = Some w2" "inv False w2" "fds w2 = fds w1"
    using unlock_law [OF False w1(2)] by blast
  with False w0 w1 show ?thesis by (auto simp: locked_append_def)
qed

lemma handle_packet_locked:
  assumes "load (uheap s) (data_buffer s) 0 (unat (data_len s)) = Some d"
  shows "handle_packet K fd s = do {
     (r, w2) \<leftarrow> locked_append d (world s);
     if r \<noteq> 0 then Some (False, s\<lparr>world := w2\<rparr>)
     else do {
       (ok, s2) \<leftarrow> reset_buffer K (s\<lparr>world := w2\<rparr>);
       if \<not> ok then Some (False, s2)
       else do {
         (r', w3) \<leftarrow> write_to_client K fd (world s2);
         Some (r' = 0, s2\<lparr>world := w3\<rparr>)
       }
     }
   }"
  using assms by (simp add: handle_packet_def locked_append_def Let_def split_def cong: if_cong)

section \<open>The receive loop\<close>

text \<open>The handler between two rounds: its descriptor is open beside those of \<open>F\<close>.\<close>

definition conn_ok where
  "conn_ok F fd s \<longleftrightarrow> inv False (world s) \<and> (\<exists>p. fds (world s) = F(fd \<mapsto> p))"

definition after_round where
  "after_round h0 F fd N r \<longleftrightarrow> (\<exists>go_on s'. r = Some (go_on, s') \<and> conn_ok F fd s' \<and>
     (if go_on then \<exists>d. buf_inv h0 s' d \<and> length d \<le> N else freeable h0 s'))"

lemma after_round_stop:
  "r = Some (False, s') \<Longrightarrow> conn_ok F fd s' \<Longrightarrow> freeable h0 s' \<Longrightarrow> after_round h0 F fd N r"
  by (auto simp: after_round_def intro: exI [of _ False])

lemma after_round_go:
  "r = Some (True, s') \<Longrightarrow> conn_ok F fd s' \<Longrightarrow> buf_inv h0 s' d \<Longrightarrow> length d \<le> N \<Longrightarrow>
   after_round h0 F fd N r"
  by (auto simp: after_round_def)

lemma reset_round:
  assumes "conn_ok F fd s" and "freeable h0 s" and mem: "mem_ok K"
  shows "after_round h0 F fd N (reset_buffer K s)"
proof -
  obtain ok s' where s': "reset_buffer K s = Some (ok, s')" "world s' = world s"
      "if ok then buf_inv h0 s' [] else freeable h0 s'"
    using reset_buffer_inv [OF mem_okD(1) [OF mem] assms(2)] by blast
  have "conn_ok F fd s'" using assms(1) s'(2) by (simp add: conn_ok_def)
  with s'(1,3) show ?thesis by (cases ok) (auto intro: after_round_stop after_round_go [where d = "[]"])
qed

lemma handle_seek_ok:
  assumes ok: "conn_ok F fd s" and buf: "buf_inv h0 s d" and "terminated s d" and "length SEEKTO \<le> length d"
    and mem: "mem_ok K"
  shows "after_round h0 F fd N (handle_seek K fd s)"
proof -
  have free: "freeable h0 s" by (rule buf_inv_freeable [OF buf])
  have args: "cstring (uheap s) (data_buffer s) (length SEEKTO) =
      Some (takeWhile (\<lambda>x. x \<noteq> nul) (drop (length SEEKTO) d))"
    using assms by (intro cstring_terminated) (auto simp: buf_inv_def)
  show ?thesis
  proof (cases "sscanf_d_d (takeWhile (\<lambda>x. x \<noteq> nul) (drop (length SEEKTO) d))")
    case None
    with args reset_round [OF ok free mem] show ?thesis by (simp add: handle_seek_def)
  next
    case (Some ab)
    then obtain a b where ab: "ab = (a, b)" by (cases ab)
    let ?seekto = "\<lparr>write_cmd = libc_int K a, write_cmd_offset = libc_int K b\<rparr>"
    obtain p where inv: "inv False (world s)" "fds (world s) = F(fd \<mapsto> p)" using ok by (auto simp: conn_ok_def)
    then have "fds (world s) fd = Some p" by simp
    from ioctl_law [OF inv(1) this, of ?seekto]
    obtain r w1 q where io: "sys_ioctl K (world s) fd ?seekto = Some (r, w1)" "inv False w1"
        "fds w1 = F(fd \<mapsto> q)" using inv(2) by auto
    then have "fds w1 fd = Some q" by simp
    from write_to_client_returns [OF io(2) this]
    obtain r2 w2 q2 where wr: "write_to_client K fd w1 = Some (r2, w2)" "inv False w2" "fds w2 = F(fd \<mapsto> q2)"
      using io(3) by auto
    have stop: "conn_ok F fd (s\<lparr>world := w\<rparr>) \<Longrightarrow> after_round h0 F fd N (Some (False, s\<lparr>world := w\<rparr>))" for w
      using free by (intro after_round_stop [of _ "s\<lparr>world := w\<rparr>"]) auto
    have w: "conn_ok F fd (s\<lparr>world := w1\<rparr>)" "conn_ok F fd (s\<lparr>world := w2\<rparr>)"
      using io(2,3) wr(2,3) by (auto simp: conn_ok_def)
    have "after_round h0 F fd N (reset_buffer K (s\<lparr>world := w2\<rparr>))"
      using w(2) free mem by (intro reset_round) auto
    with Some ab args io(1) wr(1) stop w show ?thesis by (simp add: handle_seek_def)
  qed
qed

lemma handle_packet_ok:
  assumes ok: "conn_ok F fd s" and buf: "buf_inv h0 s d" and pk: "packet d" and mem: "mem_ok K"
  shows "after_round h0 F fd N (handle_packet K fd s)"
proof -
  have ld: "load (uheap s) (data_buffer s) 0 (unat (data_len s)) = Some d" by (rule buf_inv_load [OF buf])
  obtain p where inv: "inv False (world s)" "fds (world s) = F(fd \<mapsto> p)" using ok by (auto simp: conn_ok_def)
  obtain r w1 where ap: "locked_append d (world s) = Some (r, w1)" "inv False w1" "fds w1 = F(fd \<mapsto> p)"
    using locked_append_returns [OF inv(1) pk] inv(2) by auto
  then have "fds w1 fd = Some p" by simp
  from write_to_client_returns [OF ap(2) this]
  obtain r2 w2 q2 where wr: "write_to_client K fd w1 = Some (r2, w2)" "inv False w2" "fds w2 = F(fd \<mapsto> q2)"
    using ap(3) by auto
  have free: "freeable h0 (s\<lparr>world := w1\<rparr>)" using buf_inv_freeable [OF buf] by simp
  obtain go s2 where rs: "reset_buffer K (s\<lparr>world := w1\<rparr>) = Some (go, s2)" "world s2 = w1"
      "if go then buf_inv h0 s2 [] else freeable h0 s2"
    using reset_buffer_inv [OF mem_okD(1) [OF mem] free] by auto
  have w: "conn_ok F fd (s\<lparr>world := w1\<rparr>)" "conn_ok F fd s2" "conn_ok F fd (s2\<lparr>world := w2\<rparr>)"
    using ap(2,3) wr(2,3) rs(2) by (auto simp: conn_ok_def)
  have eq: "handle_packet K fd s = (if r \<noteq> 0 then Some (False, s\<lparr>world := w1\<rparr>)
      else if \<not> go then Some (False, s2) else Some (r2 = 0, s2\<lparr>world := w2\<rparr>))"
    using ap(1) rs(1,2) wr(1) by (simp add: handle_packet_locked [OF ld])
  consider "r \<noteq> 0" | "r = 0" "\<not> go" | "r = 0" "go" "r2 \<noteq> 0" | "r = 0" "go" "r2 = 0" by blast
  then show ?thesis
  proof cases
    case 1
    with eq w(1) free show ?thesis by (intro after_round_stop [of _ "s\<lparr>world := w1\<rparr>"]) auto
  next
    case 2
    with eq w(2) rs(3) show ?thesis by (intro after_round_stop [of _ s2]) auto
  next
    case 3
    with eq w(3) rs(3) show ?thesis
      by (intro after_round_stop [of _ "s2\<lparr>world := w2\<rparr>"]) (auto dest: buf_inv_freeable)
  next
    case 4
    with eq w(3) rs(3) show ?thesis
      by (intro after_round_go [of _ "s2\<lparr>world := w2\<rparr>" _ _ _ "[]"]) auto
  qed
qed

lemma recv_body_ok:
  assumes ok: "conn_ok F fd s" and buf: "buf_inv h0 s d" and c: "0 < length c" "length c < BUFFER_SIZE"
    and pk: "newline \<in> set (d @ c) \<Longrightarrow> packet (d @ c)" and mem: "mem_ok K" and N: "length (d @ c) \<le> N"
  shows "after_round h0 F fd N (recv_body K fd c s)"
  using buf c mem
proof (cases rule: recv_body_cases [where fd = fd])
  case (no_memory s1)
  then show ?thesis using ok by (intro after_round_stop [of _ s1]) (auto simp: conn_ok_def)
next
  case (collected s2)
  have ok2: "conn_ok F fd s2" using ok collected(3) by (simp add: conn_ok_def)
  have len: "length SEEKTO \<le> length (d @ c)" if "take (length SEEKTO) (d @ c) = SEEKTO"
    using arg_cong [OF that, of length] by simp
  consider "take (length SEEKTO) (d @ c) = SEEKTO"
    | "take (length SEEKTO) (d @ c) \<noteq> SEEKTO" "newline \<in> set (d @ c)"
    | "take (length SEEKTO) (d @ c) \<noteq> SEEKTO" "newline \<notin> set (d @ c)" by blast
  then show ?thesis
  proof cases
    case 1
    with collected(4) handle_seek_ok [OF ok2 collected(1,2) len mem] show ?thesis by simp
  next
    case 2
    with collected(4) handle_packet_ok [OF ok2 collected(1) pk mem] show ?thesis by simp
  next
    case 3
    then have "recv_body K fd c s = Some (True, s2)" using collected(4) by simp
    then show ?thesis by (rule after_round_go [OF _ ok2 collected(1) N])
  qed
qed

text \<open>Packets of at most the total length received are all that is ever written.\<close>

lemma recv_loop_ok:
  assumes "conn_ok F fd s" and "buf_inv h0 s d" and "\<forall>c \<in> set cs. 0 < length c \<and> length c < BUFFER_SIZE"
    and pk: "\<And>d. newline \<in> set d \<Longrightarrow> length d \<le> N \<Longrightarrow> packet d"
    and "length d + sum_list (map length cs) \<le> N" and mem: "mem_ok K"
  shows "\<exists>s'. recv_loop K fd cs s = Some s' \<and> conn_ok F fd s' \<and> freeable h0 s'"
  using assms(1-3,5)
proof (induction cs arbitrary: s d)
  case Nil
  then show ?case by (auto intro: buf_inv_freeable)
next
  case (Cons c cs)
  let ?n = "length (d @ c)"
  have "after_round h0 F fd ?n (recv_body K fd c s)"
    using Cons.prems pk mem by (intro recv_body_ok [where d = d]) auto
  then obtain go_on s' where s': "recv_body K fd c s = Some (go_on, s')" "conn_ok F fd s'"
      "if go_on then \<exists>d. buf_inv h0 s' d \<and> length d \<le> ?n else freeable h0 s'"
    by (auto simp: after_round_def)
  show ?case
  proof (cases go_on)
    case True
    with s'(3) obtain d' where d': "buf_inv h0 s' d'" "length d' \<le> ?n" by auto
    with Cons.prems have "length d' + sum_list (map length cs) \<le> N" by simp
    with Cons.IH [OF s'(2) d'(1)] Cons.prems(3) True s'(1) show ?thesis by auto
  next
    case False
    with s' show ?thesis by auto
  qed
qed

text \<open>
  Every path of the handler: user memory and descriptors are as before, the client's socket is
  closed once, and the connection is marked.
\<close>

lemma handle_connection_ok:
  assumes "inv False (world s)" and "\<forall>c \<in> set cs. 0 < length c \<and> length c < BUFFER_SIZE"
    and pk: "\<And>d. newline \<in> set d \<Longrightarrow> length d \<le> sum_list (map length cs) \<Longrightarrow> packet d"
    and mem: "mem_ok K"
  shows "\<exists>s'. handle_connection K cs s = Some s' \<and> inv False (world s') \<and> uheap s' = uheap s \<and>
    fds (world s') = fds (world s) \<and> clfd_closed s' = Suc (clfd_closed s) \<and> done_flag s'"
proof -
  obtain p h where m: "malloc K (uheap s) (of_nat BUFFER_SIZE) = (p, h)"
    by (cases "malloc K (uheap s) (of_nat BUFFER_SIZE)")
  show ?thesis
  proof (cases "p = NULL")
    case True
    with m malloc_NULL [OF mem_okD(1) [OF mem]] have "h = uheap s" by fastforce
    with True m assms(1) show ?thesis by (simp add: handle_connection_def conn_close_def)
  next
    case np: False
    let ?s1 = "s\<lparr>uheap := h, data_buffer := p, data_len := 0\<rparr>"
    have buf: "buf_inv (uheap s) ?s1 []"
      using fresh_buffer [OF mem_okD(1) [OF mem] m np, of s] by (simp add: buf_inv_def)
    obtain fd w1 where op: "sys_open_rdonly K (world s) = Some (fd, w1)" "inv False w1"
        "if fd < 0 then fds w1 = fds (world s)
         else fds (world s) fd = None \<and> fds w1 = (fds (world s))(fd \<mapsto> 0)"
      using open_rdonly_law [OF assms(1)] by blast
    have rel: "release h p = Some (uheap s)"
      using buf_inv_freeable [OF buf] by (simp add: freeable_def)
    show ?thesis
    proof (cases "fd < 0")
      case True
      with np m op rel show ?thesis by (simp add: handle_connection_def conn_close_def)
    next
      case False
      have start: "conn_ok (fds (world s)) fd (?s1\<lparr>world := w1\<rparr>)" "buf_inv (uheap s) (?s1\<lparr>world := w1\<rparr>) []"
        using False op buf by (auto simp: conn_ok_def)
      obtain s2 q where lp: "recv_loop K fd cs (?s1\<lparr>world := w1\<rparr>) = Some s2" "inv False (world s2)"
          "fds (world s2) = (fds (world s))(fd \<mapsto> q)" "freeable (uheap s) s2"
        using recv_loop_ok [OF start assms(2) pk _ mem, of "sum_list (map length cs)"]
        by (auto simp: conn_ok_def)
      have "fds (world s2) fd = Some q" using lp(3) by simp
      from close_law [OF lp(2) this] obtain w3 where cl: "sys_close K (world s2) fd = Some w3" "inv False w3"
          "fds w3 = (fds (world s2))(fd := None)" by blast
      have "fds w3 = fds (world s)" using cl(3) lp(3) False op(3) by (simp add: fun_upd_idem)
      moreover have "clfd_closed s2 = clfd_closed s"
        using recv_loop_status [OF lp(1)] by (simp add: conn_status_def)
      ultimately show ?thesis
        using np m op(1) False lp cl by (simp add: handle_connection_def conn_close_def freeable_def)
    qed
  qed
qed

end

section \<open>A host without interference\<close>

text \<open>
  \<open>quiet rd\<close> is that nobody else uses the storage, that \<open>rd\<close> is open for reading and that reads do not
  fail.  \<open>dev\<close> is the stored data with its readable \<open>contents\<close>, \<open>stored r bs\<close> what a write of \<open>bs\<close> with result \<open>r\<close> does to it, \<open>sent\<close>
  what the client has been sent.
\<close>

locale storage_host = server_host K inv fds limit packet
  for K :: "'w hapi" and inv and fds and limit and packet +
  fixes dev :: "'w \<Rightarrow> 'd"
    and contents :: "'d \<Rightarrow> byte list"
    and stored :: "int \<Rightarrow> byte list \<Rightarrow> 'd \<Rightarrow> 'd \<Rightarrow> bool"
    and sent :: "'w \<Rightarrow> byte list"
    and quiet :: "int \<Rightarrow> 'w \<Rightarrow> bool"
  assumes quiet_open: "inv b w \<Longrightarrow> quiet rd w \<Longrightarrow> fds w rd = Some p \<Longrightarrow> sys_open_append K w = Some (fd, w') \<Longrightarrow>
      quiet rd w' \<and> dev w' = dev w \<and> sent w' = sent w"
    and quiet_read: "inv b w \<Longrightarrow> quiet fd w \<Longrightarrow> fds w fd = Some p \<Longrightarrow> 0 < n \<Longrightarrow> n \<le> MAX_RW_COUNT \<Longrightarrow>
      sys_read K w fd n = Some (res, w') \<Longrightarrow> quiet fd w' \<and> dev w' = dev w \<and> sent w' = sent w \<and>
      (\<exists>bs. res = Some bs \<and> bs = take (length bs) (drop p (contents (dev w))) \<and>
        (bs = [] \<longleftrightarrow> length (contents (dev w)) \<le> p))"
    and quiet_write: "inv b w \<Longrightarrow> quiet rd w \<Longrightarrow> fds w fd = Some p \<Longrightarrow> packet bs \<Longrightarrow>
      sys_write K w fd bs = Some (r, w') \<Longrightarrow> quiet rd w' \<and> sent w' = sent w \<and> stored r bs (dev w) (dev w')"
    and quiet_close: "inv b w \<Longrightarrow> quiet rd w \<Longrightarrow> fd \<noteq> rd \<Longrightarrow> fds w fd = Some p \<Longrightarrow> sys_close K w fd = Some w' \<Longrightarrow>
      quiet rd w' \<and> dev w' = dev w \<and> sent w' = sent w"
    and quiet_send: "inv b w \<Longrightarrow> quiet rd w \<Longrightarrow> sys_send K w bs = Some (r, w') \<Longrightarrow>
      quiet rd w' \<and> dev w' = dev w \<and> (\<exists>k. sent w' = sent w @ take k bs \<and> (r = int (length bs) \<longrightarrow> k = length bs))"
    and quiet_lock: "inv b w \<Longrightarrow> quiet rd w \<Longrightarrow> mutex_lock_file K w = Some w' \<Longrightarrow>
      quiet rd w' \<and> dev w' = dev w \<and> sent w' = sent w"
    and quiet_unlock: "inv b w \<Longrightarrow> quiet rd w \<Longrightarrow> mutex_unlock_file K w = Some w' \<Longrightarrow>
      quiet rd w' \<and> dev w' = dev w \<and> sent w' = sent w"
begin

text \<open>Some send takes less than it is given.\<close>

definition short_send where
  "short_send fd \<longleftrightarrow> (\<exists>b w bs n w'. inv b w \<and> quiet fd w \<and> sys_send K w bs = Some (n, w') \<and> n \<noteq> int (length bs))"

lemma short_sendI:
  "inv b w \<Longrightarrow> quiet fd w \<Longrightarrow> sys_send K w bs = Some (n, w') \<Longrightarrow> n \<noteq> int (length bs) \<Longrightarrow> short_send fd"
  unfolding short_send_def by blast

text \<open>
  One round of sending: the end of the contents, with result 0; a short send, with result -1; or
  some bytes sent and the loop goes on after them.
\<close>

lemma write_to_client_round:
  assumes "inv b w" and "quiet fd w" and "fds w fd = Some p"
  defines "C \<equiv> contents (dev w)"
  obtains (stop) w' where "write_to_client K fd w = Some (0, w')" "quiet fd w'" "dev w' = dev w"
      "fds w' = fds w" "sent w' = sent w" "length C \<le> p"
    | (short) bs k w' where "write_to_client K fd w = Some (-1, w')" "quiet fd w'" "dev w' = dev w"
      "bs = take (length bs) (drop p C)" "fds w' = (fds w)(fd \<mapsto> p + length bs)"
      "sent w' = sent w @ take k bs"
      "short_send fd"
    | (more) bs w' where "write_to_client K fd w = write_to_client K fd w'" "inv b w'" "quiet fd w'"
      "dev w' = dev w" "bs \<noteq> []" "bs = take (length bs) (drop p C)"
      "fds w' = (fds w)(fd \<mapsto> p + length bs)" "sent w' = sent w @ bs"
proof -
  have sz: "0 < BUFFER_SIZE" "BUFFER_SIZE \<le> MAX_RW_COUNT" by (simp_all add: MAX_RW_COUNT_def)
  from read_law [OF assms(1,3) this]
  obtain r w1 where rd: "sys_read K w fd BUFFER_SIZE = Some (r, w1)" "inv b w1"
    and pos: "case r of None \<Rightarrow> fds w1 = fds w
      | Some bs \<Rightarrow> fds w1 = (fds w)(fd \<mapsto> p + length bs) \<and> (bs \<noteq> [] \<longrightarrow> p + length bs \<le> limit)"
    by blast
  from quiet_read [OF assms(1,2,3) sz rd(1)]
  obtain bs where q1: "quiet fd w1" "dev w1 = dev w" "sent w1 = sent w" "r = Some bs"
      "bs = take (length bs) (drop p C)" "bs = [] \<longleftrightarrow> length C \<le> p"
    unfolding C_def by blast
  with pos have fds1: "fds w1 = (fds w)(fd \<mapsto> p + length bs)" by simp
  show ?thesis
  proof (cases "bs = []")
    case True
    then have "write_to_client K fd w = Some (0, w1)"
      using rd(1) q1(4) by (subst write_to_client.simps) auto
    moreover have "fds w1 = fds w" using True fds1 assms(3) by (simp add: fun_upd_idem)
    ultimately show ?thesis using True q1 by (intro stop [of w1]) auto
  next
    case False
    obtain r2 w2 where snd: "sys_send K w1 bs = Some (r2, w2)" "inv b w2" "fds w2 = fds w1"
      using send_law [OF rd(2), of bs] by blast
    from quiet_send [OF rd(2) q1(1) snd(1)]
    obtain k where q2: "quiet fd w2" "dev w2 = dev w1" "sent w2 = sent w1 @ take k bs"
        "r2 = int (length bs) \<longrightarrow> k = length bs" by blast
    have step: "write_to_client K fd w =
        (if r2 \<noteq> int (length bs) then Some (-1, w2) else write_to_client K fd w2)"
      using rd(1) q1(4) False snd(1) by (subst write_to_client.simps) simp
    show ?thesis
    proof (cases "r2 = int (length bs)")
      case True
      with step snd q1 q2 fds1 False show ?thesis by (intro more [of w2 bs]) auto
    next
      case short': False
      have "short_send fd" by (rule short_sendI [OF rd(2) q1(1) snd(1) short'])
      with short' step snd q1 q2 fds1 show ?thesis by (intro short [of w2 bs k]) auto
    qed
  qed
qed

text \<open>
  The whole loop sends a prefix of what follows the position, and all of it unless a send took less
  than it was given.
\<close>

definition write_to_client_done where
  "write_to_client_done fd p w r w' \<longleftrightarrow> (let C = contents (dev w) in
     \<exists>q k. quiet fd w' \<and> dev w' = dev w \<and> fds w' = (fds w)(fd \<mapsto> q) \<and>
       sent w' = sent w @ take k (drop p C) \<and>
       (if r = 0 then length C \<le> p + k \<and> q = max p (length C)
        else r = -1 \<and> short_send fd))"

lemma write_to_client_spec:
  assumes "inv b w" and "quiet fd w" and "fds w fd = Some p"
  shows "\<exists>r w'. write_to_client K fd w = Some (r, w') \<and> write_to_client_done fd p w r w'"
  using assms
proof (induction "length (contents (dev w)) - p" arbitrary: w p rule: less_induct)
  case less
  let ?C = "contents (dev w)"
  from less.prems show ?case
  proof (cases rule: write_to_client_round)
    case (stop w')
    then show ?thesis
      using less.prems unfolding write_to_client_done_def Let_def
      by (intro exI [of _ 0] exI [of _ w'] conjI exI [of _ p] exI [of _ "0::nat"])
        (auto simp: fun_upd_idem)
  next
    case (short bs k w')
    have "take k bs = take (min k (length bs)) (drop p ?C)"
      by (subst short(4)) (simp add: min.commute)
    with short show ?thesis
      by (intro exI [of _ "-1"] exI [of _ w'] conjI)
        (auto simp: write_to_client_done_def Let_def)
  next
    case (more bs w')
    have le: "p + length bs \<le> length ?C" "p < length ?C"
      using arg_cong [OF more(6), of length] more(5) by (cases bs; simp)+
    have "length ?C - (p + length bs) < length ?C - p" using le more(5) by (cases bs) auto
    with less.hyps [of w' "p + length bs"] more(2,3,4,7)
    obtain r w2 where rec: "write_to_client K fd w' = Some (r, w2)"
        "write_to_client_done fd (p + length bs) w' r w2" by auto
    then obtain q k where raw: "quiet fd w2" "dev w2 = dev w'" "fds w2 = (fds w')(fd \<mapsto> q)"
        "sent w2 = sent w' @ take k (drop (p + length bs) (contents (dev w')))"
      and out: "if r = 0 then length (contents (dev w')) \<le> p + length bs + k \<and>
          q = max (p + length bs) (length (contents (dev w')))
        else r = -1 \<and> short_send fd"
      unfolding write_to_client_done_def Let_def by blast
    have "bs @ take k (drop (p + length bs) ?C) = take (length bs + k) (drop p ?C)"
      by (subst more(6)) (simp add: take_add add.commute [of p])
    then have "sent w2 = sent w @ take (length bs + k) (drop p ?C)"
      using raw(4) more(4,8) by simp
    moreover have "fds w2 = (fds w)(fd \<mapsto> q)" using raw(3) more(7) by simp
    moreover have "max (p + length bs) (length ?C) = max p (length ?C)" using le by simp
    ultimately have "write_to_client_done fd p w r w2"
      using raw(1,2) more(4) out unfolding write_to_client_done_def Let_def
      by - (rule exI [of _ q], rule exI [of _ "length bs + k"], simp add: add.assoc split: if_splits)
    with rec(1) more(1) show ?thesis by auto
  qed
qed

section \<open>What a packet does\<close>

lemma append_packet_stored:
  assumes "inv b w" and "quiet rd w" and "fds w rd = Some p" and "packet d" and "append_packet K d w = Some (r, w')"
  shows "quiet rd w' \<and> sent w' = sent w \<and> (r = 0 \<longrightarrow> (\<exists>res. res \<noteq> -1 \<and> stored res d (dev w) (dev w')))"
proof -
  obtain fd w1 where op: "sys_open_append K w = Some (fd, w1)" "inv b w1"
      "if fd < 0 then fd = -1 \<and> fds w1 = fds w else fds w fd = None \<and> fds w1 = (fds w)(fd \<mapsto> 0)"
    using open_append_law [OF assms(1)] by blast
  note q1 = quiet_open [OF assms(1-3) op(1)]
  show ?thesis
  proof (cases "fd < 0")
    case True
    with op assms(5) q1 show ?thesis by (simp add: append_packet_def)
  next
    case False
    with op have pos: "fds w1 fd = Some 0" by auto
    obtain res w2 q where wr: "sys_write K w1 fd d = Some (res, w2)" "inv b w2" "fds w2 = (fds w1)(fd \<mapsto> q)"
      using write_law [OF op(2) pos assms(4)] by blast
    have q2: "quiet rd w2" "sent w2 = sent w1" "stored res d (dev w1) (dev w2)"
      using quiet_write [OF op(2) _ pos assms(4) wr(1), of rd] q1 by auto
    have q: "fds w2 fd = Some q" "fd \<noteq> rd" using wr(3) op(3) False assms(3) by auto
    from close_law [OF wr(2) q(1)] obtain w3 where cl: "sys_close K w2 fd = Some w3" by blast
    have "quiet rd w3 \<and> dev w3 = dev w2 \<and> sent w3 = sent w2" by (rule quiet_close [OF wr(2) q2(1) q(2,1) cl])
    with False op(1) wr(1) cl assms(5) q1 q2 show ?thesis
      by (auto simp: append_packet_def split: if_splits)
  qed
qed

lemma locked_append_stored:
  assumes "inv False w" and "quiet rd w" and "fds w rd = Some p" and "packet d" and "locked_append d w = Some (r, w')"
  shows "quiet rd w' \<and> sent w' = sent w \<and> (r = 0 \<longrightarrow> (\<exists>res. res \<noteq> -1 \<and> stored res d (dev w) (dev w')))"
proof (cases "use_char_device K")
  case True
  then have "append_packet K d w = Some (r, w')"
    using append_packet_returns [OF assms(1,4)] assms(5) by (auto simp: locked_append_def)
  then show ?thesis by (rule append_packet_stored [OF assms(1-4)])
next
  case False
  obtain w0 where w0: "mutex_lock_file K w = Some w0" "inv True w0" "fds w0 = fds w"
    using lock_law [OF False assms(1)] by blast
  note q0 = quiet_lock [OF assms(1,2) w0(1)]
  obtain r1 w1 where w1: "append_packet K d w0 = Some (r1, w1)" "inv True w1"
    using append_packet_returns [OF w0(2) assms(4)] by blast
  have q1: "quiet rd w1 \<and> sent w1 = sent w0 \<and> (r1 = 0 \<longrightarrow> (\<exists>res. res \<noteq> -1 \<and> stored res d (dev w0) (dev w1)))"
    using q0 w0(3) assms(3) by (intro append_packet_stored [OF w0(2) _ _ assms(4) w1(1), of rd p]) simp_all
  have "mutex_unlock_file K w1 = Some w'" "r = r1"
    using False w0(1) w1(1) assms(5) by (auto simp: locked_append_def split: Option.bind_splits)
  with quiet_unlock [OF w1(2), of rd] q0 q1 show ?thesis by auto
qed

text \<open>
  A complete packet that is not a seek command: it is written and, if no call fails, everything from
  the descriptor's position on is sent back.
\<close>

lemma packet_echo:
  assumes ok: "inv False (world s)" "quiet fd (world s)" "fds (world s) fd = Some p" and buf: "buf_inv h0 s d"
    and c: "0 < length c" "length c < BUFFER_SIZE"
    and pk: "take (length SEEKTO) (d @ c) \<noteq> SEEKTO" "newline \<in> set (d @ c)" "packet (d @ c)"
    and ret: "recv_body K fd c s = Some (True, s')" and mem: "mem_ok K"
  shows "(\<exists>res. res \<noteq> -1 \<and> stored res (d @ c) (dev (world s)) (dev (world s'))) \<and>
    sent (world s') = sent (world s) @ drop p (contents (dev (world s'))) \<and>
    fds (world s') = (fds (world s))(fd \<mapsto> max p (length (contents (dev (world s'))))) \<and>
    buf_inv h0 s' []"
  using buf c mem
proof (cases rule: recv_body_cases [where fd = fd])
  case (no_memory s1)
  with ret show ?thesis by simp
next
  case (collected s2)
  have hp: "handle_packet K fd s2 = Some (True, s')" using collected(4) pk ret by simp
  obtain r w1 where ap: "locked_append (d @ c) (world s) = Some (r, w1)" "inv False w1"
      "fds w1 = fds (world s)"
    using locked_append_returns [OF ok(1) pk(3)] by blast
  have q1: "quiet fd w1 \<and> sent w1 = sent (world s) \<and>
      (r = 0 \<longrightarrow> (\<exists>res. res \<noteq> -1 \<and> stored res (d @ c) (dev (world s)) (dev w1)))"
    by (rule locked_append_stored [OF ok pk(3) ap(1)])
  have free: "freeable h0 (s2\<lparr>world := w1\<rparr>)" using buf_inv_freeable [OF collected(1)] by simp
  obtain go s3 where rs: "reset_buffer K (s2\<lparr>world := w1\<rparr>) = Some (go, s3)" "world s3 = w1"
      "if go then buf_inv h0 s3 [] else freeable h0 s3"
    using reset_buffer_inv [OF mem_okD(1) [OF mem] free] by auto
  obtain r2 w2 where wr: "write_to_client K fd w1 = Some (r2, w2)" "write_to_client_done fd p w1 r2 w2"
    using write_to_client_spec [OF ap(2), of fd p] q1 ap(3) ok(3) by auto
  have res: "r = 0" "go" "r2 = 0" "s' = s3\<lparr>world := w2\<rparr>"
    using hp ap(1) rs(1,2) wr(1) collected(3)
    unfolding handle_packet_locked [OF buf_inv_load [OF collected(1)]] by (auto split: if_splits)
  from wr(2) res(3) obtain q k where w2: "dev w2 = dev w1" "fds w2 = (fds w1)(fd \<mapsto> q)"
      "sent w2 = sent w1 @ take k (drop p (contents (dev w1)))"
      "length (contents (dev w1)) \<le> p + k" "q = max p (length (contents (dev w1)))"
    by (auto simp: write_to_client_done_def Let_def)
  with res ap(3) rs q1 show ?thesis by simp
qed

end

end
