(* ===== verification/Device_Host.thy ===== *)
theory Device_Host
  imports Handler_Host Driver_System
begin

text \<open>
  The system the server runs on when it is built with \<open>USE_AESD_CHAR_DEVICE\<close>: system calls on
  \<open>/dev/aesdchar\<close> reach the operations of the driver through its operations table.  How the kernel
  behaves at each call (its allocator, interruptions, the descriptor \<open>open\<close> picks, how much a
  \<open>send\<close> takes) is part of the world and arbitrary within \<open>host_ok\<close>.  So is what other threads and
  processes do to the driver between two calls of the handler: any operations on descriptors
  that are not the handler's own.  The theory proves the laws of \<open>server_host\<close> with such
  interference, those of \<open>storage_host\<close> without it, and \<open>server_host\<close> again with the stronger
  invariant that no incomplete command is pending, as a rely-guarantee argument.
\<close>

section \<open>Other users of the driver\<close>

fun label_fd :: "dlabel \<Rightarrow> nat" where
  "label_fd (D_open fd) = fd"
| "label_fd (D_read fd n r bs) = fd"
| "label_fd (D_write fd bs r) = fd"
| "label_fd (D_llseek fd r) = fd"
| "label_fd (D_ioctl fd cmd r) = fd"
| "label_fd (D_release fd) = fd"

text \<open>Any number of operations on descriptors outside \<open>M\<close>.\<close>

inductive others_run :: "nat set \<Rightarrow> dsys \<Rightarrow> dsys \<Rightarrow> bool" for M where
  others_nil: "others_run M s s"
| others_snoc: "others_run M s t \<Longrightarrow> driver_step t l u \<Longrightarrow> label_fd l \<notin> M \<Longrightarrow> others_run M s u"

lemma driver_step_files: "driver_step s l t \<Longrightarrow> fd \<noteq> label_fd l \<Longrightarrow> files t fd = files s fd"
  by (induction rule: driver_step.induct) auto

lemma others_run_keeps:
  assumes "others_run M s t" and "dsys_inv s"
  shows "dsys_inv t \<and> (\<forall>fd \<in> M. files t fd = files s fd)"
  using assms
proof (induction rule: others_run.induct)
  case (others_snoc s t l u)
  then show ?case using driver_step_simulates [of t l u] driver_step_files [of t l u] by metis
qed simp

section \<open>System calls on the device\<close>

text \<open>
  \<open>h_user H u\<close> is the kernel interface while the caller's buffer holds \<open>u\<close>, \<open>h_seek H q\<close> while it
  holds the seek structure \<open>q\<close>.  \<open>mine\<close> are the descriptors of this thread; \<open>others n\<close> is what everyone
  else does before its \<open>n\<close>th call.
\<close>

record host =
  h_user :: "byte list \<Rightarrow> kapi"
  h_seek :: "aesd_seekto \<Rightarrow> kapi"
  h_fd :: "dsys \<Rightarrow> nat option"
  h_send :: "byte list \<Rightarrow> int"

record vfs =
  vsys :: dsys
  clock :: nat
  hosts :: "nat \<Rightarrow> host"
  outgoing :: "byte list"
  mine :: "nat set"
  others :: "nat \<Rightarrow> nat set \<Rightarrow> dsys \<Rightarrow> dsys"

definition disturb :: "vfs \<Rightarrow> vfs" where
  "disturb w = w\<lparr>vsys := others w (clock w) (mine w) (vsys w)\<rparr>"

definition host_ok :: "host \<Rightarrow> bool" where
  "host_ok H \<longleftrightarrow>
     (\<forall>u. kapi_ok (h_user H u) \<and>
        (length u \<le> MAX_RW_COUNT \<longrightarrow>
           copy_from_user (h_user H u) 0 (word_of_nat (length u)) = Some u)) \<and>
     (\<forall>s fd. h_fd H s = Some fd \<longrightarrow> files s fd = None) \<and>
     (\<forall>bs. h_send H bs \<le> int (length bs))"

abbreviation now :: "vfs \<Rightarrow> host" where
  "now w \<equiv> hosts w (clock w)"

definition set_file :: "vfs \<Rightarrow> kernel \<Rightarrow> nat \<Rightarrow> kfile option \<Rightarrow> vfs" where
  "set_file w k fd f = w\<lparr>clock := Suc (clock w),
     mine := (if f = None then mine w - {fd} else insert fd (mine w)),
     vsys := (vsys w)\<lparr>kern := k, files := (files (vsys w))(fd := f)\<rparr>\<rparr>"

definition vfs_open :: "vfs \<Rightarrow> (int \<times> vfs) option" where
  "vfs_open w =
     (case h_fd (now w) (vsys w) of
        None \<Rightarrow> Some (-1, w\<lparr>clock := Suc (clock w)\<rparr>)
      | Some fd \<Rightarrow>
          (case fop_open aesd_fops aesd_inode \<lparr>private_data = None, f_pos = 0\<rparr> of (r, f) \<Rightarrow>
             if r = 0 then Some (int fd, set_file w (kern (vsys w)) fd (Some f))
             else Some (-1, w\<lparr>clock := Suc (clock w)\<rparr>)))"

definition vfs_read :: "vfs \<Rightarrow> int \<Rightarrow> nat \<Rightarrow> (byte list option \<times> vfs) option" where
  "vfs_read w fd n = do {
     f \<leftarrow> files (vsys w) (nat fd);
     (r, bs, pos, k) \<leftarrow> fop_read aesd_fops (h_user (now w) []) f 0
       (word_of_nat (min n MAX_RW_COUNT)) (f_pos f) (kern (vsys w));
     Some (case r of Inl e \<Rightarrow> None | Inr m \<Rightarrow> Some bs,
       set_file w k (nat fd) (Some (f\<lparr>f_pos := pos\<rparr>)))
   }"

definition vfs_write :: "vfs \<Rightarrow> int \<Rightarrow> byte list \<Rightarrow> (int \<times> vfs) option" where
  "vfs_write w fd bs = do {
     f \<leftarrow> files (vsys w) (nat fd);
     let u = take MAX_RW_COUNT bs;
     (r, pos, k) \<leftarrow> fop_write aesd_fops (h_user (now w) u) f 0 (word_of_nat (length u)) (f_pos f)
       (kern (vsys w));
     Some (case r of Inl e \<Rightarrow> -1 | Inr m \<Rightarrow> int (unat m),
       set_file w k (nat fd) (Some (f\<lparr>f_pos := pos\<rparr>)))
   }"

text \<open>Code equations that do not unfold the bound for short transfers.\<close>

lemma min_count_code: "min n MAX_RW_COUNT = (if n \<le> 1024 then n else min n MAX_RW_COUNT)"
  by (simp add: MAX_RW_COUNT_def min_def)

lemma take_count_code:
  "take MAX_RW_COUNT bs = (if length bs \<le> 1024 then bs else take MAX_RW_COUNT bs)"
  by (simp add: MAX_RW_COUNT_def)

lemma vfs_read_code [code]:
  "vfs_read w fd n = do {
     f \<leftarrow> files (vsys w) (nat fd);
     (r, bs, pos, k) \<leftarrow> fop_read aesd_fops (h_user (now w) []) f 0
       (word_of_nat (if n \<le> 1024 then n else min n MAX_RW_COUNT)) (f_pos f) (kern (vsys w));
     Some (case r of Inl e \<Rightarrow> None | Inr m \<Rightarrow> Some bs,
       set_file w k (nat fd) (Some (f\<lparr>f_pos := pos\<rparr>)))
   }"
  unfolding vfs_read_def by (subst min_count_code) (rule refl)

lemma vfs_write_code [code]:
  "vfs_write w fd bs = do {
     f \<leftarrow> files (vsys w) (nat fd);
     let u = (if length bs \<le> 1024 then bs else take MAX_RW_COUNT bs);
     (r, pos, k) \<leftarrow> fop_write aesd_fops (h_user (now w) u) f 0 (word_of_nat (length u)) (f_pos f)
       (kern (vsys w));
     Some (case r of Inl e \<Rightarrow> -1 | Inr m \<Rightarrow> int (unat m),
       set_file w k (nat fd) (Some (f\<lparr>f_pos := pos\<rparr>)))
   }"
  unfolding vfs_write_def by (subst take_count_code) (rule refl)

definition vfs_ioctl :: "vfs \<Rightarrow> int \<Rightarrow> aesd_seekto \<Rightarrow> (int \<times> vfs) option" where
  "vfs_ioctl w fd seekto = do {
     f \<leftarrow> files (vsys w) (nat fd);
     let K = h_seek (now w) seekto;
     (r, f', k) \<leftarrow> fop_unlocked_ioctl aesd_fops K f (AESDCHAR_IOCSEEKTO K) 0 (kern (vsys w));
     Some (case r of Inl e \<Rightarrow> -1 | Inr m \<Rightarrow> int (unat m), set_file w k (nat fd) (Some f'))
   }"

definition vfs_close :: "vfs \<Rightarrow> int \<Rightarrow> vfs option" where
  "vfs_close w fd = do {
     f \<leftarrow> files (vsys w) (nat fd);
     if fop_release aesd_fops aesd_inode f = 0
     then Some (set_file w (kern (vsys w)) (nat fd) None) else None
   }"

definition vfs_send :: "vfs \<Rightarrow> byte list \<Rightarrow> (int \<times> vfs) option" where
  "vfs_send w bs = (let r = h_send (now w) bs in
     Some (r, w\<lparr>clock := Suc (clock w), outgoing := outgoing w @ take (nat r) bs\<rparr>))"

definition aesd_hapi ::
  "(heap \<Rightarrow> size_t \<Rightarrow> ptr \<times> heap) \<Rightarrow> (heap \<Rightarrow> ptr \<Rightarrow> size_t \<Rightarrow> ptr \<times> heap) \<Rightarrow> (int \<Rightarrow> 32 word) \<Rightarrow> vfs hapi"
where
  "aesd_hapi M R I =
     \<lparr>sys_open_rdonly = (\<lambda>w. vfs_open (disturb w)), sys_open_append = (\<lambda>w. vfs_open (disturb w)),
      sys_read = (\<lambda>w. vfs_read (disturb w)), sys_write = (\<lambda>w. vfs_write (disturb w)),
      sys_ioctl = (\<lambda>w. vfs_ioctl (disturb w)), sys_close = (\<lambda>w. vfs_close (disturb w)),
      sys_send = (\<lambda>w. vfs_send (disturb w)),
      mutex_lock_file = Some, mutex_unlock_file = Some, malloc = M, realloc = R, libc_int = I,
      use_char_device = True\<rparr>"

lemma aesd_hapi_sel [simp]:
  "sys_open_rdonly (aesd_hapi M R I) w = vfs_open (disturb w)"
  "sys_open_append (aesd_hapi M R I) w = vfs_open (disturb w)"
  "sys_read (aesd_hapi M R I) w fd n = vfs_read (disturb w) fd n"
  "sys_write (aesd_hapi M R I) w fd bs = vfs_write (disturb w) fd bs"
  "sys_ioctl (aesd_hapi M R I) w fd q = vfs_ioctl (disturb w) fd q"
  "sys_close (aesd_hapi M R I) w fd = vfs_close (disturb w) fd"
  "sys_send (aesd_hapi M R I) w bs = vfs_send (disturb w) bs" "use_char_device (aesd_hapi M R I)"
  "mutex_lock_file (aesd_hapi M R I) = Some" "mutex_unlock_file (aesd_hapi M R I) = Some"
  "malloc (aesd_hapi M R I) = M" "realloc (aesd_hapi M R I) = R" "libc_int (aesd_hapi M R I) = I"
  by (simp_all add: aesd_hapi_def)

section \<open>The laws\<close>

definition vfs_inv :: "vfs \<Rightarrow> bool" where
  "vfs_inv w \<longleftrightarrow> dsys_inv (vsys w) \<and> (\<forall>n. host_ok (hosts w n)) \<and>
     (\<forall>n M s. dsys_inv s \<longrightarrow> others_run M s (others w n M s)) \<and>
     (\<forall>fd \<in> mine w. files (vsys w) fd \<noteq> None)"

definition vfs_fds :: "vfs \<Rightarrow> int \<rightharpoonup> nat" where
  "vfs_fds w fd =
     (if fd < 0 \<or> nat fd \<notin> mine w then None else map_option (\<lambda>f. unat (f_pos f)) (files (vsys w) (nat fd)))"

definition vfs_dev :: "vfs \<Rightarrow> log_dev" where
  "vfs_dev w = abs_dev (kern (vsys w))"

text \<open>
  No read is interrupted or fails to reach the reader's buffer, and nobody else uses the driver.
\<close>

definition vfs_reliable :: "vfs \<Rightarrow> bool" where
  "vfs_reliable w \<longleftrightarrow> (\<forall>n. \<not> lock_interrupted (h_user (hosts w n) []) \<and>
     (\<forall>p bs. copy_to_user (h_user (hosts w n) []) p bs) \<and> (\<forall>M s. others w n M s = s))"

lemma set_file_simps [simp]:
  "vsys (set_file w k fd f) = (vsys w)\<lparr>kern := k, files := (files (vsys w))(fd := f)\<rparr>"
  "hosts (set_file w k fd f) = hosts w" "others (set_file w k fd f) = others w"
  "mine (set_file w k fd f) = (if f = None then mine w - {fd} else insert fd (mine w))" "outgoing (set_file w k fd f) = outgoing w"
  "vfs_dev (set_file w k fd f) = abs_dev k" "vfs_reliable (set_file w k fd f) = vfs_reliable w"
  by (simp_all add: set_file_def vfs_dev_def vfs_reliable_def)

lemma vfs_tick [simp]:
  "vfs_fds (w\<lparr>clock := c\<rparr>) = vfs_fds w" "vfs_fds (w\<lparr>clock := c, outgoing := out\<rparr>) = vfs_fds w"
  by (simp_all add: vfs_fds_def fun_eq_iff)

lemma vfs_fds_set_file:
  "0 \<le> fd \<Longrightarrow> vfs_fds (set_file w k (nat fd) f) = (vfs_fds w)(fd := map_option (\<lambda>f. unat (f_pos f)) f)"
  by (auto simp: vfs_fds_def fun_eq_iff nat_eq_iff)

lemma vfs_fds_Some:
  assumes "vfs_inv w" and "vfs_fds w fd = Some p"
  obtains f where "0 \<le> fd" "files (vsys w) (nat fd) = Some f" "p = unat (f_pos f)"
    "private_data f = Some Aesd_device" "dev_inv (kern (vsys w))"
  using assms by (auto simp: vfs_fds_def vfs_inv_def dsys_inv_def split: if_splits)

lemma vfs_inv_set_file:
  assumes "vfs_inv w" and "dev_inv k" and "\<And>g. f = Some g \<Longrightarrow> private_data g = Some Aesd_device"
  shows "vfs_inv (set_file w k fd f)"
  using assms by (auto simp: vfs_inv_def dsys_inv_def split: if_splits)

lemma vfs_open_law:
  assumes "vfs_inv w"
  shows "\<exists>fd w'. vfs_open w = Some (fd, w') \<and> vfs_inv w' \<and> vfs_reliable w' = vfs_reliable w \<and> vfs_dev w' = vfs_dev w \<and>
    outgoing w' = outgoing w \<and>
    (if fd < 0 then fd = -1 \<and> vfs_fds w' = vfs_fds w
     else vfs_fds w fd = None \<and> vfs_fds w' = (vfs_fds w)(fd \<mapsto> 0))"
proof (cases "h_fd (now w) (vsys w)")
  case None
  then show ?thesis
    using assms by (auto simp: vfs_open_def vfs_inv_def vfs_dev_def vfs_reliable_def)
next
  case (Some fd)
  let ?f = "\<lparr>private_data = Some Aesd_device, f_pos = 0\<rparr> :: kfile"
  let ?w = "set_file w (kern (vsys w)) fd (Some ?f)"
  have free: "files (vsys w) fd = None" using assms Some by (auto simp: vfs_inv_def host_ok_def)
  have "vfs_open w = Some (int fd, ?w)"
    using Some by (simp add: vfs_open_def aesd_fops_def aesd_open_def)
  moreover have "vfs_inv ?w"
    using assms by (intro vfs_inv_set_file) (auto simp: vfs_inv_def dsys_inv_def)
  moreover have "vfs_fds ?w = (vfs_fds w)(int fd \<mapsto> 0)"
    using vfs_fds_set_file [of "int fd" w] by simp
  ultimately show ?thesis using free by (simp add: vfs_dev_def vfs_fds_def)
qed

lemma vfs_read_law:
  assumes inv: "vfs_inv w" and fd: "vfs_fds w fd = Some p" and n: "0 < n" "n \<le> MAX_RW_COUNT"
  shows "\<exists>r w'. vfs_read w fd n = Some (r, w') \<and> vfs_inv w' \<and> vfs_reliable w' = vfs_reliable w \<and> vfs_dev w' = vfs_dev w \<and>
    outgoing w' = outgoing w \<and>
    (case r of
       None \<Rightarrow> vfs_fds w' = vfs_fds w \<and> \<not> vfs_reliable w
     | Some bs \<Rightarrow> bs = take (length bs) (drop p (log_contents (vfs_dev w))) \<and>
         (bs = [] \<longleftrightarrow> length (log_contents (vfs_dev w)) \<le> p) \<and>
         vfs_fds w' = (vfs_fds w)(fd \<mapsto> p + length bs))"
proof -
  obtain f where f: "0 \<le> fd" "files (vsys w) (nat fd) = Some f" "p = unat (f_pos f)"
      "private_data f = Some Aesd_device" "dev_inv (kern (vsys w))"
    by (rule vfs_fds_Some [OF inv fd])
  let ?K = "h_user (now w) []" and ?n = "word_of_nat n :: size_t" and ?k = "kern (vsys w)"
  have "unat ?n = n" using n by (intro unat_of_nat64) (simp add: MAX_RW_COUNT_def)
  then have nz: "?n \<noteq> 0" using n(1) by auto
  obtain r bs pos where rd: "aesd_read ?K f 0 ?n (f_pos f) ?k = Some (r, bs, pos, ?k)"
    using read_total [OF f(5,4)] by blast
  let ?w = "set_file w ?k (nat fd) (Some (f\<lparr>f_pos := pos\<rparr>))"
  have vr: "vfs_read w fd n = Some (case r of Inl e \<Rightarrow> None | Inr m \<Rightarrow> Some bs, ?w)"
    using f(2) rd n(2) by (simp add: vfs_read_def aesd_fops_def min_absorb1)
  have inv': "vfs_inv ?w" using f(4,5) by (intro vfs_inv_set_file [OF inv]) auto
  have fds': "vfs_fds ?w = (vfs_fds w)(fd \<mapsto> unat pos)" using vfs_fds_set_file [OF f(1)] by simp
  show ?thesis
  proof (cases r)
    case (Inl e)
    with rd have "pos = f_pos f \<and> \<not> vfs_reliable w"
      by (auto simp: vfs_reliable_def aesd_read_eq [OF f(5,4)] Let_def split: if_splits option.splits prod.splits)
    then have "vfs_fds ?w = vfs_fds w" "\<not> vfs_reliable w" using fds' fd f(3) by (simp_all add: fun_upd_idem)
    with Inl vr inv' show ?thesis by (simp add: vfs_dev_def)
  next
    case (Inr m)
    from aesd_read_bytes [OF f(5,4) rd [unfolded Inr]] nz f(3) fds'
    show ?thesis using Inr vr inv' by (auto simp: vfs_dev_def)
  qed
qed

lemma vfs_write_law:
  assumes inv: "vfs_inv w" and fd: "vfs_fds w fd = Some p"
  shows "\<exists>r w' q. vfs_write w fd bs = Some (r, w') \<and> vfs_inv w' \<and> vfs_reliable w' = vfs_reliable w \<and> outgoing w' = outgoing w \<and>
    vfs_fds w' = (vfs_fds w)(fd \<mapsto> q) \<and>
    (if r = -1 then vfs_dev w' = vfs_dev w \<or> vfs_dev w' = (vfs_dev w)\<lparr>pending := []\<rparr>
     else vfs_dev w' = log_write (take MAX_RW_COUNT bs) (vfs_dev w))"
proof -
  obtain f where f: "0 \<le> fd" "files (vsys w) (nat fd) = Some f" "p = unat (f_pos f)"
      "private_data f = Some Aesd_device" "dev_inv (kern (vsys w))"
    by (rule vfs_fds_Some [OF inv fd])
  define u where "u = take MAX_RW_COUNT bs"
  let ?K = "h_user (now w) u" and ?n = "word_of_nat (length u) :: size_t" and ?k = "kern (vsys w)"
  have len: "length u \<le> MAX_RW_COUNT" by (simp add: u_def)
  then have K: "kapi_ok ?K" "copy_from_user ?K 0 ?n = Some u"
    using inv by (auto simp: vfs_inv_def host_ok_def)
  have "unat ?n = length u" using len by (intro unat_of_nat64) (simp add: MAX_RW_COUNT_def)
  with len have n: "unat ?n \<le> MAX_RW_COUNT" by simp
  obtain r pos k where wr: "aesd_write ?K f 0 ?n (f_pos f) ?k = Some (r, pos, k)"
      "written ?K 0 ?n (f_pos f) ?k (r, pos, k)"
    using aesd_write_written [OF f(5) K(1) n f(4)] by (metis prod_cases3)
  have out: "dev_inv k \<and> (case r of Inl e \<Rightarrow> abs_dev k = abs_dev ?k \<or> abs_dev k = (abs_dev ?k)\<lparr>pending := []\<rparr>
      | Inr m \<Rightarrow> abs_dev k = log_write u (abs_dev ?k))"
    using wr(2) f(5) K(2) by cases auto
  let ?w = "set_file w k (nat fd) (Some (f\<lparr>f_pos := pos\<rparr>))"
  have "vfs_write w fd bs = Some (case r of Inl e \<Rightarrow> -1 | Inr m \<Rightarrow> int (unat m), ?w)"
    using f(2) wr(1) by (simp add: vfs_write_def aesd_fops_def u_def)
  moreover have "vfs_inv ?w" using f(4) out by (intro vfs_inv_set_file [OF inv]) auto
  moreover have "vfs_fds ?w = (vfs_fds w)(fd \<mapsto> unat pos)" using vfs_fds_set_file [OF f(1)] by simp
  moreover have "int (unat m) \<noteq> -1" for m :: size_t
    using of_nat_0_le_iff [of "unat m"] by linarith
  ultimately show ?thesis
    using out by (cases r) (simp_all add: vfs_dev_def u_def del: uint_nat int_nat_eq of_nat_unat,
        blast+)
qed

lemma vfs_ioctl_law:
  assumes inv: "vfs_inv w" and fd: "vfs_fds w fd = Some p"
  shows "\<exists>r w' q. vfs_ioctl w fd seekto = Some (r, w') \<and> vfs_inv w' \<and> vfs_reliable w' = vfs_reliable w \<and> vfs_dev w' = vfs_dev w \<and>
    outgoing w' = outgoing w \<and> vfs_fds w' = (vfs_fds w)(fd \<mapsto> q)"
proof -
  obtain f where f: "0 \<le> fd" "files (vsys w) (nat fd) = Some f" "p = unat (f_pos f)"
      "private_data f = Some Aesd_device" "dev_inv (kern (vsys w))"
    by (rule vfs_fds_Some [OF inv fd])
  let ?K = "h_seek (now w) seekto" and ?k = "kern (vsys w)"
  obtain r f' where io: "aesd_ioctl ?K f (AESDCHAR_IOCSEEKTO ?K) 0 ?k = Some (r, f', ?k)"
      "private_data f' = Some Aesd_device"
    using aesd_ioctl_frame [OF f(5,4), of ?K "AESDCHAR_IOCSEEKTO ?K" 0] f(4)
    by (auto split: option.splits)
  let ?w = "set_file w ?k (nat fd) (Some f')"
  have "vfs_ioctl w fd seekto = Some (case r of Inl e \<Rightarrow> -1 | Inr m \<Rightarrow> int (unat m), ?w)"
    using f(2) io(1) by (simp add: vfs_ioctl_def aesd_fops_def)
  moreover have "vfs_inv ?w" using f(5) io(2) by (intro vfs_inv_set_file [OF inv]) auto
  moreover have "vfs_fds ?w = (vfs_fds w)(fd \<mapsto> unat (f_pos f'))" using vfs_fds_set_file [OF f(1)] by simp
  ultimately show ?thesis by (simp add: vfs_dev_def) blast
qed

lemma vfs_close_law:
  assumes inv: "vfs_inv w" and fd: "vfs_fds w fd = Some p"
  shows "\<exists>w'. vfs_close w fd = Some w' \<and> vfs_inv w' \<and> vfs_reliable w' = vfs_reliable w \<and> vfs_dev w' = vfs_dev w \<and>
    outgoing w' = outgoing w \<and> vfs_fds w' = (vfs_fds w)(fd := None)"
proof -
  obtain f where f: "0 \<le> fd" "files (vsys w) (nat fd) = Some f" "dev_inv (kern (vsys w))"
    by (rule vfs_fds_Some [OF inv fd])
  have "vfs_inv (set_file w (kern (vsys w)) (nat fd) None)"
    using f(3) by (intro vfs_inv_set_file [OF inv]) auto
  with f vfs_fds_set_file [OF f(1), of w "kern (vsys w)" None] show ?thesis
    by (simp add: vfs_close_def aesd_fops_def aesd_release_def vfs_dev_def)
qed

lemma vfs_send_law:
  assumes "vfs_inv w"
  shows "\<exists>r w' k. vfs_send w bs = Some (r, w') \<and> vfs_inv w' \<and> vfs_reliable w' = vfs_reliable w \<and> vfs_dev w' = vfs_dev w \<and>
    vfs_fds w' = vfs_fds w \<and> outgoing w' = outgoing w @ take k bs \<and>
    (r = int (length bs) \<longrightarrow> k = length bs)"
  using assms by (auto simp: vfs_send_def Let_def vfs_inv_def vfs_dev_def vfs_reliable_def)

section \<open>The host's contracts\<close>

lemma disturb_simps [simp]:
  "clock (disturb w) = clock w" "hosts (disturb w) = hosts w" "outgoing (disturb w) = outgoing w"
  "mine (disturb w) = mine w" "others (disturb w) = others w" "vfs_reliable (disturb w) = vfs_reliable w"
  by (simp_all add: disturb_def vfs_reliable_def)

lemma disturb_quiet: "vfs_reliable w \<Longrightarrow> disturb w = w"
  by (simp add: disturb_def vfs_reliable_def)

text \<open>The others leave the handler's descriptors alone and keep the invariant.\<close>

lemma disturb_keeps:
  assumes "vfs_inv w"
  shows "vfs_inv (disturb w)" and "vfs_fds (disturb w) = vfs_fds w"
proof -
  have *: "dsys_inv (vsys (disturb w))" "\<And>fd. fd \<in> mine w \<Longrightarrow> files (vsys (disturb w)) fd = files (vsys w) fd"
    using assms others_run_keeps [of "mine w" "vsys w" "vsys (disturb w)"]
    by (auto simp: vfs_inv_def disturb_def)
  then show "vfs_inv (disturb w)" using assms by (auto simp: vfs_inv_def)
  show "vfs_fds (disturb w) = vfs_fds w" using *(2) by (auto simp: vfs_fds_def fun_eq_iff)
qed

definition dev_stored :: "int \<Rightarrow> byte list \<Rightarrow> log_dev \<Rightarrow> log_dev \<Rightarrow> bool" where
  "dev_stored r bs d d' \<longleftrightarrow>
     (if r = -1 then d' = d \<or> d' = d\<lparr>pending := []\<rparr> else d' = log_write (take MAX_RW_COUNT bs) d)"

lemma vfs_read_limit:
  assumes "vfs_inv w" and "bs = take (length bs) (drop p (log_contents (vfs_dev w)))" and "bs \<noteq> []"
  shows "p + length bs \<le> 2 ^ 63"
proof -
  have "length bs \<le> length (log_contents (vfs_dev w)) - p" using arg_cong [OF assms(2), of length] by simp
  then have "p + length bs \<le> length (log_contents (vfs_dev w))" using assms(3) by (cases bs) auto
  moreover have "length (log_contents (vfs_dev w)) < 2 ^ 63"
    using assms(1) contents_bound by (auto simp: vfs_inv_def dsys_inv_def vfs_dev_def)
  ultimately show ?thesis by simp
qed

text \<open>The laws of one call, with what the others do before it.\<close>

lemma shared_open:
  assumes "vfs_inv w"
  shows "\<exists>fd w'. vfs_open (disturb w) = Some (fd, w') \<and> vfs_inv w' \<and>
    vfs_dev w' = vfs_dev (disturb w) \<and> others w' = others w \<and>
    (if fd < 0 then fd = -1 \<and> vfs_fds w' = vfs_fds w
     else vfs_fds w fd = None \<and> vfs_fds w' = (vfs_fds w)(fd \<mapsto> 0))"
proof -
  obtain fd w' where op: "vfs_open (disturb w) = Some (fd, w')" "vfs_inv w'" "vfs_dev w' = vfs_dev (disturb w)"
      "if fd < 0 then fd = -1 \<and> vfs_fds w' = vfs_fds w
       else vfs_fds w fd = None \<and> vfs_fds w' = (vfs_fds w)(fd \<mapsto> 0)"
    using vfs_open_law [OF disturb_keeps(1) [OF assms]] unfolding disturb_keeps(2) [OF assms] by blast
  moreover have "others w' = others w"
    using op(1) by (auto simp: vfs_open_def split: option.splits prod.splits if_splits)
  ultimately show ?thesis by blast
qed

lemma shared_read:
  assumes "vfs_inv w" and "vfs_fds w fd = Some p" and "0 < n" and "n \<le> MAX_RW_COUNT"
  shows "\<exists>r w'. vfs_read (disturb w) fd n = Some (r, w') \<and> vfs_inv w' \<and>
    vfs_dev w' = vfs_dev (disturb w) \<and> others w' = others w \<and>
    (case r of None \<Rightarrow> vfs_fds w' = vfs_fds w
     | Some bs \<Rightarrow> vfs_fds w' = (vfs_fds w)(fd \<mapsto> p + length bs) \<and> (bs \<noteq> [] \<longrightarrow> p + length bs \<le> 2 ^ 63))"
proof -
  have fd: "vfs_fds (disturb w) fd = Some p" using assms(1,2) by (simp add: disturb_keeps(2))
  obtain r w' where rd: "vfs_read (disturb w) fd n = Some (r, w')" "vfs_inv w'"
      "vfs_dev w' = vfs_dev (disturb w)"
    and out: "case r of None \<Rightarrow> vfs_fds w' = vfs_fds w \<and> \<not> vfs_reliable (disturb w)
       | Some bs \<Rightarrow> bs = take (length bs) (drop p (log_contents (vfs_dev (disturb w)))) \<and>
           (bs = [] \<longleftrightarrow> length (log_contents (vfs_dev (disturb w))) \<le> p) \<and>
           vfs_fds w' = (vfs_fds w)(fd \<mapsto> p + length bs)"
    using vfs_read_law [OF disturb_keeps(1) [OF assms(1)] fd assms(3,4)]
    unfolding disturb_keeps(2) [OF assms(1)] by blast
  moreover have "others w' = others w"
    using rd(1) by (auto simp: vfs_read_def split: Option.bind_splits)
  moreover have "case r of None \<Rightarrow> True | Some bs \<Rightarrow> bs \<noteq> [] \<longrightarrow> p + length bs \<le> 2 ^ 63"
    using out vfs_read_limit [OF disturb_keeps(1) [OF assms(1)]] by (auto split: option.splits)
  ultimately show ?thesis by (intro exI [of _ r] exI [of _ w']) (auto split: option.splits)
qed

lemma shared_write:
  assumes "vfs_inv w" and "vfs_fds w fd = Some p"
  shows "\<exists>r w' q. vfs_write (disturb w) fd bs = Some (r, w') \<and> vfs_inv w' \<and>
    dev_stored r bs (vfs_dev (disturb w)) (vfs_dev w') \<and> others w' = others w \<and>
    vfs_fds w' = (vfs_fds w)(fd \<mapsto> q)"
proof -
  have fd: "vfs_fds (disturb w) fd = Some p" using assms by (simp add: disturb_keeps(2))
  obtain r w' q where wr: "vfs_write (disturb w) fd bs = Some (r, w')" "vfs_inv w'"
      "dev_stored r bs (vfs_dev (disturb w)) (vfs_dev w')" "vfs_fds w' = (vfs_fds w)(fd \<mapsto> q)"
    using vfs_write_law [OF disturb_keeps(1) [OF assms(1)] fd, of bs]
    unfolding disturb_keeps(2) [OF assms(1)] dev_stored_def by blast
  moreover have "others w' = others w"
    using wr(1) by (auto simp: vfs_write_def split: Option.bind_splits)
  ultimately show ?thesis by blast
qed

lemma shared_ioctl:
  assumes "vfs_inv w" and "vfs_fds w fd = Some p"
  shows "\<exists>r w' q. vfs_ioctl (disturb w) fd seekto = Some (r, w') \<and> vfs_inv w' \<and>
    vfs_dev w' = vfs_dev (disturb w) \<and> others w' = others w \<and> vfs_fds w' = (vfs_fds w)(fd \<mapsto> q)"
proof -
  have fd: "vfs_fds (disturb w) fd = Some p" using assms by (simp add: disturb_keeps(2))
  obtain r w' q where io: "vfs_ioctl (disturb w) fd seekto = Some (r, w')" "vfs_inv w'"
      "vfs_dev w' = vfs_dev (disturb w)" "vfs_fds w' = (vfs_fds w)(fd \<mapsto> q)"
    using vfs_ioctl_law [OF disturb_keeps(1) [OF assms(1)] fd, of seekto]
    unfolding disturb_keeps(2) [OF assms(1)] by blast
  moreover have "others w' = others w"
    using io(1) by (auto simp: vfs_ioctl_def Let_def split: Option.bind_splits)
  ultimately show ?thesis by blast
qed

lemma shared_close:
  assumes "vfs_inv w" and "vfs_fds w fd = Some p"
  shows "\<exists>w'. vfs_close (disturb w) fd = Some w' \<and> vfs_inv w' \<and> vfs_dev w' = vfs_dev (disturb w) \<and>
    others w' = others w \<and> vfs_fds w' = (vfs_fds w)(fd := None)"
proof -
  have fd: "vfs_fds (disturb w) fd = Some p" using assms by (simp add: disturb_keeps(2))
  obtain w' where cl: "vfs_close (disturb w) fd = Some w'" "vfs_inv w'"
      "vfs_dev w' = vfs_dev (disturb w)" "vfs_fds w' = (vfs_fds w)(fd := None)"
    using vfs_close_law [OF disturb_keeps(1) [OF assms(1)] fd]
    unfolding disturb_keeps(2) [OF assms(1)] by blast
  moreover have "others w' = others w"
    using cl(1) by (auto simp: vfs_close_def split: Option.bind_splits if_splits)
  ultimately show ?thesis by blast
qed

lemma shared_send:
  assumes "vfs_inv w"
  shows "\<exists>r w'. vfs_send (disturb w) bs = Some (r, w') \<and> vfs_inv w' \<and> vfs_dev w' = vfs_dev (disturb w) \<and>
    others w' = others w \<and> vfs_fds w' = vfs_fds w"
proof -
  obtain r w' where sd: "vfs_send (disturb w) bs = Some (r, w')" "vfs_inv w'"
      "vfs_dev w' = vfs_dev (disturb w)" "vfs_fds w' = vfs_fds w"
    using vfs_send_law [OF disturb_keeps(1) [OF assms], of bs] unfolding disturb_keeps(2) [OF assms] by blast
  moreover have "others w' = others w" using sd(1) by (auto simp: vfs_send_def Let_def)
  ultimately show ?thesis by blast
qed

lemmas shared_calls = shared_open shared_read shared_write shared_ioctl shared_close shared_send

text \<open>With any interference.\<close>

interpretation shared: server_host "aesd_hapi M R I" "\<lambda>b w. \<not> b \<and> vfs_inv w" vfs_fds "2 ^ 63" "\<lambda>bs. True"
  for M R I
proof (unfold_locales, goal_cases)
  case (1 b w)
  then obtain fd w' where "vfs_open (disturb w) = Some (fd, w')" "vfs_inv w'"
    "if fd < 0 then fd = -1 \<and> vfs_fds w' = vfs_fds w
     else vfs_fds w fd = None \<and> vfs_fds w' = (vfs_fds w)(fd \<mapsto> 0)" using shared_open [of w] by blast
  with 1 show ?case by (intro exI [of _ fd] exI [of _ w']) (auto split: if_splits)
next
  case (2 b w)
  then show ?case using shared_open [of w] unfolding aesd_hapi_sel by blast
next
  case (3 b w fd p n)
  then show ?case using shared_read [of w fd p n] unfolding aesd_hapi_sel by blast
next
  case (4 b w fd p bs)
  then show ?case using shared_write [of w fd p bs] unfolding aesd_hapi_sel by blast
next
  case (5 b w fd p seekto)
  then show ?case using shared_ioctl [of w fd p seekto] unfolding aesd_hapi_sel by blast
next
  case (6 b w fd p)
  then show ?case using shared_close [of w fd p] unfolding aesd_hapi_sel by blast
next
  case (7 b w bs)
  then show ?case using shared_send [of w bs] unfolding aesd_hapi_sel by blast
qed simp_all

text \<open>Without it.\<close>

interpretation aesd: storage_host "aesd_hapi M R I" "\<lambda>b w. \<not> b \<and> vfs_inv w" vfs_fds "2 ^ 63" "\<lambda>bs. True"
  vfs_dev log_contents dev_stored outgoing "\<lambda>rd. vfs_reliable" for M R I
proof (unfold_locales, goal_cases)
  case (1 b w rd p fd w')
  then show ?case using vfs_open_law [of w] by (auto simp: disturb_quiet)
next
  case (2 b w fd p n r w')
  then show ?case using vfs_read_law [of w fd p n] by (fastforce simp: disturb_quiet split: option.splits)
next
  case (3 b w rd fd p bs r w')
  then show ?case using vfs_write_law [of w fd p bs] by (auto simp: disturb_quiet dev_stored_def)
next
  case (4 b w rd fd p w')
  then show ?case
    by (auto simp: disturb_quiet vfs_close_def vfs_dev_def split: Option.bind_splits if_splits)
next
  case (5 b w rd bs r w')
  then have "vfs_send w bs = Some (r, w')" by (simp add: disturb_quiet)
  with 5 show ?case using vfs_send_law [of w bs] by (elim conjE exE) auto
qed simp_all

section \<open>Whole packets\<close>

text \<open>
  A write that contains a newline and is not cut short by the kernel's limit leaves no incomplete
  command.  If everyone else keeps the device free of incomplete commands, so does the handler.
\<close>

definition whole_packet :: "byte list \<Rightarrow> bool" where
  "whole_packet bs \<longleftrightarrow> newline \<in> set bs \<and> length bs \<le> MAX_RW_COUNT"

definition no_pending :: "dsys \<Rightarrow> bool" where
  "no_pending s \<longleftrightarrow> pending (abs_dev (kern s)) = []"

definition vfs_whole :: "vfs \<Rightarrow> bool" where
  "vfs_whole w \<longleftrightarrow> vfs_inv w \<and> no_pending (vsys w) \<and>
     (\<forall>n M s. dsys_inv s \<longrightarrow> no_pending s \<longrightarrow> no_pending (others w n M s))"

lemma vfs_whole_disturb: "vfs_whole w \<Longrightarrow> pending (vfs_dev (disturb w)) = []"
  by (auto simp: vfs_whole_def vfs_inv_def vfs_dev_def disturb_def no_pending_def)

lemma vfs_wholeI:
  "vfs_whole w \<Longrightarrow> vfs_inv w' \<Longrightarrow> others w' = others w \<Longrightarrow> pending (vfs_dev w') = [] \<Longrightarrow> vfs_whole w'"
  by (simp add: vfs_whole_def vfs_dev_def no_pending_def)

lemma dev_stored_whole:
  "dev_stored r bs d d' \<Longrightarrow> whole_packet bs \<Longrightarrow> pending d = [] \<Longrightarrow> pending d' = []"
  by (auto simp: dev_stored_def whole_packet_def log_write_def Let_def split: if_splits)

lemma vfs_whole_inv: "vfs_whole w \<Longrightarrow> vfs_inv w"
  by (simp add: vfs_whole_def)

lemma vfs_whole_next:
  "vfs_whole w \<Longrightarrow> vfs_inv w' \<Longrightarrow> vfs_dev w' = vfs_dev (disturb w) \<Longrightarrow> others w' = others w \<Longrightarrow> vfs_whole w'"
  by (rule vfs_wholeI [of w]) (simp_all add: vfs_whole_disturb)

lemma whole_open:
  assumes "vfs_whole w"
  shows "\<exists>fd w'. vfs_open (disturb w) = Some (fd, w') \<and> vfs_whole w' \<and>
    (if fd < 0 then fd = -1 \<and> vfs_fds w' = vfs_fds w
     else vfs_fds w fd = None \<and> vfs_fds w' = (vfs_fds w)(fd \<mapsto> 0))"
  using shared_open [OF vfs_whole_inv [OF assms]] vfs_whole_next [OF assms] by (elim exE conjE) blast

interpretation whole: server_host "aesd_hapi M R I" "\<lambda>b w. \<not> b \<and> vfs_whole w" vfs_fds "2 ^ 63" whole_packet
  for M R I
proof (unfold_locales, goal_cases)
  case (1 b w)
  then obtain fd w' where "vfs_open (disturb w) = Some (fd, w')" "vfs_whole w'"
    "if fd < 0 then fd = -1 \<and> vfs_fds w' = vfs_fds w
     else vfs_fds w fd = None \<and> vfs_fds w' = (vfs_fds w)(fd \<mapsto> 0)"
    using whole_open [of w] by blast
  with 1 show ?case by (intro exI [of _ fd] exI [of _ w']) (auto split: if_splits)
next
  case (2 b w)
  then show ?case using whole_open [of w] unfolding aesd_hapi_sel by blast
next
  case (3 b w fd p n)
  then have w: "vfs_whole w" by blast
  show ?case
    using shared_read [OF vfs_whole_inv [OF w] 3(2-4)] vfs_whole_next [OF w] 3 unfolding aesd_hapi_sel
    by (elim exE conjE) blast
next
  case (4 b w fd p bs)
  then obtain r w' q where "vfs_write (disturb w) fd bs = Some (r, w')" "vfs_inv w'"
      "dev_stored r bs (vfs_dev (disturb w)) (vfs_dev w')" "others w' = others w"
      "vfs_fds w' = (vfs_fds w)(fd \<mapsto> q)"
    using shared_write [of w fd p bs] vfs_whole_inv by blast
  moreover from this have "vfs_whole w'"
    using 4 vfs_whole_disturb by - (rule vfs_wholeI [of w], auto dest: dev_stored_whole)
  ultimately show ?case using 4 unfolding aesd_hapi_sel by blast
next
  case (5 b w fd p seekto)
  then have w: "vfs_whole w" by blast
  show ?case
    using shared_ioctl [OF vfs_whole_inv [OF w] 5(2)] vfs_whole_next [OF w] 5 unfolding aesd_hapi_sel
    by (elim exE conjE) blast
next
  case (6 b w fd p)
  then have w: "vfs_whole w" by blast
  show ?case
    using shared_close [OF vfs_whole_inv [OF w] 6(2)] vfs_whole_next [OF w] 6 unfolding aesd_hapi_sel
    by (elim exE conjE) blast
next
  case (7 b w bs)
  then have w: "vfs_whole w" by blast
  show ?case
    using shared_send [OF vfs_whole_inv [OF w]] vfs_whole_next [OF w] 7 unfolding aesd_hapi_sel
    by (elim exE conjE) blast
qed simp_all

end
