(* ===== verification/Decimal.thy ===== *)
theory Decimal
  imports Handler
begin

text \<open>
  Decimal notation: what a client prints in a seek command and what a timestamp contains, with its
  length, and the scanner that reads it back.
\<close>

fun decimal :: "nat \<Rightarrow> byte list" where
  "decimal n = (if n < 10 then [char_of (48 + n)] else decimal (n div 10) @ [char_of (48 + n mod 10)])"

declare decimal.simps [simp del]

lemma of_char_digit: "n < 10 \<Longrightarrow> of_char (char_of (48 + n :: nat) :: byte) = 48 + n"
  by simp

lemma isdigit_digit: "n < 10 \<Longrightarrow> isdigit (char_of (48 + n :: nat))"
  by (simp add: isdigit_def)

lemma digits_value_append: "digits_value a (xs @ ys) = digits_value (digits_value a xs) ys"
  by (induction xs arbitrary: a) simp_all

lemma decimal_digits: "\<forall>c \<in> set (decimal n). isdigit c"
proof (induction n rule: decimal.induct)
  case (1 n)
  then show ?case by (cases "n < 10") (auto simp: decimal.simps [of n] isdigit_digit)
qed

lemma digits_value_decimal: "digits_value 0 (decimal n) = n"
proof (induction n rule: decimal.induct)
  case (1 n)
  show ?case
  proof (cases "n < 10")
    case True
    then show ?thesis by (simp add: decimal.simps [of n] of_char_digit)
  next
    case False
    then have "digits_value 0 (decimal n) = 10 * digits_value 0 (decimal (n div 10)) + n mod 10"
      by (simp add: decimal.simps [of n] digits_value_append of_char_digit)
    with 1 [OF False] show ?thesis by simp
  qed
qed

lemma decimal_ne: "decimal n \<noteq> []"
  by (simp add: decimal.simps [of n])

lemma digit_not_blank: "isdigit c \<Longrightarrow> \<not> isspace c \<and> c \<noteq> CHR ''-'' \<and> c \<noteq> CHR ''+''"
  by (auto simp: isdigit_def isspace_def)

lemma scan_d_decimal:
  assumes "rest = [] \<or> \<not> isdigit (hd rest)"
  shows "scan_d (decimal n @ rest) = Some (int n, rest)"
proof -
  obtain c cs where d: "decimal n = c # cs" using decimal_ne by (cases "decimal n") auto
  then have c: "isdigit c" using decimal_digits [of n] by auto
  have tw: "takeWhile isdigit (decimal n @ rest) = decimal n" "dropWhile isdigit (decimal n @ rest) = rest"
    using decimal_digits [of n] assms by (cases rest; simp add: takeWhile_append2 dropWhile_append2)+
  have "scan_sign (dropWhile isspace (decimal n @ rest)) = (False, decimal n @ rest)"
    using digit_not_blank [OF c] by (simp add: d scan_sign_def)
  with tw decimal_ne [of n] digits_value_decimal [of n] show ?thesis by (simp add: scan_d_def)
qed

lemma length_decimal: "0 < k \<Longrightarrow> n < 10 ^ k \<Longrightarrow> length (decimal n) \<le> k"
proof (induction n arbitrary: k rule: decimal.induct)
  case (1 n)
  show ?case
  proof (cases "n < 10")
    case True
    with 1(2) show ?thesis by (simp add: decimal.simps [of n])
  next
    case False
    then obtain j where j: "k = Suc j" "0 < j" using 1(2,3) by (cases k; cases "k - 1") auto
    have "n div 10 < 10 ^ j" using 1(3) j(1) by (simp add: less_mult_imp_div_less mult.commute)
    with 1(1) [OF False j(2)] False j show ?thesis by (simp add: decimal.simps [of n])
  qed
qed

end
