(* ===== verification/Handler_Theorems.thy ===== *)
theory Handler_Theorems
  imports Device_Host Driver_Theorems Decimal
begin

text \<open>
  The properties of the connection handler running on the driver, each with its instance on a
  concrete system.
\<close>

section \<open>A sample system\<close>

definition sample_malloc :: "heap \<Rightarrow> size_t \<Rightarrow> ptr \<times> heap" where
  "sample_malloc h n =
     (if 65536 < n then (NULL, h)
      else case find (\<lambda>p. h p = None) [1..<9] of
          None \<Rightarrow> (NULL, h)
        | Some p \<Rightarrow> (p, h(p \<mapsto> replicate (unat n) nul)))"

definition sample_realloc :: "heap \<Rightarrow> ptr \<Rightarrow> size_t \<Rightarrow> ptr \<times> heap" where
  "sample_realloc h q n =
     (case h q of
        None \<Rightarrow> (NULL, h)
      | Some bs \<Rightarrow>
          if 65536 < n then (NULL, h)
          else (q, h(q \<mapsto> take (unat n) bs @ replicate (unat n - length bs) nul)))"

definition sample_host :: host where
  "sample_host =
     \<lparr>h_user = sample_kapi,
      h_seek = (\<lambda>q. (sample_kapi [])\<lparr>copy_seekto_from_user := \<lambda>p. Some q\<rparr>),
      h_fd = (\<lambda>s. find (\<lambda>n. files s n = None) [3..<9]),
      h_send = (\<lambda>bs. int (length bs))\<rparr>"

abbreviation sample_hapi :: "vfs hapi" where
  "sample_hapi \<equiv> aesd_hapi sample_malloc sample_realloc word_of_int"

lemma sample_malloc_ok: "malloc_ok sample_hapi"
proof -
  have "unat n < 2 ^ 63" if "\<not> 65536 < n" for n :: size_t
    using that by (simp add: word_less_nat_alt)
  then show ?thesis
    by (fastforce simp: malloc_ok_def sample_malloc_def find_Some_iff split: if_splits option.splits
        intro: exI [of _ "replicate n nul" for n])
qed

lemma sample_realloc_ok: "realloc_ok sample_hapi"
  unfolding realloc_ok_def
proof (intro allI impI)
  fix h :: heap and q n old p h'
  assume re: "realloc sample_hapi h q n = (p, h')" and q: "q \<noteq> NULL" "h q = Some old"
  let ?new = "take (unat n) old @ replicate (unat n - length old) nul"
  show "if p = NULL then h' = h
      else (p = q \<or> h p = None) \<and> unat n < 2 ^ 63 \<and>
        (\<exists>new. length new = unat n \<and>
           take (min (length old) (unat n)) new = take (min (length old) (unat n)) old \<and>
           h' = (h(q := None))(p \<mapsto> new))"
  proof (cases "65536 < n")
    case True
    with re q show ?thesis by (simp add: sample_realloc_def)
  next
    case False
    then have eqs: "p = q" "h' = h(q \<mapsto> ?new)" using re q by (auto simp: sample_realloc_def)
    have "unat n < 2 ^ 63" using False by (simp add: word_less_nat_alt)
    moreover have "length ?new = unat n" by simp
    moreover have "take (min (length old) (unat n)) ?new = take (min (length old) (unat n)) old"
      by (simp add: min_def)
    moreover have "h' = (h(q := None))(q \<mapsto> ?new)" unfolding eqs(2) by simp
    ultimately have "unat n < 2 ^ 63 \<and>
        (\<exists>new. length new = unat n \<and>
           take (min (length old) (unat n)) new = take (min (length old) (unat n)) old \<and>
           h' = (h(q := None))(q \<mapsto> new))"
      by (intro conjI exI [of _ ?new])
    with q(1) eqs(1) show ?thesis by simp
  qed
qed

lemma sample_mem_ok: "mem_ok sample_hapi"
  by (simp add: mem_ok_def sample_malloc_ok sample_realloc_ok)

lemma sample_copy:
  assumes "length u \<le> MAX_RW_COUNT"
  shows "copy_from_user (sample_kapi u) 0 (word_of_nat (length u)) = Some u"
proof -
  have "unat (word_of_nat (length u) :: size_t) = length u"
    using assms by (intro unat_of_nat64) (simp add: MAX_RW_COUNT_def)
  then show ?thesis by (simp add: sample_kapi_def)
qed

lemma sample_host_ok: "host_ok sample_host"
  by (auto simp: host_ok_def sample_host_def sample_kapi_ok sample_copy find_Some_iff)

definition sample_world :: vfs where
  "sample_world = \<lparr>vsys = \<lparr>kern = sample_dev, files = [3 \<mapsto> opened]\<rparr>, clock = 0,
     hosts = (\<lambda>n. sample_host), outgoing = [], mine = {3}, others = (\<lambda>n M s. s)\<rparr>"

lemma sample_world_inv: "vfs_inv sample_world"
  by (simp add: vfs_inv_def sample_world_def dsys_inv_def sample_dev_inv sample_host_ok opened_dev
      others_nil)

definition sample_conn :: "vfs conn" where
  "sample_conn = \<lparr>world = sample_world, uheap = Map.empty, data_buffer = NULL, data_len = 0,
     clfd_closed = 0, done_flag = False\<rparr>"

lemma sample_fd: "vfs_fds sample_world 3 = Some 0"
  by code_simp

section \<open>Properties\<close>

text \<open>
  (C8) Whatever a client sends, in chunks of the size \<open>recv\<close> delivers, whatever calls fail, and
  whatever other threads and processes do to the driver between two calls of the handler, on
  descriptors that are not its own, the handler on the driver returns without undefined
  behaviour: every access to the packet buffer is inside its block, strings end inside it, the
  buffer is freed once and no user memory is left allocated, its descriptors are closed, the
  client's socket is closed exactly once and the connection is marked finished; the device's
  invariant holds throughout.
\<close>

theorem handle_connection_cleans_up:
  assumes "vfs_inv (world s)" and "mem_ok (aesd_hapi M R I)"
    and "\<forall>c \<in> set chunks. 0 < length c \<and> length c < BUFFER_SIZE"
  shows "\<exists>s'. handle_connection (aesd_hapi M R I) chunks s = Some s' \<and> vfs_inv (world s') \<and>
    uheap s' = uheap s \<and> vfs_fds (world s') = vfs_fds (world s) \<and>
    clfd_closed s' = Suc (clfd_closed s) \<and> done_flag s'"
  using shared.handle_connection_ok [of s chunks M R I] assms by auto

text \<open>Another thread that writes a line through descriptor 4 before every call.\<close>

definition busy :: "nat \<Rightarrow> nat set \<Rightarrow> dsys \<Rightarrow> dsys" where
  "busy n M s =
     (if 4 \<in> M then s
      else case files s 4 of
          None \<Rightarrow> s
        | Some f \<Rightarrow>
            (case aesd_write (sample_kapi (''x'' @ [newline])) f 0 2 (f_pos f) (kern s) of
               None \<Rightarrow> s
             | Some (r, pos, k) \<Rightarrow> s\<lparr>kern := k, files := (files s)(4 \<mapsto> f\<lparr>f_pos := pos\<rparr>)\<rparr>))"

lemma busy_others: "others_run M s (busy n M s)"
proof -
  have "others_run M s (s\<lparr>kern := k, files := (files s)(4 \<mapsto> f\<lparr>f_pos := pos\<rparr>)\<rparr>)"
    if "4 \<notin> M" "files s 4 = Some f"
      "aesd_write (sample_kapi (''x'' @ [newline])) f 0 2 (f_pos f) (kern s) = Some (r, pos, k)" for f r pos k
    using that
    by (intro others_snoc [OF others_nil d_write [OF that(2) sample_kapi_ok]])
      (simp_all add: aesd_fops_def MAX_RW_COUNT_def)
  then show ?thesis by (auto simp: busy_def intro: others_nil split: option.splits)
qed

definition busy_conn :: "vfs conn" where
  "busy_conn = sample_conn\<lparr>world := sample_world\<lparr>
     vsys := \<lparr>kern = sample_dev, files = [3 \<mapsto> opened, 4 \<mapsto> opened]\<rparr>, others := busy\<rparr>\<rparr>"

lemma busy_conn_inv: "vfs_inv (world busy_conn)"
  using sample_world_inv by (simp add: vfs_inv_def busy_conn_def sample_world_def dsys_inv_def busy_others opened_dev)

theorem handle_connection_cleans_up_witness:
  "\<exists>s'. handle_connection sample_hapi [''he'', ''llo'' @ [newline]] busy_conn = Some s' \<and>
     vfs_inv (world s') \<and> uheap s' = Map.empty \<and> clfd_closed s' = 1 \<and> done_flag s'"
  using handle_connection_cleans_up [of busy_conn sample_malloc sample_realloc word_of_int
      "[''he'', ''llo'' @ [newline]]"] busy_conn_inv sample_mem_ok
  by (auto simp: busy_conn_def sample_conn_def)

text \<open>
  (C16) Packets stay whole under concurrency.  If the device holds no incomplete command when a
  connection starts, and no other user of the driver leaves one behind, then the handler leaves
  none either, for any client that sends at most \<open>MAX_RW_COUNT\<close> bytes: packets of different
  connections never run together in the device.
\<close>

theorem packets_stay_whole:
  assumes "vfs_inv (world s)" and "pending (vfs_dev (world s)) = []"
    and "\<And>n M s'. dsys_inv s' \<Longrightarrow> pending (abs_dev (kern s')) = [] \<Longrightarrow>
      pending (abs_dev (kern (others (world s) n M s'))) = []"
    and "mem_ok (aesd_hapi M R I)" and "\<forall>c \<in> set chunks. 0 < length c \<and> length c < BUFFER_SIZE"
    and "sum_list (map length chunks) \<le> MAX_RW_COUNT"
  shows "\<exists>s'. handle_connection (aesd_hapi M R I) chunks s = Some s' \<and> pending (vfs_dev (world s')) = []"
proof -
  have "vfs_whole (world s)" using assms(1-3) by (simp add: vfs_whole_def no_pending_def vfs_dev_def)
  with whole.handle_connection_ok [of s chunks M R I] assms(4-6) show ?thesis
    by (auto simp: whole_packet_def vfs_whole_def no_pending_def vfs_dev_def)
qed

lemma busy_whole:
  assumes "dsys_inv s" and "pending (abs_dev (kern s)) = []"
  shows "pending (abs_dev (kern (busy n M s))) = []"
proof (cases "4 \<in> M \<or> files s 4 = None \<or>
    (\<exists>f. files s 4 = Some f \<and> aesd_write (sample_kapi (''x'' @ [newline])) f 0 2 (f_pos f) (kern s) = None)")
  case True
  with assms(2) show ?thesis by (auto simp: busy_def)
next
  case False
  then obtain f r pos k where f: "files s 4 = Some f" "4 \<notin> M"
      "aesd_write (sample_kapi (''x'' @ [newline])) f 0 2 (f_pos f) (kern s) = Some (r, pos, k)" by auto
  have "driver_step s (D_write 4 (copy_from_user (sample_kapi (''x'' @ [newline])) 0 2) r) (busy n M s)"
    using f d_write [OF f(1) sample_kapi_ok, of 2 "''x'' @ [newline]" 0 r pos k]
    by (simp add: busy_def aesd_fops_def MAX_RW_COUNT_def)
  from driver_step_simulates [OF assms(1) this]
  have "abs_dev (kern (busy n M s)) = log_effect (D_write 4 (Some (''x'' @ [newline])) r) (abs_dev (kern s))"
    by (simp add: sample_kapi_def)
  moreover have "pending (log_effect (D_write 4 (Some (''x'' @ [newline])) r) (abs_dev (kern s))) = []"
    using assms(2) by (cases "(D_write 4 (Some (''x'' @ [newline])) r, abs_dev (kern s))" rule: log_effect.cases)
      (auto simp: log_write_def Let_def)
  ultimately show ?thesis by simp
qed

definition busy_loaded :: "vfs conn" where
  "busy_loaded = sample_conn\<lparr>world := sample_world\<lparr>
     vsys := \<lparr>kern = loaded, files = [3 \<mapsto> opened, 4 \<mapsto> opened]\<rparr>, others := busy\<rparr>\<rparr>"

lemma busy_loaded_inv: "vfs_inv (world busy_loaded)"
  using sample_world_inv loaded_inv
  by (simp add: vfs_inv_def busy_loaded_def sample_world_def dsys_inv_def busy_others opened_dev)

theorem packets_stay_whole_witness:
  "\<exists>s'. handle_connection sample_hapi [''he'', ''llo'' @ [newline]] busy_loaded = Some s' \<and>
     pending (vfs_dev (world s')) = []"
proof (rule packets_stay_whole [OF busy_loaded_inv])
  show "pending (vfs_dev (world busy_loaded)) = []"
    using loaded_abs by (simp add: busy_loaded_def vfs_dev_def)
  show "pending (abs_dev (kern (others (world busy_loaded) n M s'))) = []"
    if "dsys_inv s'" "pending (abs_dev (kern s')) = []" for n M s'
    using busy_whole [OF that] by (simp add: busy_loaded_def)
qed (simp_all add: sample_mem_ok MAX_RW_COUNT_def)

text \<open>
  A complete packet is stored and echoed.  When the chunk that completes a packet, one that is
  not a seek command, is processed and the loop goes on, the packet has been written to the
  device as one write, everything in the device from the position of the connection's
  descriptor on has been sent to the client, all of the contents for a connection's first
  packet, and the buffer is empty again.
\<close>

theorem packet_stored_and_echoed:
  assumes "vfs_inv (world s)" and "vfs_fds (world s) fd = Some p" and "buf_inv h0 s d"
    and "0 < length c" and "length c < BUFFER_SIZE"
    and "take (length SEEKTO) (d @ c) \<noteq> SEEKTO" and "newline \<in> set (d @ c)"
    and "recv_body (aesd_hapi M R I) fd c s = Some (True, s')" and "mem_ok (aesd_hapi M R I)"
    and "vfs_reliable (world s)"
  shows "vfs_dev (world s') = log_write (take MAX_RW_COUNT (d @ c)) (vfs_dev (world s)) \<and>
    outgoing (world s') = outgoing (world s) @ drop p (log_contents (vfs_dev (world s'))) \<and>
    vfs_fds (world s') = (vfs_fds (world s))(fd \<mapsto> max p (length (log_contents (vfs_dev (world s'))))) \<and>
    buf_inv h0 s' []"
  using aesd.packet_echo [of s fd p h0 d c M R I s'] assms by (auto simp: dev_stored_def)

definition sample_start :: "vfs conn" where
  "sample_start = sample_conn\<lparr>uheap := [1 \<mapsto> replicate 1024 nul], data_buffer := 1\<rparr>"

lemma sample_start_buf: "buf_inv Map.empty sample_start []"
  unfolding buf_inv_def
  by (rule exI [of _ "replicate 1024 nul"]) (simp add: sample_start_def sample_conn_def)

lemma sample_start_world: "world sample_start = sample_world"
  by (simp add: sample_start_def sample_conn_def)

lemma sample_world_reliable: "vfs_reliable sample_world"
  by (simp add: vfs_reliable_def sample_world_def sample_host_def sample_kapi_def)

theorem packet_stored_and_echoed_witness:
  "\<exists>s'. recv_body sample_hapi 3 (''d'' @ [newline]) sample_start = Some (True, s') \<and>
     vfs_dev (world s') = \<lparr>cmds = [''ab'' @ [newline], ''cd'' @ [newline]], pending = []\<rparr> \<and>
     outgoing (world s') = ''ab'' @ [newline] @ ''cd'' @ [newline]"
proof -
  have "map_option fst (recv_body sample_hapi 3 (''d'' @ [newline]) sample_start) = Some True"
    by code_simp
  then obtain s' where s': "recv_body sample_hapi 3 (''d'' @ [newline]) sample_start = Some (True, s')"
    by auto
  have dev: "vfs_dev sample_world = \<lparr>cmds = [''ab'' @ [newline]], pending = ''c''\<rparr>"
    using sample_dev_abs by (simp add: vfs_dev_def sample_world_def)
  have out: "outgoing sample_world = []" by (simp add: sample_world_def)
  show ?thesis
    using packet_stored_and_echoed [of sample_start 3 0 Map.empty "[]" "''d'' @ [newline]",
        OF _ _ sample_start_buf _ _ _ _ s' sample_mem_ok] s'
    by (simp add: sample_start_world sample_world_inv sample_fd sample_world_reliable dev out
        SEEKTO_def MAX_RW_COUNT_def log_write_def log_contents_def last_n_def)
qed

text \<open>
  \<open>write_to_client\<close> on the driver ends.  When no read fails it returns 0 exactly after sending
  all of the contents from the descriptor's position on, in order and without a gap, and -1
  only after a send that did not take all bytes, having sent a prefix.
\<close>

theorem write_to_client_sends_rest:
  assumes "vfs_inv w" and "vfs_fds w fd = Some p" and "vfs_reliable w"
  shows "\<exists>r w'. write_to_client (aesd_hapi M R I) fd w = Some (r, w') \<and> vfs_dev w' = vfs_dev w \<and>
    (if r = 0 then outgoing w' = outgoing w @ drop p (log_contents (vfs_dev w)) \<and>
       vfs_fds w' = (vfs_fds w)(fd \<mapsto> max p (length (log_contents (vfs_dev w))))
     else r = -1 \<and> (\<exists>k. outgoing w' = outgoing w @ take k (drop p (log_contents (vfs_dev w)))) \<and>
       (\<exists>w1 bs sent w2. vfs_send w1 bs = Some (sent, w2) \<and> sent \<noteq> int (length bs)))"
proof -
  obtain r w' where wr: "write_to_client (aesd_hapi M R I) fd w = Some (r, w')"
      "aesd.write_to_client_done M R I fd p w r w'"
    using aesd.write_to_client_spec [of False w fd p M R I] assms by auto
  have "\<exists>w1 bs sent w2. vfs_send w1 bs = Some (sent, w2) \<and> sent \<noteq> int (length bs)" if "aesd.short_send M R I fd"
    using that unfolding aesd.short_send_def aesd_hapi_sel by blast
  with wr show ?thesis
    unfolding aesd.write_to_client_done_def Let_def
    by (intro exI [of _ r] exI [of _ w']) (auto split: if_splits)
qed

theorem write_to_client_sends_rest_witness:
  "\<exists>r w'. write_to_client sample_hapi 3 sample_world = Some (r, w') \<and>
     (if r = 0 then outgoing w' = ''ab'' @ [newline] else r = -1)"
proof -
  have "vfs_dev sample_world = \<lparr>cmds = [''ab'' @ [newline]], pending = ''c''\<rparr>" "outgoing sample_world = []"
    using sample_dev_abs by (simp_all add: vfs_dev_def sample_world_def)
  then show ?thesis
    using write_to_client_sends_rest [OF sample_world_inv sample_fd sample_world_reliable,
        of sample_malloc sample_realloc word_of_int]
    by (auto simp: log_contents_def split: if_splits)
qed


definition sample_interrupted :: vfs where
  "sample_interrupted = sample_world\<lparr>hosts := \<lambda>n. sample_host\<lparr>h_user := \<lambda>u. (sample_kapi u)\<lparr>lock_interrupted := True\<rparr>\<rparr>\<rparr>"


text \<open>
  A seek command is carried out as soon as its prefix and two numbers have arrived, not when
  its line is complete: the line \<open>AESDCHAR_IOCSEEKTO:0,12\<close> received as two chunks seeks to offset 1,
  and its last digit and newline are then stored in the device as a command of their own (after
  the byte that was pending there).
\<close>

theorem seek_command_split_across_chunks:
  "map_option (\<lambda>s. (outgoing (world s), cmds (vfs_dev (world s))))
     (handle_connection sample_hapi [''AESDCHAR_IOCSEEKTO:0,1'', ''2'' @ [newline]] sample_conn) =
   Some (''b'' @ [newline] @ ''c2'' @ [newline], [''ab'' @ [newline], ''c2'' @ [newline]])"
  by code_simp

section \<open>Seek commands\<close>

text \<open>
  The argument scanner reads back what a client prints: two numbers in decimal notation
  with a comma between them, followed by anything that does not start with a digit, such as the
  newline, give exactly those two numbers.
\<close>

lemma sscanf_reads_decimal:
  assumes "rest = [] \<or> \<not> isdigit (hd rest)"
  shows "sscanf_d_d (decimal a @ CHR '','' # decimal b @ rest) = Some (int a, int b)"
proof -
  have "\<not> isdigit (CHR '','')" by (simp add: isdigit_def)
  then show ?thesis using scan_d_decimal [OF assms] by (simp add: sscanf_d_d_def scan_d_decimal)
qed

text \<open>The kernel hands the seek structure over and does not interrupt the ioctl.\<close>

definition vfs_seek_ok :: "vfs \<Rightarrow> bool" where
  "vfs_seek_ok w \<longleftrightarrow> (\<forall>n q. ioc_ok (h_seek (hosts w n) q) \<and> \<not> lock_interrupted (h_seek (hosts w n) q) \<and>
     copy_seekto_from_user (h_seek (hosts w n) q) 0 = Some q)"

lemma log_seek_bound: "log_seek c off a = Some q \<Longrightarrow> q < length (log_contents a)"
proof -
  assume seek: "log_seek c off a = Some q"
  then have "off < length (cmds a ! c)" by (auto simp: log_seek_def split: if_splits)
  with log_seek_drop [OF seek] have "drop q (log_contents a) \<noteq> []" by simp
  then show ?thesis by simp
qed

lemma vfs_ioctl_seeks:
  assumes "vfs_inv w" and "vfs_fds w fd = Some p" and "vfs_seek_ok w"
    and "out_offs (buffer (aesd_device (kern (vsys w)))) = 0"
    and "log_seek (unat (write_cmd seekto)) (unat (write_cmd_offset seekto)) (vfs_dev w) = Some q"
  shows "\<exists>w'. vfs_ioctl w fd seekto = Some (0, w') \<and> vfs_inv w' \<and> vfs_dev w' = vfs_dev w \<and>
    outgoing w' = outgoing w \<and> vfs_reliable w' = vfs_reliable w \<and> vfs_fds w' = (vfs_fds w)(fd \<mapsto> q)"
proof -
  obtain f where f: "0 \<le> fd" "files (vsys w) (nat fd) = Some f"
      "private_data f = Some Aesd_device" "dev_inv (kern (vsys w))"
    by (rule vfs_fds_Some [OF assms(1,2)])
  let ?K = "h_seek (now w) seekto"
  have K: "ioc_ok ?K" "copy_seekto_from_user ?K 0 = Some seekto" "\<not> lock_interrupted ?K"
    using assms(3) by (auto simp: vfs_seek_ok_def)
  let ?w = "set_file w (kern (vsys w)) (nat fd) (Some (f\<lparr>f_pos := word_of_nat q\<rparr>))"
  have "vfs_ioctl w fd seekto = Some (0, ?w)"
    using f(2) assms(5) aesd_ioctl_seekto_unwrapped [OF f(4,3) K(1) assms(4) K(2,3)]
    by (simp add: vfs_ioctl_def aesd_fops_def vfs_dev_def)
  moreover have "vfs_inv ?w" using f(3,4) by (intro vfs_inv_set_file [OF assms(1)]) auto
  moreover have "unat (word_of_nat q :: loff_t) = q"
    using log_seek_bound [OF assms(5)] contents_bound [OF f(4)]
    by (intro unat_of_nat64) (simp add: vfs_dev_def)
  ultimately show ?thesis
    using vfs_fds_set_file [OF f(1), of w "kern (vsys w)" "Some (f\<lparr>f_pos := word_of_nat q\<rparr>)"]
    by (simp add: vfs_dev_def)
qed

text \<open>
  A seek command, before the ring has wrapped.  When the collected bytes are the prefix
  \<open>AESDCHAR_IOCSEEKTO:\<close> and two numbers that name a byte of a command, and the loop goes on, the
  client has been sent the device's contents from exactly that byte to the end; nothing has been
  written to the device and the buffer is empty again.
\<close>

theorem seek_command_sends_from_byte:
  assumes inv: "vfs_inv (world s)" and fd: "vfs_fds (world s) fd = Some p" and buf: "buf_inv h0 s d"
    and c: "0 < length c" "length c < BUFFER_SIZE" and mem: "mem_ok (aesd_hapi M R I)"
    and rel: "vfs_reliable (world s)" and seek: "vfs_seek_ok (world s)"
    and out: "out_offs (buffer (aesd_device (kern (vsys (world s))))) = 0"
    and prefix: "take (length SEEKTO) (d @ c) = SEEKTO"
    and args: "sscanf_d_d (takeWhile (\<lambda>x. x \<noteq> nul) (drop (length SEEKTO) (d @ c))) = Some (a, b)"
    and byte: "log_seek (unat (I a)) (unat (I b)) (vfs_dev (world s)) = Some q"
    and ret: "recv_body (aesd_hapi M R I) fd c s = Some (True, s')"
  shows "vfs_dev (world s') = vfs_dev (world s) \<and> buf_inv h0 s' [] \<and>
    outgoing (world s') = outgoing (world s) @ drop q (log_contents (vfs_dev (world s)))"
  using buf c mem
proof (cases rule: recv_body_cases [where fd = fd])
  case (no_memory s1)
  with ret show ?thesis by simp
next
  case (collected s2)
  let ?K = "aesd_hapi M R I"
  let ?seekto = "\<lparr>write_cmd = I a, write_cmd_offset = I b\<rparr>"
  have hs: "handle_seek ?K fd s2 = Some (True, s')" using collected(4) prefix ret by simp
  have len: "length SEEKTO \<le> length (d @ c)" using arg_cong [OF prefix, of length] by simp
  have cs: "cstring (uheap s2) (data_buffer s2) (length SEEKTO) =
      Some (takeWhile (\<lambda>x. x \<noteq> nul) (drop (length SEEKTO) (d @ c)))"
    using collected(1) by (intro cstring_terminated [OF collected(2) _ len]) (auto simp: buf_inv_def)
  have "log_seek (unat (write_cmd ?seekto)) (unat (write_cmd_offset ?seekto)) (vfs_dev (world s)) = Some q"
    using byte by simp
  from vfs_ioctl_seeks [OF inv fd seek out this]
  obtain w1 where w1: "vfs_ioctl (world s) fd ?seekto = Some (0, w1)" "vfs_inv w1"
      "vfs_dev w1 = vfs_dev (world s)" "outgoing w1 = outgoing (world s)" "vfs_reliable w1"
      "vfs_fds w1 = (vfs_fds (world s))(fd \<mapsto> q)"
    using rel by blast
  have "vfs_fds w1 fd = Some q" using w1(6) by simp
  with aesd.write_to_client_spec [of False w1 fd q M R I] w1(2,5)
  obtain r w2 where wr: "write_to_client ?K fd w1 = Some (r, w2)"
      "aesd.write_to_client_done M R I fd q w1 r w2" by auto
  have free: "freeable h0 (s2\<lparr>world := w2\<rparr>)" using buf_inv_freeable [OF collected(1)] by simp
  obtain go s3 where rs: "reset_buffer ?K (s2\<lparr>world := w2\<rparr>) = Some (go, s3)" "world s3 = w2"
      "if go then buf_inv h0 s3 [] else freeable h0 s3"
    using reset_buffer_inv [OF mem_okD(1) [OF mem] free] by auto
  have "r = 0 \<and> go \<and> s' = s3"
    using hs cs args w1(1) wr(1) rs(1) collected(3) rel disturb_quiet [OF rel] by (auto simp: handle_seek_def Let_def split: if_splits)
  with wr(2) w1 rs show ?thesis
    by (auto simp: aesd.write_to_client_done_def Let_def)
qed

theorem seek_command_sends_from_byte_witness:
  "\<exists>s'. recv_body sample_hapi 3 (''AESDCHAR_IOCSEEKTO:0,1'' @ [newline]) sample_start = Some (True, s') \<and>
     outgoing (world s') = ''b'' @ [newline]"
proof -
  let ?c = "''AESDCHAR_IOCSEEKTO:0,1'' @ [newline]"
  have "map_option fst (recv_body sample_hapi 3 ?c sample_start) = Some True" by code_simp
  then obtain s' where s': "recv_body sample_hapi 3 ?c sample_start = Some (True, s')" by auto
  have "ioc_ok ((sample_kapi [])\<lparr>copy_seekto_from_user := x\<rparr>)" for x
    using sample_ioc_ok [of "[]"] by (simp add: ioc_ok_def)
  then have seek: "vfs_seek_ok sample_world"
    by (simp add: vfs_seek_ok_def sample_world_def sample_host_def sample_kapi_def)
  have out: "out_offs (buffer (aesd_device (kern (vsys sample_world)))) = 0" by code_simp
  have args: "sscanf_d_d (takeWhile (\<lambda>x. x \<noteq> nul) (drop (length SEEKTO) ?c)) = Some (0, 1)" by code_simp
  have pre: "take (length SEEKTO) ?c = SEEKTO" by code_simp
  have dev: "vfs_dev sample_world = \<lparr>cmds = [''ab'' @ [newline]], pending = ''c''\<rparr>" "outgoing sample_world = []"
    using sample_dev_abs by (simp_all add: vfs_dev_def sample_world_def)
  have byte: "log_seek (unat (word_of_int 0 :: 32 word)) (unat (word_of_int 1 :: 32 word)) (vfs_dev sample_world) = Some 1"
    by (simp add: dev log_seek_def)
  show ?thesis
    using seek_command_sends_from_byte [of sample_start 3 0 Map.empty "[]" ?c, OF _ _ sample_start_buf _ _
        sample_mem_ok _ _ _ _ _ _ s', of 0 1 1] s' sample_world_inv sample_fd sample_world_reliable
        seek out args pre byte
    by (simp add: sample_start_world dev log_contents_def)
qed

end
