(* ===== verification/File_Host.thy ===== *)
theory File_Host
  imports Handler_Host Decimal Server
begin

text \<open>
  The system the server runs on when it is built without \<open>USE_AESD_CHAR_DEVICE\<close>: packets go to the
  regular file \<open>/var/tmp/aesdsocketdata\<close> under a mutex, and every ten seconds the handler of \<open>SIGALRM\<close>
  (\<open>alarm_handler\<close> of \<open>aesdsocket.c\<close>) appends a timestamp line.  Between two calls of a connection's
  thread any number of alarms may arrive, and other connections may append packets while this
  one does not hold the mutex.  The theory proves the laws of \<open>server_host\<close> with these events and
  those of \<open>storage_host\<close> without them.
\<close>

section \<open>Timestamps\<close>

text \<open>\<open>struct tm\<close>, with the offset from UTC in minutes.\<close>

record tm =
  tm_sec :: nat
  tm_min :: nat
  tm_hour :: nat
  tm_mday :: nat
  tm_mon :: nat
  tm_year :: int
  tm_wday :: nat
  tm_gmtoff :: int

definition tm_ok :: "tm \<Rightarrow> bool" where
  "tm_ok t \<longleftrightarrow> tm_sec t \<le> 60 \<and> tm_min t < 60 \<and> tm_hour t < 24 \<and> 1 \<le> tm_mday t \<and> tm_mday t \<le> 31 \<and>
     tm_mon t < 12 \<and> - (2 ^ 31) \<le> tm_year t \<and> tm_year t < 2 ^ 31 \<and> tm_wday t < 7 \<and>
     \<bar>tm_gmtoff t\<bar> < 100 * 60"

definition weekday_names :: "string list" where
  "weekday_names = [''Sun'', ''Mon'', ''Tue'', ''Wed'', ''Thu'', ''Fri'', ''Sat'']"

definition month_names :: "string list" where
  "month_names = [''Jan'', ''Feb'', ''Mar'', ''Apr'', ''May'', ''Jun'', ''Jul'', ''Aug'', ''Sep'',
     ''Oct'', ''Nov'', ''Dec'']"

definition two_digits :: "nat \<Rightarrow> string" where
  "two_digits n = [char_of (48 + n div 10 mod 10), char_of (48 + n mod 10)]"

definition show_int :: "int \<Rightarrow> string" where
  "show_int i = (if i < 0 then CHR ''-'' # decimal (nat (- i)) else decimal (nat i))"

text \<open>
  \<open>strftime(timestamp, maxsize, "timestamp:%a, %d %b %Y %T %z", t)\<close> in the C locale; None when the result
  with its terminator does not fit, as the buffer then has no value.
\<close>

definition rfc2822 :: "tm \<Rightarrow> string" where
  "rfc2822 t = ''timestamp:'' @ weekday_names ! tm_wday t @ '', '' @ two_digits (tm_mday t) @ '' '' @
     month_names ! tm_mon t @ '' '' @ show_int (tm_year t + 1900) @ '' '' @
     two_digits (tm_hour t) @ '':'' @ two_digits (tm_min t) @ '':'' @ two_digits (tm_sec t) @ '' '' @
     (if tm_gmtoff t < 0 then ''-'' else ''+'') @ two_digits (nat (\<bar>tm_gmtoff t\<bar> div 60)) @
     two_digits (nat (\<bar>tm_gmtoff t\<bar> mod 60))"

definition strftime :: "nat \<Rightarrow> tm \<Rightarrow> string option" where
  "strftime maxsize t = (let s = rfc2822 t in if length s < maxsize then Some s else None)"

lemma length_names: "length (weekday_names ! i) = 3" if "i < 7"
  using that by (auto simp: weekday_names_def nth_Cons' numeral_eq_Suc less_Suc_eq)

lemma length_months: "length (month_names ! i) = 3" if "i < 12"
  using that by (auto simp: month_names_def nth_Cons' numeral_eq_Suc less_Suc_eq)

lemma length_show_int:
  assumes "- (2 ^ 32) \<le> i" and "i < 2 ^ 32"
  shows "length (show_int i) \<le> 11"
proof -
  have "length (decimal (nat \<bar>i\<bar>)) \<le> 10" using assms by (intro length_decimal) auto
  then show ?thesis by (cases "i < 0") (auto simp: show_int_def)
qed

lemma strftime_fits:
  assumes "tm_ok t"
  shows "strftime 100 t = Some (rfc2822 t)"
proof -
  have "length (show_int (tm_year t + 1900)) \<le> 11"
    using assms by (intro length_show_int) (auto simp: tm_ok_def)
  then have "length (rfc2822 t) < 100"
    using assms by (simp add: rfc2822_def length_names length_months two_digits_def tm_ok_def)
  then show ?thesis by (simp add: strftime_def Let_def)
qed

section \<open>The file and its system calls\<close>

text \<open>
  An open file of this thread: its position and whether it was opened with \<open>O_WRONLY | O_APPEND\<close>
  (otherwise \<open>O_RDONLY\<close>).  How the system behaves at a call: the descriptor \<open>open\<close> picks, how many of the
  bytes there are a \<open>read\<close> gives, how many a \<open>write\<close> takes (None is a failure), what \<open>send\<close> returns.
\<close>

record ofile =
  opos :: nat
  oappend :: bool

record fhost =
  fh_fd :: "(nat \<rightharpoonup> ofile) \<Rightarrow> nat option"
  fh_read :: "nat \<Rightarrow> nat option"
  fh_write :: "nat \<Rightarrow> nat option"
  fh_send :: "byte list \<Rightarrow> int"

text \<open>
  What happens between two calls of the thread: a \<open>SIGALRM\<close> at a local time, or a packet appended by
  another connection.
\<close>

datatype fevent = Alarm tm fhost | Other_packet "byte list"

record fworld =
  data_file :: "byte list option"
  ofiles :: "nat \<rightharpoonup> ofile"
  file_mutex :: bool
  info_mutex :: bool
  ftime :: nat
  fhosts :: "nat \<Rightarrow> fhost"
  fevents :: "nat \<Rightarrow> fevent list"
  foutgoing :: "byte list"

definition FILE_MAX :: nat where
  "FILE_MAX = 2 ^ 63 - 1"

definition fhost_ok :: "fhost \<Rightarrow> bool" where
  "fhost_ok H \<longleftrightarrow> (\<forall>F fd. fh_fd H F = Some fd \<longrightarrow> F fd = None) \<and>
     (\<forall>n j. fh_read H n = Some j \<longrightarrow> 0 < n \<longrightarrow> 0 < j \<and> j \<le> n) \<and>
     (\<forall>n j. fh_write H n = Some j \<longrightarrow> j \<le> n) \<and> (\<forall>bs. fh_send H bs \<le> int (length bs))"

abbreviation file_contents :: "fworld \<Rightarrow> byte list" where
  "file_contents w \<equiv> (case data_file w of None \<Rightarrow> [] | Some c \<Rightarrow> c)"

text \<open>\<open>open(FILENAME, O_RDONLY)\<close> needs the file; with \<open>O_CREAT\<close> a missing one is created empty.\<close>

definition file_open :: "fhost \<Rightarrow> bool \<Rightarrow> fworld \<Rightarrow> (int \<times> fworld) option" where
  "file_open H app w =
     (if data_file w = None \<and> \<not> app then Some (-1, w)
      else case fh_fd H (ofiles w) of
          None \<Rightarrow> Some (-1, w)
        | Some fd \<Rightarrow> Some (int fd, w\<lparr>data_file := Some (file_contents w),
            ofiles := (ofiles w)(fd \<mapsto> \<lparr>opos = 0, oappend = app\<rparr>)\<rparr>))"

definition file_read :: "fhost \<Rightarrow> fworld \<Rightarrow> int \<Rightarrow> nat \<Rightarrow> (byte list option \<times> fworld) option" where
  "file_read H w fd n = do {
     f \<leftarrow> (if fd < 0 then None else ofiles w (nat fd));
     let there = drop (opos f) (file_contents w);
     if oappend f then Some (None, w)
     else case fh_read H (min n (length there)) of
         None \<Rightarrow> Some (None, w)
       | Some j \<Rightarrow> let bs = take (min j n) there in
           Some (Some bs, w\<lparr>ofiles := (ofiles w)(nat fd \<mapsto> f\<lparr>opos := opos f + length bs\<rparr>)\<rparr>)
   }"

text \<open>
  A file holds at most \<open>FILE_MAX\<close> bytes: whether it is full and how many of \<open>j\<close> more bytes it takes.  The
  code equations compare integers in binary.
\<close>

definition file_full :: "byte list \<Rightarrow> bool" where
  "file_full c \<longleftrightarrow> FILE_MAX \<le> length c"

definition file_room :: "byte list \<Rightarrow> nat \<Rightarrow> nat" where
  "file_room c j = min j (FILE_MAX - length c)"

lemma file_full_code [code]: "file_full c \<longleftrightarrow> (2 ^ 63 - 1 :: int) \<le> int (length c)"
  by (auto simp: file_full_def FILE_MAX_def)

lemma file_room_code [code]:
  "file_room c j = (if int (length c) + int j \<le> 2 ^ 63 - 1 then j else min j (FILE_MAX - length c))"
  by (auto simp: file_room_def FILE_MAX_def)

text \<open>With \<open>O_APPEND\<close> a write goes to the end of the file, wherever that is by then.\<close>

definition file_write :: "fhost \<Rightarrow> fworld \<Rightarrow> int \<Rightarrow> byte list \<Rightarrow> (int \<times> fworld) option" where
  "file_write H w fd bs = do {
     f \<leftarrow> (if fd < 0 then None else ofiles w (nat fd));
     if \<not> oappend f \<or> file_full (file_contents w) then Some (-1, w)
     else case fh_write H (length bs) of
         None \<Rightarrow> Some (-1, w)
       | Some j \<Rightarrow> let k = file_room (file_contents w) j in
           Some (int k, w\<lparr>data_file := Some (file_contents w @ take k bs),
             ofiles := (ofiles w)(nat fd \<mapsto> f\<lparr>opos := length (file_contents w) + k\<rparr>)\<rparr>)
   }"

lemma file_write_eq:
  "file_write H w fd bs = do {
     f \<leftarrow> (if fd < 0 then None else ofiles w (nat fd));
     if \<not> oappend f \<or> FILE_MAX \<le> length (file_contents w) then Some (-1, w)
     else case fh_write H (length bs) of
         None \<Rightarrow> Some (-1, w)
       | Some j \<Rightarrow> let k = min j (FILE_MAX - length (file_contents w)) in
           Some (int k, w\<lparr>data_file := Some (file_contents w @ take k bs),
             ofiles := (ofiles w)(nat fd \<mapsto> f\<lparr>opos := length (file_contents w) + k\<rparr>)\<rparr>)
   }"
  by (simp only: file_write_def file_full_def file_room_def)

text \<open>A regular file has no such ioctl.\<close>

definition file_ioctl :: "fworld \<Rightarrow> int \<Rightarrow> aesd_seekto \<Rightarrow> (int \<times> fworld) option" where
  "file_ioctl w fd seekto = Some (-1, w)"

definition file_close :: "fworld \<Rightarrow> int \<Rightarrow> fworld option" where
  "file_close w fd = do {
     _ \<leftarrow> (if fd < 0 then None else ofiles w (nat fd));
     Some (w\<lparr>ofiles := (ofiles w)(nat fd := None)\<rparr>)
   }"

definition file_send :: "fhost \<Rightarrow> fworld \<Rightarrow> byte list \<Rightarrow> (int \<times> fworld) option" where
  "file_send H w bs = (let r = fh_send H bs in
     Some (r, w\<lparr>foutgoing := foutgoing w @ take (nat r) bs\<rparr>))"

text \<open>Locking a mutex its owner holds, and unlocking one that is free, have no result.\<close>

definition lock_file_mutex :: "fworld \<Rightarrow> fworld option" where
  "lock_file_mutex w = (if file_mutex w then None else Some (w\<lparr>file_mutex := True\<rparr>))"

definition unlock_file_mutex :: "fworld \<Rightarrow> fworld option" where
  "unlock_file_mutex w = (if file_mutex w then Some (w\<lparr>file_mutex := False\<rparr>) else None)"

definition lock_info_mutex :: "fworld \<Rightarrow> fworld option" where
  "lock_info_mutex w = (if info_mutex w then None else Some (w\<lparr>info_mutex := True\<rparr>))"

definition unlock_info_mutex :: "fworld \<Rightarrow> fworld option" where
  "unlock_info_mutex w = (if info_mutex w then Some (w\<lparr>info_mutex := False\<rparr>) else None)"

text \<open>
  \<open>main\<close> initialises the mutex the connections lock and copies the structure into \<open>server_info\<close>.  POSIX
  leaves locking a copied mutex undefined.  The model assumes an implementation in which a mutex is the
  contents of its structure, as in the GNU C library, so the copy of one that is initialised and free is
  another free mutex; \<open>alarm_handler\<close> and the connections then do not exclude each other.
\<close>

definition main_mutexes :: "fworld \<Rightarrow> fworld" where
  "main_mutexes w = (let w1 = w\<lparr>file_mutex := False\<rparr> in w1\<lparr>info_mutex := file_mutex w1\<rparr>)"

section \<open>The timestamp handler\<close>

text \<open>
  \<open>alarm_handler\<close> locks \<open>server_info->file_mutex\<close>, which \<open>main\<close> made as a copy of the mutex the connections
  lock.  The result of \<open>dprintf\<close> is not looked at.
\<close>

definition alarm_handler :: "signum \<Rightarrow> tm \<Rightarrow> fhost \<Rightarrow> fworld \<Rightarrow> fworld option" where
  "alarm_handler sig tm_info H w =
     (if sig \<noteq> SIGALRM then Some w
      else do {
        w1 \<leftarrow> lock_info_mutex w;
        timestamp \<leftarrow> strftime 100 tm_info;
        (fd, w2) \<leftarrow> file_open H True w1;
        if fd < 0 then unlock_info_mutex w2
        else do {
          (_, w3) \<leftarrow> file_write H w2 fd (timestamp @ [newline]);
          w4 \<leftarrow> file_close w3 fd;
          unlock_info_mutex w4
        }
      })"

text \<open>Another connection appends while this one does not hold the mutex; else it waits.\<close>

fun fevent_run :: "fevent \<Rightarrow> fworld \<Rightarrow> fworld option" where
  "fevent_run (Alarm t H) w = alarm_handler SIGALRM t H w"
| "fevent_run (Other_packet bs) w =
     (if file_mutex w then Some w
      else Some (w\<lparr>data_file := Some (file_contents w @ take (FILE_MAX - length (file_contents w)) bs)\<rparr>))"

fun fevents_run :: "fevent list \<Rightarrow> fworld \<Rightarrow> fworld option" where
  "fevents_run [] w = Some w"
| "fevents_run (e # es) w = do { w' \<leftarrow> fevent_run e w; fevents_run es w' }"

definition interleave :: "(fhost \<Rightarrow> fworld \<Rightarrow> 'a option) \<Rightarrow> fworld \<Rightarrow> 'a option" where
  "interleave call w = do {
     w' \<leftarrow> fevents_run (fevents w (ftime w)) w;
     call (fhosts w (ftime w)) (w'\<lparr>ftime := Suc (ftime w)\<rparr>)
   }"

definition file_hapi ::
  "(heap \<Rightarrow> size_t \<Rightarrow> ptr \<times> heap) \<Rightarrow> (heap \<Rightarrow> ptr \<Rightarrow> size_t \<Rightarrow> ptr \<times> heap) \<Rightarrow> (int \<Rightarrow> 32 word) \<Rightarrow> fworld hapi"
where
  "file_hapi M R I =
     \<lparr>sys_open_rdonly = interleave (\<lambda>H. file_open H False),
      sys_open_append = interleave (\<lambda>H. file_open H True),
      sys_read = (\<lambda>w fd n. interleave (\<lambda>H w. file_read H w fd n) w),
      sys_write = (\<lambda>w fd bs. interleave (\<lambda>H w. file_write H w fd bs) w),
      sys_ioctl = (\<lambda>w fd q. interleave (\<lambda>H w. file_ioctl w fd q) w),
      sys_close = (\<lambda>w fd. interleave (\<lambda>H w. file_close w fd) w),
      sys_send = (\<lambda>w bs. interleave (\<lambda>H w. file_send H w bs) w),
      mutex_lock_file = lock_file_mutex, mutex_unlock_file = unlock_file_mutex,
      malloc = M, realloc = R, libc_int = I, use_char_device = False\<rparr>"

lemma file_hapi_sel [simp]:
  "sys_open_rdonly (file_hapi M R I) = interleave (\<lambda>H. file_open H False)"
  "sys_open_append (file_hapi M R I) = interleave (\<lambda>H. file_open H True)"
  "sys_read (file_hapi M R I) w fd n = interleave (\<lambda>H w. file_read H w fd n) w"
  "sys_write (file_hapi M R I) w fd bs = interleave (\<lambda>H w. file_write H w fd bs) w"
  "sys_ioctl (file_hapi M R I) w fd q = interleave (\<lambda>H w. file_ioctl w fd q) w"
  "sys_close (file_hapi M R I) w fd = interleave (\<lambda>H w. file_close w fd) w"
  "sys_send (file_hapi M R I) w bs = interleave (\<lambda>H w. file_send H w bs) w"
  "mutex_lock_file (file_hapi M R I) = lock_file_mutex"
  "mutex_unlock_file (file_hapi M R I) = unlock_file_mutex"
  "malloc (file_hapi M R I) = M" "realloc (file_hapi M R I) = R" "libc_int (file_hapi M R I) = I"
  "\<not> use_char_device (file_hapi M R I)"
  by (simp_all add: file_hapi_def)

section \<open>The laws\<close>

fun fevent_ok :: "fevent \<Rightarrow> bool" where
  "fevent_ok (Alarm t H) \<longleftrightarrow> tm_ok t \<and> fhost_ok H"
| "fevent_ok (Other_packet bs) \<longleftrightarrow> True"

definition finv :: "bool \<Rightarrow> fworld \<Rightarrow> bool" where
  "finv b w \<longleftrightarrow> (\<forall>n. fhost_ok (fhosts w n)) \<and> (\<forall>n. \<forall>e \<in> set (fevents w n). fevent_ok e) \<and>
     file_mutex w = b \<and> \<not> info_mutex w \<and> length (file_contents w) \<le> FILE_MAX"

text \<open>The state in which \<open>main\<close> leaves the mutexes.\<close>

lemma main_mutexes_inv:
  assumes "\<forall>n. fhost_ok (fhosts w n)" and "\<forall>n. \<forall>e \<in> set (fevents w n). fevent_ok e"
    and "length (file_contents w) \<le> FILE_MAX"
  shows "finv False (main_mutexes w)"
  using assms by (simp add: finv_def main_mutexes_def)

definition ffds :: "fworld \<Rightarrow> int \<rightharpoonup> nat" where
  "ffds w fd = (if fd < 0 then None else map_option opos (ofiles w (nat fd)))"

definition fquiet :: "fworld \<Rightarrow> bool" where
  "fquiet w \<longleftrightarrow> (\<forall>n. fevents w n = [] \<and> (\<forall>k. fh_read (fhosts w n) k \<noteq> None))"

definition freadable :: "int \<Rightarrow> fworld \<Rightarrow> bool" where
  "freadable fd w \<longleftrightarrow> 0 \<le> fd \<and> (\<exists>f. ofiles w (nat fd) = Some f \<and> \<not> oappend f)"

text \<open>What an alarm does: it takes and gives back its own mutex and appends a line, or less of it.\<close>

lemma file_contents_upd [simp]:
  "file_contents (w\<lparr>ofiles := F\<rparr>) = file_contents w" "file_contents (w\<lparr>info_mutex := b\<rparr>) = file_contents w"
  "file_contents (w\<lparr>file_mutex := b\<rparr>) = file_contents w" "file_contents (w\<lparr>ftime := n\<rparr>) = file_contents w"
  "file_contents (w\<lparr>data_file := Some c\<rparr>) = c" "file_contents (w\<lparr>foutgoing := out\<rparr>) = file_contents w"
  by simp_all

lemma alarm_handler_effect:
  assumes "tm_ok t" and "fhost_ok H" and "\<not> info_mutex w"
  shows "\<exists>d. alarm_handler SIGALRM t H w = Some (w\<lparr>data_file := d\<rparr>) \<and>
    (d = data_file w \<or> (\<exists>k. d = Some (file_contents w @ take k (rfc2822 t @ [newline])) \<and>
      (0 < k \<longrightarrow> length (file_contents w) + k \<le> FILE_MAX)))"
proof (cases "fh_fd H (ofiles w)")
  case None
  with assms show ?thesis
    by (auto simp: alarm_handler_def lock_info_mutex_def unlock_info_mutex_def strftime_fits file_open_def
        intro: exI [of _ "data_file w"])
next
  case (Some fd)
  have free: "ofiles w fd = None" using assms(2) Some by (auto simp: fhost_ok_def)
  then have idem: "(ofiles w)(fd := None) = ofiles w" by (simp add: fun_upd_idem)
  let ?line = "rfc2822 t @ [newline]"
  show ?thesis
  proof (cases "FILE_MAX \<le> length (file_contents w) \<or> fh_write H (length ?line) = None")
    case True
    with assms Some idem show ?thesis
      by (auto simp: alarm_handler_def lock_info_mutex_def unlock_info_mutex_def strftime_fits file_open_def
          file_write_eq file_close_def intro!: exI [of _ "Some (file_contents w)"] exI [of _ "0 :: nat"])
  next
    case False
    then obtain j where j: "fh_write H (length ?line) = Some j" by auto
    let ?k = "min j (FILE_MAX - length (file_contents w))"
    have "alarm_handler SIGALRM t H w = Some (w\<lparr>data_file := Some (file_contents w @ take ?k ?line)\<rparr>)"
      using assms Some idem j False
      by (simp add: alarm_handler_def lock_info_mutex_def unlock_info_mutex_def strftime_fits file_open_def
          file_write_eq file_close_def Let_def)
    moreover have "length (file_contents w) + ?k \<le> FILE_MAX" using False by auto
    ultimately show ?thesis by blast
  qed
qed

lemma alarm_handler_line:
  assumes "tm_ok t" and "fhost_ok H" and "\<not> info_mutex w" and "fh_fd H (ofiles w) \<noteq> None"
    and "fh_write H (length (rfc2822 t @ [newline])) = Some (length (rfc2822 t @ [newline]))"
    and "length (file_contents w) + length (rfc2822 t @ [newline]) \<le> FILE_MAX"
  shows "alarm_handler SIGALRM t H w = Some (w\<lparr>data_file := Some (file_contents w @ rfc2822 t @ [newline])\<rparr>)"
proof -
  obtain fd where fd: "fh_fd H (ofiles w) = Some fd" using assms(4) by auto
  then have "(ofiles w)(fd := None) = ofiles w" using assms(2) by (simp add: fhost_ok_def fun_upd_idem)
  with fd assms show ?thesis
    by (simp add: alarm_handler_def lock_info_mutex_def unlock_info_mutex_def strftime_fits file_open_def
        file_write_eq file_close_def Let_def min_def)
qed

lemma length_append_max:
  "length c \<le> FILE_MAX \<Longrightarrow> (0 < k \<longrightarrow> length c + k \<le> FILE_MAX) \<Longrightarrow> length (c @ take k xs) \<le> FILE_MAX"
  by (cases "k = 0") (auto simp: min_def)

lemma fevent_run_effect:
  assumes "fevent_ok e" and "\<not> info_mutex w" and "length (file_contents w) \<le> FILE_MAX"
  shows "\<exists>d ext. fevent_run e w = Some (w\<lparr>data_file := d\<rparr>) \<and>
    file_contents (w\<lparr>data_file := d\<rparr>) = file_contents w @ ext \<and> length (file_contents w @ ext) \<le> FILE_MAX"
proof (cases e)
  case (Alarm t H)
  then obtain d where d: "alarm_handler SIGALRM t H w = Some (w\<lparr>data_file := d\<rparr>)"
    and cs: "d = data_file w \<or> (\<exists>k. d = Some (file_contents w @ take k (rfc2822 t @ [newline])) \<and>
      (0 < k \<longrightarrow> length (file_contents w) + k \<le> FILE_MAX))"
    using alarm_handler_effect [of t H w] assms(1,2) by auto
  from cs show ?thesis
  proof
    assume "d = data_file w"
    then show ?thesis using Alarm d assms(3) by (intro exI [of _ d] exI [of _ "[]"]) simp
  next
    assume "\<exists>k. d = Some (file_contents w @ take k (rfc2822 t @ [newline])) \<and>
      (0 < k \<longrightarrow> length (file_contents w) + k \<le> FILE_MAX)"
    then obtain k where k: "d = Some (file_contents w @ take k (rfc2822 t @ [newline]))"
        "0 < k \<longrightarrow> length (file_contents w) + k \<le> FILE_MAX" by blast
    from length_append_max [OF assms(3) k(2), of "rfc2822 t @ [newline]"] Alarm d k(1) show ?thesis
      by (intro exI [of _ d] exI [of _ "take k (rfc2822 t @ [newline])"]) simp
  qed
next
  case (Other_packet bs)
  show ?thesis
  proof (cases "file_mutex w")
    case True
    then show ?thesis using Other_packet assms(3) by (intro exI [of _ "data_file w"] exI [of _ "[]"]) simp
  next
    case False
    let ?ext = "take (FILE_MAX - length (file_contents w)) bs"
    have "length (file_contents w @ ?ext) \<le> FILE_MAX" using assms(3) by simp
    with False Other_packet show ?thesis
      by (intro exI [of _ "Some (file_contents w @ ?ext)"] exI [of _ ?ext]) simp
  qed
qed

lemma fevents_run_effect:
  assumes "\<forall>e \<in> set es. fevent_ok e" and "\<not> info_mutex w" and "length (file_contents w) \<le> FILE_MAX"
  shows "\<exists>d ext. fevents_run es w = Some (w\<lparr>data_file := d\<rparr>) \<and>
    file_contents (w\<lparr>data_file := d\<rparr>) = file_contents w @ ext \<and> length (file_contents w @ ext) \<le> FILE_MAX"
  using assms
proof (induction es arbitrary: w)
  case Nil
  then show ?case by (intro exI [of _ "data_file w"] exI [of _ "[]"]) simp
next
  case (Cons e es)
  obtain d1 x1 where 1: "fevent_run e w = Some (w\<lparr>data_file := d1\<rparr>)"
      "file_contents (w\<lparr>data_file := d1\<rparr>) = file_contents w @ x1" "length (file_contents w @ x1) \<le> FILE_MAX"
    using fevent_run_effect [of e w] Cons.prems by auto
  let ?w = "w\<lparr>data_file := d1\<rparr>"
  have "\<exists>d ext. fevents_run es ?w = Some (?w\<lparr>data_file := d\<rparr>) \<and>
      file_contents (?w\<lparr>data_file := d\<rparr>) = file_contents ?w @ ext \<and> length (file_contents ?w @ ext) \<le> FILE_MAX"
    using Cons.prems 1(2,3) by (intro Cons.IH) (simp_all del: length_append)
  then obtain d2 x2 where 2: "fevents_run es ?w = Some (w\<lparr>data_file := d2\<rparr>)"
      "file_contents (w\<lparr>data_file := d2\<rparr>) = file_contents ?w @ x2" "length (file_contents ?w @ x2) \<le> FILE_MAX"
    by auto
  show ?case
    using 1 2 by (intro exI [of _ d2] exI [of _ "x1 @ x2"]) (simp del: length_append)
qed

text \<open>A call after the events of its moment, in any host and in a quiet one.\<close>

lemma interleave_call:
  assumes "finv b w"
  obtains w1 where "interleave call w = call (fhosts w (ftime w)) w1" "finv b w1" "ffds w1 = ffds w"
    "ofiles w1 = ofiles w" "fhosts w1 = fhosts w" "\<exists>ext. file_contents w1 = file_contents w @ ext"
proof -
  have ev: "\<forall>e \<in> set (fevents w (ftime w)). fevent_ok e" "\<not> info_mutex w" "length (file_contents w) \<le> FILE_MAX"
    using assms by (auto simp: finv_def)
  obtain d ext where d: "fevents_run (fevents w (ftime w)) w = Some (w\<lparr>data_file := d\<rparr>)"
      "file_contents (w\<lparr>data_file := d\<rparr>) = file_contents w @ ext" "length (file_contents w @ ext) \<le> FILE_MAX"
    using fevents_run_effect [OF ev] by auto
  let ?w = "w\<lparr>data_file := d, ftime := Suc (ftime w)\<rparr>"
  have c: "file_contents ?w = file_contents w @ ext" using d(2) by simp
  have "finv b ?w" using assms d(3) c by (simp add: finv_def del: length_append)
  moreover have "interleave call w = call (fhosts w (ftime w)) ?w" using d(1) by (simp add: interleave_def)
  ultimately show ?thesis using c by (intro that [of ?w]) (auto simp: ffds_def fun_eq_iff)
qed

lemma interleave_quiet:
  "fquiet w \<Longrightarrow> interleave call w = call (fhosts w (ftime w)) (w\<lparr>ftime := Suc (ftime w)\<rparr>)"
  by (simp add: interleave_def fquiet_def)

lemma ffds_Some:
  assumes "ffds w fd = Some p"
  obtains f where "0 \<le> fd" "ofiles w (nat fd) = Some f" "p = opos f"
  using assms by (auto simp: ffds_def split: if_splits)

lemma ffds_upd:
  "0 \<le> fd \<Longrightarrow> ofiles w' = (ofiles w)(nat fd := f) \<Longrightarrow> ffds w' = (ffds w)(fd := map_option opos f)"
  by (auto simp: ffds_def fun_eq_iff nat_eq_iff)

lemma file_open_law:
  assumes "finv b w" and "fhost_ok H"
  shows "\<exists>fd w'. file_open H app w = Some (fd, w') \<and> finv b w' \<and> file_contents w' = file_contents w \<and>
    foutgoing w' = foutgoing w \<and> fevents w' = fevents w \<and> fhosts w' = fhosts w \<and>
    (if fd < 0 then fd = -1 \<and> ffds w' = ffds w else ffds w fd = None \<and> ffds w' = (ffds w)(fd \<mapsto> 0))"
proof (cases "data_file w = None \<and> \<not> app \<or> fh_fd H (ofiles w) = None")
  case True
  then have "file_open H app w = Some (-1, w)" by (auto simp: file_open_def)
  then show ?thesis using assms(1) by simp
next
  case False
  then obtain fd where fd: "fh_fd H (ofiles w) = Some fd" by auto
  have free: "ofiles w fd = None" using assms(2) fd by (auto simp: fhost_ok_def)
  let ?w = "w\<lparr>data_file := Some (file_contents w), ofiles := (ofiles w)(fd \<mapsto> \<lparr>opos = 0, oappend = app\<rparr>)\<rparr>"
  have "file_open H app w = Some (int fd, ?w)" using False fd by (auto simp: file_open_def)
  moreover have "ffds ?w = (ffds w)(int fd \<mapsto> 0)"
    using ffds_upd [of "int fd" ?w w "Some \<lparr>opos = 0, oappend = app\<rparr>"] by simp
  moreover have "finv b ?w" using assms(1) by (simp add: finv_def)
  ultimately show ?thesis using free by (simp add: ffds_def)
qed

lemma take_min_length: "take k xs = take (min (length xs) k) xs"
  by (simp add: min_def)

lemma file_read_law:
  assumes "finv b w" and "fhost_ok H" and "ffds w fd = Some p" and "0 < n"
  shows "\<exists>r w'. file_read H w fd n = Some (r, w') \<and> finv b w' \<and> file_contents w' = file_contents w \<and>
    foutgoing w' = foutgoing w \<and> fevents w' = fevents w \<and> fhosts w' = fhosts w \<and>
    (case r of None \<Rightarrow> ffds w' = ffds w
     | Some bs \<Rightarrow> ffds w' = (ffds w)(fd \<mapsto> p + length bs) \<and>
         bs = take (length bs) (drop p (file_contents w)) \<and>
         (bs = [] \<longleftrightarrow> length (file_contents w) \<le> p))"
proof -
  obtain f where f: "0 \<le> fd" "ofiles w (nat fd) = Some f" "p = opos f" by (rule ffds_Some [OF assms(3)])
  let ?there = "drop p (file_contents w)"
  show ?thesis
  proof (cases "oappend f \<or> fh_read H (min n (length ?there)) = None")
    case True
    then show ?thesis using f assms(1) by (auto simp: file_read_def Let_def)
  next
    case False
    then obtain j where j: "fh_read H (min n (length ?there)) = Some j" by auto
    let ?bs = "take (min j n) ?there"
    let ?w = "w\<lparr>ofiles := (ofiles w)(nat fd \<mapsto> f\<lparr>opos := opos f + length ?bs\<rparr>)\<rparr>"
    have rd: "file_read H w fd n = Some (Some ?bs, ?w)" using f j False by (simp add: file_read_def Let_def)
    have "0 < length ?there \<Longrightarrow> 0 < j"
      using assms(2,4) j unfolding fhost_ok_def by (metis min_less_iff_conj)
    then have "?bs = [] \<longleftrightarrow> length (file_contents w) \<le> p"
      using assms(4) by (cases "p < length (file_contents w)") auto
    moreover have "ffds ?w = (ffds w)(fd \<mapsto> p + length ?bs)"
      using ffds_upd [OF f(1), of ?w w "Some (f\<lparr>opos := opos f + length ?bs\<rparr>)"] f(3) by simp
    moreover have "finv b ?w" using assms(1) by (simp add: finv_def)
    moreover have "?bs = take (length ?bs) ?there" unfolding length_take by (rule take_min_length)
    ultimately show ?thesis using rd
      by (intro exI [of _ "Some ?bs"] exI [of _ ?w]) (simp only: option.case file_contents_upd, simp)
  qed
qed

definition file_stored :: "int \<Rightarrow> byte list \<Rightarrow> byte list \<Rightarrow> byte list \<Rightarrow> bool" where
  "file_stored r bs d d' \<longleftrightarrow>
     (if r = -1 then d' = d else \<exists>k \<le> length bs. r = int k \<and> d' = d @ take k bs)"

lemma file_write_law:
  assumes "finv b w" and "fhost_ok H" and "ffds w fd = Some p"
  shows "\<exists>r w' q. file_write H w fd bs = Some (r, w') \<and> finv b w' \<and>
    file_stored r bs (file_contents w) (file_contents w') \<and>
    foutgoing w' = foutgoing w \<and> fevents w' = fevents w \<and> fhosts w' = fhosts w \<and>
    ffds w' = (ffds w)(fd \<mapsto> q)"
proof -
  obtain f where f: "0 \<le> fd" "ofiles w (nat fd) = Some f" "p = opos f" by (rule ffds_Some [OF assms(3)])
  show ?thesis
  proof (cases "\<not> oappend f \<or> FILE_MAX \<le> length (file_contents w) \<or> fh_write H (length bs) = None")
    case True
    then have "file_write H w fd bs = Some (-1, w)" using f by (auto simp: file_write_eq)
    then show ?thesis
      using assms(1,3) by (intro exI [of _ "-1"] exI [of _ w] exI [of _ p])
        (simp add: file_stored_def fun_upd_idem)
  next
    case False
    then obtain j where j: "fh_write H (length bs) = Some j" by auto
    then have le: "j \<le> length bs" using assms(2) by (auto simp: fhost_ok_def)
    let ?k = "min j (FILE_MAX - length (file_contents w))"
    let ?f = "f\<lparr>opos := length (file_contents w) + ?k\<rparr>"
    let ?w = "w\<lparr>data_file := Some (file_contents w @ take ?k bs), ofiles := (ofiles w)(nat fd \<mapsto> ?f)\<rparr>"
    have "file_write H w fd bs = Some (int ?k, ?w)" using f j False by (simp add: file_write_eq Let_def)
    moreover have "ffds ?w = (ffds w)(fd \<mapsto> opos ?f)" using ffds_upd [OF f(1), of ?w w "Some ?f"] by simp
    moreover have "finv b ?w" using assms(1) False by (auto simp: finv_def)
    moreover have "file_stored (int ?k) bs (file_contents w) (file_contents w @ take ?k bs)"
      using le by (auto simp: file_stored_def intro!: exI [of _ ?k])
    ultimately show ?thesis
      by (intro exI [of _ "int ?k"] exI [of _ ?w] exI [of _ "opos ?f"]) (simp del: of_nat_min)
  qed
qed

lemma file_close_law:
  assumes "finv b w" and "ffds w fd = Some p"
  shows "\<exists>w'. file_close w fd = Some w' \<and> finv b w' \<and> ffds w' = (ffds w)(fd := None)"
proof -
  obtain f where f: "0 \<le> fd" "ofiles w (nat fd) = Some f" by (rule ffds_Some [OF assms(2)])
  let ?w = "w\<lparr>ofiles := (ofiles w)(nat fd := None)\<rparr>"
  have "ffds ?w = (ffds w)(fd := None)" using ffds_upd [OF f(1), of ?w w None] by simp
  moreover have "finv b ?w" using assms(1) by (simp add: finv_def)
  ultimately show ?thesis using f by (simp add: file_close_def)
qed

lemma file_send_law:
  assumes "finv b w" and "fhost_ok H"
  shows "\<exists>r w' k. file_send H w bs = Some (r, w') \<and> finv b w' \<and> ffds w' = ffds w \<and>
    foutgoing w' = foutgoing w @ take k bs \<and> (r = int (length bs) \<longrightarrow> k = length bs)"
  using assms(1) by (auto simp: file_send_def Let_def finv_def ffds_def fun_eq_iff)

lemma finv_host: "finv b w \<Longrightarrow> fhost_ok (fhosts w n)"
  by (simp add: finv_def)

lemma finv_tick: "finv b w \<Longrightarrow> finv b (w\<lparr>ftime := n\<rparr>)" "ffds (w\<lparr>ftime := n\<rparr>) = ffds w"
  "fquiet w \<Longrightarrow> fquiet (w\<lparr>ftime := n\<rparr>)"
  by (simp_all add: finv_def ffds_def fquiet_def fun_eq_iff)

text \<open>One call, with the alarms and the other connections' packets that come before it.\<close>

lemma interleaved_open:
  assumes "finv b w"
  shows "\<exists>fd w'. interleave (\<lambda>H. file_open H app) w = Some (fd, w') \<and> finv b w' \<and>
    (if fd < 0 then fd = -1 \<and> ffds w' = ffds w else ffds w fd = None \<and> ffds w' = (ffds w)(fd \<mapsto> 0))"
  by (rule interleave_call [OF assms, of "\<lambda>H. file_open H app"])
    (use file_open_law [OF _ finv_host [OF assms]] in metis)

lemma interleaved_read:
  assumes "finv b w" and "ffds w fd = Some p" and "0 < n"
  shows "\<exists>r w'. interleave (\<lambda>H w. file_read H w fd n) w = Some (r, w') \<and> finv b w' \<and>
    (case r of None \<Rightarrow> ffds w' = ffds w
     | Some bs \<Rightarrow> ffds w' = (ffds w)(fd \<mapsto> p + length bs) \<and> (bs \<noteq> [] \<longrightarrow> p + length bs \<le> FILE_MAX))"
proof -
  obtain w1 where w1: "interleave (\<lambda>H w. file_read H w fd n) w = file_read (fhosts w (ftime w)) w1 fd n"
      "finv b w1" "ffds w1 = ffds w" by (rule interleave_call [OF assms(1), of "\<lambda>H w. file_read H w fd n"])
  have fd: "ffds w1 fd = Some p" using w1(3) assms(2) by simp
  obtain r w' where rd: "file_read (fhosts w (ftime w)) w1 fd n = Some (r, w')" "finv b w'"
    and out: "case r of None \<Rightarrow> ffds w' = ffds w1
     | Some bs \<Rightarrow> ffds w' = (ffds w1)(fd \<mapsto> p + length bs) \<and>
         bs = take (length bs) (drop p (file_contents w1)) \<and>
         (bs = [] \<longleftrightarrow> length (file_contents w1) \<le> p)"
    using file_read_law [OF w1(2) finv_host [OF assms(1)] fd assms(3)] by blast
  have "p + length bs \<le> FILE_MAX" if "bs = take (length bs) (drop p (file_contents w1))" "bs \<noteq> []" for bs
  proof -
    have "length bs \<le> length (file_contents w1) - p" using arg_cong [OF that(1), of length] by simp
    moreover have "0 < length bs" using that(2) by simp
    moreover have "length (file_contents w1) \<le> FILE_MAX" using w1(2) by (simp add: finv_def)
    ultimately show ?thesis by linarith
  qed
  with out w1(3) have "case r of None \<Rightarrow> ffds w' = ffds w
     | Some bs \<Rightarrow> ffds w' = (ffds w)(fd \<mapsto> p + length bs) \<and> (bs \<noteq> [] \<longrightarrow> p + length bs \<le> FILE_MAX)"
    by (auto split: option.splits)
  with w1(1) rd show ?thesis by auto
qed

lemma interleaved_write:
  assumes "finv b w" and "ffds w fd = Some p"
  shows "\<exists>r w' q. interleave (\<lambda>H w. file_write H w fd bs) w = Some (r, w') \<and> finv b w' \<and>
    ffds w' = (ffds w)(fd \<mapsto> q)"
proof -
  obtain w1 where w1: "interleave (\<lambda>H w. file_write H w fd bs) w = file_write (fhosts w (ftime w)) w1 fd bs"
      "finv b w1" "ffds w1 = ffds w" by (rule interleave_call [OF assms(1), of "\<lambda>H w. file_write H w fd bs"])
  then have "ffds w1 fd = Some p" using assms(2) by simp
  from file_write_law [OF w1(2) finv_host [OF assms(1)] this] w1(1,3) show ?thesis by metis
qed

lemma interleaved_ioctl:
  assumes "finv b w" and "ffds w fd = Some p"
  shows "\<exists>w'. interleave (\<lambda>H w. file_ioctl w fd q) w = Some (-1, w') \<and> finv b w' \<and> ffds w' = (ffds w)(fd \<mapsto> p)"
  by (rule interleave_call [OF assms(1), of "\<lambda>H w. file_ioctl w fd q"])
    (use assms(2) in \<open>simp add: file_ioctl_def fun_upd_idem\<close>)

lemma interleaved_close:
  assumes "finv b w" and "ffds w fd = Some p"
  shows "\<exists>w'. interleave (\<lambda>H w. file_close w fd) w = Some w' \<and> finv b w' \<and> ffds w' = (ffds w)(fd := None)"
  by (rule interleave_call [OF assms(1), of "\<lambda>H w. file_close w fd"])
    (use file_close_law [of b _ fd p] assms(2) in metis)

lemma interleaved_send:
  assumes "finv b w"
  shows "\<exists>r w'. interleave (\<lambda>H w. file_send H w bs) w = Some (r, w') \<and> finv b w' \<and> ffds w' = ffds w"
  by (rule interleave_call [OF assms, of "\<lambda>H w. file_send H w bs"])
    (use file_send_law [OF _ finv_host [OF assms]] in metis)

interpretation shared_file: server_host "file_hapi M R I" finv ffds FILE_MAX "\<lambda>bs. True" for M R I
proof (unfold_locales, goal_cases)
  case (1 b w)
  from interleaved_open [OF this, of False] obtain fd w' where
    "interleave (\<lambda>H. file_open H False) w = Some (fd, w')" "finv b w'"
    "if fd < 0 then fd = -1 \<and> ffds w' = ffds w else ffds w fd = None \<and> ffds w' = (ffds w)(fd \<mapsto> 0)" by blast
  then show ?case by (intro exI [of _ fd] exI [of _ w']) (auto split: if_splits)
next
  case (2 b w)
  then show ?case unfolding file_hapi_sel by (rule interleaved_open)
next
  case (3 b w fd p n)
  then show ?case unfolding file_hapi_sel by - (rule interleaved_read)
next
  case (4 b w fd p bs)
  from interleaved_write [OF 4(1,2)] show ?case unfolding file_hapi_sel .
next
  case (5 b w fd p seekto)
  from interleaved_ioctl [OF 5] show ?case unfolding file_hapi_sel by blast
next
  case (6 b w fd p)
  from interleaved_close [OF 6] show ?case unfolding file_hapi_sel .
next
  case (7 b w bs)
  from interleaved_send [OF 7] show ?case unfolding file_hapi_sel .
qed (auto simp: lock_file_mutex_def unlock_file_mutex_def finv_def ffds_def fun_eq_iff)

text \<open>While no alarm and no other connection comes between.\<close>

lemma fhost_fd: "fhost_ok H \<Longrightarrow> fh_fd H F = Some fd \<Longrightarrow> F fd = None"
  by (simp add: fhost_ok_def)

lemma file_open_quiet:
  assumes "file_open H app w = Some (fd, w')" and "fhost_ok H"
  shows "fevents w' = fevents w" and "fhosts w' = fhosts w" and "file_contents w' = file_contents w"
    and "foutgoing w' = foutgoing w" and "freadable rd w \<Longrightarrow> freadable rd w'"
  using assms by (auto simp: file_open_def freadable_def dest!: fhost_fd split: if_splits option.splits)

lemma file_read_quiet:
  assumes "file_read H w fd n = Some (r, w')" and "freadable fd w" and "\<forall>k. fh_read H k \<noteq> None"
  shows "freadable fd w'" and "r \<noteq> None"
proof -
  obtain f where f: "\<not> fd < 0" "ofiles w (nat fd) = Some f" "\<not> oappend f" using assms(2) by (auto simp: freadable_def)
  obtain j where "fh_read H (min n (length (drop (opos f) (file_contents w)))) = Some j" using assms(3) by auto
  with f assms(1) show "freadable fd w'" "r \<noteq> None"
    by (auto simp del: length_drop simp: file_read_def freadable_def Let_def)
qed

lemma file_write_quiet:
  assumes "file_write H w fd bs = Some (r, w')" and "freadable rd w"
  shows "freadable rd w'"
  using assms by (auto simp: file_write_eq freadable_def Let_def split: if_splits option.splits Option.bind_splits)

interpretation filed: storage_host "file_hapi M R I" finv ffds FILE_MAX "\<lambda>bs. True" file_contents "\<lambda>c. c"
  file_stored foutgoing "\<lambda>rd w. fquiet w \<and> freadable rd w" for M R I
proof (unfold_locales, goal_cases)
  case (1 b w rd p fd w')
  let ?w = "w\<lparr>ftime := Suc (ftime w)\<rparr>"
  have op: "file_open (fhosts w (ftime w)) True ?w = Some (fd, w')" using 1 by (simp add: interleave_quiet)
  note file_open_quiet [OF op finv_host [OF 1(1)]]
  with 1 show ?case by (simp add: fquiet_def freadable_def)
next
  case (2 b w fd p n r w')
  let ?w = "w\<lparr>ftime := Suc (ftime w)\<rparr>" and ?H = "fhosts w (ftime w)"
  have rd: "file_read ?H ?w fd n = Some (r, w')" using 2 by (simp add: interleave_quiet)
  have r: "freadable fd w'" "r \<noteq> None"
    using 2 by (intro file_read_quiet [OF rd]; simp add: fquiet_def freadable_def)+
  have "ffds ?w fd = Some p" using 2(3) by (simp add: finv_tick)
  from file_read_law [OF finv_tick(1) [OF 2(1)] finv_host [OF 2(1)] this 2(4), of "ftime w"] rd r 2(2)
  show ?case by (auto simp: fquiet_def)
next
  case (3 b w rd fd p bs r w')
  let ?w = "w\<lparr>ftime := Suc (ftime w)\<rparr>"
  have wr: "file_write (fhosts w (ftime w)) ?w fd bs = Some (r, w')" using 3 by (simp add: interleave_quiet)
  have r: "freadable rd w'" using 3(2) by (intro file_write_quiet [OF wr]) (simp add: freadable_def)
  have "ffds ?w fd = Some p" using 3(3) by (simp add: finv_tick)
  from file_write_law [OF finv_tick(1) [OF 3(1)] finv_host [OF 3(1)] this, of "ftime w" bs] wr r 3(2)
  show ?case by (auto simp: fquiet_def)
next
  case (4 b w rd fd p w')
  then show ?case
    by (auto simp: interleave_quiet file_close_def fquiet_def freadable_def split: Option.bind_splits if_splits)
next
  case (5 b w rd bs r w')
  then have "file_send (fhosts w (ftime w)) (w\<lparr>ftime := Suc (ftime w)\<rparr>) bs = Some (r, w')"
    by (simp add: interleave_quiet)
  with 5 show ?case by (auto simp: file_send_def Let_def fquiet_def freadable_def)
qed (auto simp: lock_file_mutex_def unlock_file_mutex_def fquiet_def freadable_def split: if_splits)

end
