(* ===== verification/File_Theorems.thy ===== *)
theory File_Theorems
  imports File_Host Handler_Theorems
begin

text \<open>
  The properties of the server built without the character device: the connection handler on a
  plain file that the timestamp handler and other connections append to, and the timestamp handler
  itself, each with its instance on a concrete system.
\<close>

section \<open>A sample system\<close>

abbreviation sample_file_hapi :: "fworld hapi" where
  "sample_file_hapi \<equiv> file_hapi sample_malloc sample_realloc word_of_int"

lemma sample_file_mem_ok: "mem_ok sample_file_hapi"
  using sample_mem_ok by (simp add: mem_ok_def malloc_ok_def realloc_ok_def)

definition sample_fhost :: fhost where
  "sample_fhost = \<lparr>fh_fd = (\<lambda>F. find (\<lambda>n. F n = None) [3..<9]), fh_read = Some, fh_write = Some,
     fh_send = (\<lambda>bs. int (length bs))\<rparr>"

lemma sample_fhost_ok: "fhost_ok sample_fhost"
  by (auto simp: fhost_ok_def sample_fhost_def find_Some_iff)

text \<open>Saturday 1 March 2025, 12:30:05, one hour east of UTC.\<close>

definition sample_tm :: tm where
  "sample_tm = \<lparr>tm_sec = 5, tm_min = 30, tm_hour = 12, tm_mday = 1, tm_mon = 2, tm_year = 125,
     tm_wday = 6, tm_gmtoff = 60\<rparr>"

lemma sample_tm_ok: "tm_ok sample_tm"
  by (simp add: tm_ok_def sample_tm_def)

definition sample_fworld :: "byte list option \<Rightarrow> (nat \<Rightarrow> fevent list) \<Rightarrow> fworld" where
  "sample_fworld d E = \<lparr>data_file = d, ofiles = Map.empty, file_mutex = False, info_mutex = False,
     ftime = 0, fhosts = (\<lambda>n. sample_fhost), fevents = E, foutgoing = []\<rparr>"

definition sample_fconn :: "fworld \<Rightarrow> fworld conn" where
  "sample_fconn w = \<lparr>world = w, uheap = Map.empty, data_buffer = NULL, data_len = 0,
     clfd_closed = 0, done_flag = False\<rparr>"

lemma sample_fworld_inv:
  "\<forall>n. \<forall>e \<in> set (E n). fevent_ok e \<Longrightarrow> length (case d of None \<Rightarrow> [] | Some c \<Rightarrow> c) \<le> FILE_MAX \<Longrightarrow>
   finv False (sample_fworld d E)"
  by (simp add: finv_def sample_fworld_def sample_fhost_ok)

text \<open>An alarm and a packet of another connection before every call.\<close>

definition sample_events :: "nat \<Rightarrow> fevent list" where
  "sample_events n = [Alarm sample_tm sample_fhost, Other_packet (''x'' @ [newline])]"

lemma sample_events_ok: "\<forall>n. \<forall>e \<in> set (sample_events n). fevent_ok e"
  by (simp add: sample_events_def sample_tm_ok sample_fhost_ok)

section \<open>The connection handler on a file\<close>

text \<open>
  (C15) The handler of the build without the device, whatever a client sends, whatever calls fail,
  and whatever alarms and packets of other connections come between its calls: it returns without
  undefined behaviour, having released the file mutex on every path, freed its buffer, closed its
  descriptors and the client's socket once, and marked the connection.
\<close>

theorem file_handler_cleans_up:
  assumes "finv False (world s)" and "mem_ok (file_hapi M R I)"
    and "\<forall>c \<in> set chunks. 0 < length c \<and> length c < BUFFER_SIZE"
  shows "\<exists>s'. handle_connection (file_hapi M R I) chunks s = Some s' \<and> finv False (world s') \<and>
    \<not> file_mutex (world s') \<and> uheap s' = uheap s \<and> ffds (world s') = ffds (world s) \<and>
    clfd_closed s' = Suc (clfd_closed s) \<and> done_flag s'"
  using shared_file.handle_connection_ok [of s chunks M R I] assms by (auto simp: finv_def)

theorem file_handler_cleans_up_witness:
  "\<exists>s'. handle_connection sample_file_hapi [''he'', ''llo'' @ [newline]]
      (sample_fconn (sample_fworld None sample_events)) = Some s' \<and>
     \<not> file_mutex (world s') \<and> uheap s' = Map.empty \<and> clfd_closed s' = 1 \<and> done_flag s'"
  using file_handler_cleans_up [of "sample_fconn (sample_fworld None sample_events)" sample_malloc
      sample_realloc word_of_int "[''he'', ''llo'' @ [newline]]"]
    sample_fworld_inv [OF sample_events_ok, of None] sample_file_mem_ok
  by (auto simp: sample_fconn_def)

text \<open>
  A complete packet on a file, while nothing comes between.  When the chunk that completes a
  packet, one that is not a seek command, is processed and the loop goes on, the bytes the write
  accepted have been appended, a prefix of the packet and all of it unless the write was short, the
  client has been sent everything from the position of the connection's descriptor on, and the
  buffer is empty again.
\<close>

theorem file_packet_stored_and_echoed:
  assumes "finv False (world s)" and "fquiet (world s)" and "freadable fd (world s)"
    and "ffds (world s) fd = Some p" and "buf_inv h0 s d"
    and "0 < length c" and "length c < BUFFER_SIZE"
    and "take (length SEEKTO) (d @ c) \<noteq> SEEKTO" and "newline \<in> set (d @ c)"
    and "recv_body (file_hapi M R I) fd c s = Some (True, s')" and "mem_ok (file_hapi M R I)"
  shows "\<exists>k \<le> length (d @ c). file_contents (world s') = file_contents (world s) @ take k (d @ c) \<and>
    foutgoing (world s') = foutgoing (world s) @ drop p (file_contents (world s')) \<and>
    ffds (world s') = (ffds (world s))(fd \<mapsto> max p (length (file_contents (world s')))) \<and>
    buf_inv h0 s' []"
  using filed.packet_echo [of s fd p h0 d c M R I s'] assms
  by (auto simp: file_stored_def simp del: length_append)

definition sample_fstart :: "fworld conn" where
  "sample_fstart = (sample_fconn ((sample_fworld (Some (''ab'' @ [newline])) (\<lambda>n. []))
     \<lparr>ofiles := [3 \<mapsto> \<lparr>opos = 0, oappend = False\<rparr>]\<rparr>))
     \<lparr>uheap := [1 \<mapsto> replicate 1024 nul], data_buffer := 1\<rparr>"

lemma sample_fstart_buf: "buf_inv Map.empty sample_fstart []"
  unfolding buf_inv_def
  by (rule exI [of _ "replicate 1024 nul"]) (simp add: sample_fstart_def sample_fconn_def)

lemma sample_fstart_world:
  "finv False (world sample_fstart)" "fquiet (world sample_fstart)" "freadable 3 (world sample_fstart)"
  "ffds (world sample_fstart) 3 = Some 0" "file_contents (world sample_fstart) = ''ab'' @ [newline]"
  "foutgoing (world sample_fstart) = []"
  by (simp_all add: finv_def sample_fstart_def sample_fconn_def sample_fworld_def sample_fhost_ok FILE_MAX_def
      fquiet_def freadable_def ffds_def) (simp_all add: sample_fhost_def)

theorem file_packet_stored_and_echoed_witness:
  "\<exists>s' k. recv_body sample_file_hapi 3 (''cd'' @ [newline]) sample_fstart = Some (True, s') \<and>
     file_contents (world s') = ''ab'' @ [newline] @ take k (''cd'' @ [newline]) \<and>
     foutgoing (world s') = file_contents (world s')"
proof -
  have "map_option fst (recv_body sample_file_hapi 3 (''cd'' @ [newline]) sample_fstart) = Some True"
    by code_simp
  then obtain s' where s': "recv_body sample_file_hapi 3 (''cd'' @ [newline]) sample_fstart = Some (True, s')"
    by auto
  from file_packet_stored_and_echoed [OF sample_fstart_world(1-4) sample_fstart_buf _ _ _ _ s' sample_file_mem_ok]
  show ?thesis using s' sample_fstart_world(5,6) by (auto simp: SEEKTO_def)
qed

text \<open>
  (C29) Before the data file exists the handler drops connections: it opens the file for reading
  first, without creating it, so as long as neither a timestamp nor another program has created
  the file, every connection is closed with nothing received, stored or sent.
\<close>

theorem file_missing_drops_connection:
  assumes "finv False (world s)" and "data_file (world s) = None"
    and "fevents (world s) (ftime (world s)) = []" and "mem_ok (file_hapi M R I)"
  shows "\<exists>s'. handle_connection (file_hapi M R I) chunks s = Some s' \<and> data_file (world s') = None \<and>
    foutgoing (world s') = foutgoing (world s) \<and> uheap s' = uheap s \<and>
    clfd_closed s' = Suc (clfd_closed s) \<and> done_flag s'"
proof -
  let ?K = "file_hapi M R I"
  obtain p h where m: "malloc ?K (uheap s) (of_nat BUFFER_SIZE) = (p, h)"
    by (cases "malloc ?K (uheap s) (of_nat BUFFER_SIZE)")
  have op: "sys_open_rdonly ?K (world s) = Some (-1, (world s)\<lparr>ftime := Suc (ftime (world s))\<rparr>)"
    using assms(2,3) by (simp add: interleave_def file_open_def)
  show ?thesis
  proof (cases "p = NULL")
    case True
    with m malloc_NULL [OF mem_okD(1) [OF assms(4)]] have "h = uheap s" by fastforce
    with True m assms(2) show ?thesis by (simp add: handle_connection_def conn_close_def)
  next
    case False
    let ?s1 = "s\<lparr>uheap := h, data_buffer := p, data_len := 0\<rparr>"
    have "buf_inv (uheap s) ?s1 []"
      using fresh_buffer [OF mem_okD(1) [OF assms(4)] m False, of s] by (simp add: buf_inv_def)
    from buf_inv_freeable [OF this] have "release h p = Some (uheap s)" by (simp add: freeable_def)
    with False m op assms(2) show ?thesis by (simp add: handle_connection_def conn_close_def)
  qed
qed

theorem file_missing_drops_connection_witness:
  "\<exists>s'. handle_connection sample_file_hapi [''hello'' @ [newline]]
      (sample_fconn (sample_fworld None (\<lambda>n. []))) = Some s' \<and>
     data_file (world s') = None \<and> foutgoing (world s') = [] \<and> done_flag s'"
  using file_missing_drops_connection [of "sample_fconn (sample_fworld None (\<lambda>n. []))" sample_malloc
      sample_realloc word_of_int "[''hello'' @ [newline]]"]
    sample_fworld_inv [of "\<lambda>n. []" None] sample_file_mem_ok
  by (auto simp: sample_fconn_def sample_fworld_def)

text \<open>
  Without the device a seek command ends the connection: a plain file refuses the ioctl, so
  once the prefix and two numbers have arrived the loop stops, with nothing sent to the client and
  nothing of this connection written.
\<close>

theorem file_seek_ends_connection:
  assumes "fquiet (world s)" and "buf_inv h0 s d"
    and "0 < length c" and "length c < BUFFER_SIZE"
    and prefix: "take (length SEEKTO) (d @ c) = SEEKTO"
    and args: "sscanf_d_d (takeWhile (\<lambda>x. x \<noteq> nul) (drop (length SEEKTO) (d @ c))) = Some (a, b)"
    and mem: "mem_ok (file_hapi M R I)"
  shows "\<exists>s'. recv_body (file_hapi M R I) fd c s = Some (False, s') \<and>
    foutgoing (world s') = foutgoing (world s) \<and> data_file (world s') = data_file (world s)"
  using assms(2-4) mem
proof (cases rule: recv_body_cases [where fd = fd])
  case (no_memory s1)
  then show ?thesis by auto
next
  case (collected s2)
  have len: "length SEEKTO \<le> length (d @ c)" using arg_cong [OF prefix, of length] by simp
  have "cstring (uheap s2) (data_buffer s2) (length SEEKTO) =
      Some (takeWhile (\<lambda>x. x \<noteq> nul) (drop (length SEEKTO) (d @ c)))"
    using collected(1) by (intro cstring_terminated [OF collected(2) _ len]) (auto simp: buf_inv_def)
  then show ?thesis
    using collected(3,4) prefix args by (simp add: handle_seek_def file_ioctl_def interleave_quiet [OF assms(1)])
qed

theorem file_seek_ends_connection_witness:
  "\<exists>s'. recv_body sample_file_hapi 3 (''AESDCHAR_IOCSEEKTO:0,1'' @ [newline]) sample_fstart = Some (False, s') \<and>
     foutgoing (world s') = []"
proof -
  let ?c = "''AESDCHAR_IOCSEEKTO:0,1'' @ [newline]"
  have "sscanf_d_d (takeWhile (\<lambda>x. x \<noteq> nul) (drop (length SEEKTO) ([] @ ?c))) = Some (0, 1)" by code_simp
  moreover have "take (length SEEKTO) ([] @ ?c) = SEEKTO" by code_simp
  ultimately show ?thesis
    using file_seek_ends_connection [OF sample_fstart_world(2) sample_fstart_buf _ _ _ _ sample_file_mem_ok, of ?c]
      sample_fstart_world(6) by auto
qed

section \<open>The timestamp handler\<close>

text \<open>
  (C18) The handler of \<open>SIGALRM\<close>, on every path: the timestamp fits its buffer of 100 bytes for every
  local time, the mutex the handler takes is released and its descriptor closed again, and nothing
  but the data file changes: a prefix of the line is appended, the whole line when \<open>open\<close> succeeds and
  the write takes all of it.  Any other signal does nothing.
\<close>

theorem alarm_handler_appends_line:
  assumes "tm_ok t" and "fhost_ok H" and "\<not> info_mutex w"
  defines "line \<equiv> rfc2822 t @ [newline]"
  shows "strftime 100 t = Some (rfc2822 t) \<and>
    (\<exists>d. alarm_handler SIGALRM t H w = Some (w\<lparr>data_file := d\<rparr>) \<and>
      (d = data_file w \<or> (\<exists>k. d = Some (file_contents w @ take k line))) \<and>
      (fh_fd H (ofiles w) \<noteq> None \<and> fh_write H (length line) = Some (length line) \<and>
         length (file_contents w) + length line \<le> FILE_MAX \<longrightarrow> d = Some (file_contents w @ line))) \<and>
    (sig \<noteq> SIGALRM \<longrightarrow> alarm_handler sig t H w = Some w)"
proof -
  obtain d where d: "alarm_handler SIGALRM t H w = Some (w\<lparr>data_file := d\<rparr>)"
      "d = data_file w \<or> (\<exists>k. d = Some (file_contents w @ take k line))"
    using alarm_handler_effect [OF assms(1-3)] unfolding line_def by blast
  have "d = Some (file_contents w @ line)"
    if "fh_fd H (ofiles w) \<noteq> None" "fh_write H (length line) = Some (length line)"
      "length (file_contents w) + length line \<le> FILE_MAX"
  proof -
    from that have "w\<lparr>data_file := d\<rparr> = w\<lparr>data_file := Some (file_contents w @ line)\<rparr>"
      using d(1) unfolding line_def by (subst (asm) alarm_handler_line [OF assms(1-3)]) auto
    from arg_cong [OF this, of data_file] show ?thesis by simp
  qed
  then show ?thesis using d strftime_fits [OF assms(1)] by (auto simp: alarm_handler_def)
qed

theorem alarm_handler_appends_line_witness:
  "\<exists>w. alarm_handler SIGALRM sample_tm sample_fhost (sample_fworld None (\<lambda>n. [])) = Some w \<and>
     data_file w = Some (''timestamp:Sat, 01 Mar 2025 12:30:05 +0100'' @ [newline]) \<and> \<not> info_mutex w"
proof -
  have "rfc2822 sample_tm = ''timestamp:Sat, 01 Mar 2025 12:30:05 +0100''" by code_simp
  then show ?thesis
    using alarm_handler_appends_line [OF sample_tm_ok sample_fhost_ok, of "sample_fworld None (\<lambda>n. [])"]
    by (auto simp: sample_fworld_def sample_fhost_def FILE_MAX_def)
qed

end
