(* ===== verification/Handler_Service.thy ===== *)
theory Handler_Service
  imports Handler_Host
begin

text \<open>
  What a client is served while nothing fails: the packets its bytes are cut into, the data stored
  and the bytes sent back, over a whole connection.  The contract \<open>reliable_host\<close> adds to \<open>storage_host\<close>
  that the calls succeed; under it the handler is shown to run to the end of the client's input.
\<close>

section \<open>Packets and replies\<close>

text \<open>
  Chunks are collected until the bytes hold a newline; all of them are then one packet, also those
  behind the newline.  \<open>plain\<close> is that no round sees a seek command.
\<close>

fun packets :: "byte list \<Rightarrow> byte list list \<Rightarrow> byte list list" where
  "packets d [] = []"
| "packets d (c # cs) = (if newline \<in> set (d @ c) then (d @ c) # packets [] cs else packets (d @ c) cs)"

fun plain :: "byte list \<Rightarrow> byte list list \<Rightarrow> bool" where
  "plain d [] \<longleftrightarrow> True"
| "plain d (c # cs) \<longleftrightarrow> take (length SEEKTO) (d @ c) \<noteq> SEEKTO \<and>
     plain (if newline \<in> set (d @ c) then [] else d @ c) cs"

text \<open>
  The stored data as a client meets it: what a write does, when it succeeds, the readable bytes, and
  the position a seek request goes to.
\<close>

record 'd storage =
  s_put :: "byte list \<Rightarrow> 'd \<Rightarrow> 'd"
  s_fits :: "byte list \<Rightarrow> 'd \<Rightarrow> bool"
  s_contents :: "'d \<Rightarrow> byte list"
  s_seek :: "aesd_seekto \<Rightarrow> 'd \<Rightarrow> nat option"

text \<open>After each packet the client is sent the contents from the reading position on.\<close>

fun replies :: "'d storage \<Rightarrow> nat \<Rightarrow> 'd \<Rightarrow> byte list list \<Rightarrow> byte list" where
  "replies S p D [] = []"
| "replies S p D (x # xs) =
     (let D' = s_put S x D; C = s_contents S D' in drop p C @ replies S (max p (length C)) D' xs)"

fun all_fit :: "'d storage \<Rightarrow> 'd \<Rightarrow> byte list list \<Rightarrow> bool" where
  "all_fit S D [] \<longleftrightarrow> True"
| "all_fit S D (x # xs) \<longleftrightarrow> s_fits S x D \<and> all_fit S (s_put S x D) xs"

text \<open>
  The service of a connection with seek commands: what the client is sent and the data afterwards,
  from reading position \<open>p\<close>, data \<open>D\<close> and collected bytes \<open>d\<close>.  A seek command is taken as soon as its prefix
  is there; one that does not parse is dropped, one that the storage refuses ends the connection.
  \<open>None\<close> is that a packet does not fit.
\<close>

fun session ::
  "(int \<Rightarrow> 32 word) \<Rightarrow> 'd storage \<Rightarrow> nat \<Rightarrow> 'd \<Rightarrow> byte list \<Rightarrow> byte list list \<Rightarrow> (byte list \<times> 'd) option"
where
  "session I S p D d [] = Some ([], D)"
| "session I S p D d (c # cs) =
     (if take (length SEEKTO) (d @ c) = SEEKTO then
        case sscanf_d_d (takeWhile (\<lambda>x. x \<noteq> nul) (drop (length SEEKTO) (d @ c))) of
          None \<Rightarrow> session I S p D [] cs
        | Some (x, y) \<Rightarrow>
            (case s_seek S \<lparr>write_cmd = I x, write_cmd_offset = I y\<rparr> D of
               None \<Rightarrow> Some ([], D)
             | Some q \<Rightarrow> do {
                 let C = s_contents S D;
                 (out, D') \<leftarrow> session I S (max q (length C)) D [] cs;
                 Some (drop q C @ out, D')
               })
      else if newline \<in> set (d @ c) then
        if s_fits S (d @ c) D then do {
          let D' = s_put S (d @ c) D;
          let C = s_contents S D';
          (out, D'') \<leftarrow> session I S (max p (length C)) D' [] cs;
          Some (drop p C @ out, D'')
        }
        else None
      else session I S p D (d @ c) cs)"

lemma session_plain:
  "plain d cs \<Longrightarrow> all_fit S D (packets d cs) \<Longrightarrow>
   session I S p D d cs = Some (replies S p D (packets d cs), fold (s_put S) (packets d cs) D)"
proof (induction cs arbitrary: p D d)
  case (Cons c cs)
  then show ?case by (cases "newline \<in> set (d @ c)") (auto simp: Let_def)
qed simp

lemma packets_newline: "x \<in> set (packets d cs) \<Longrightarrow> newline \<in> set x"
  by (induction d cs rule: packets.induct) (auto split: if_splits)

lemma packets_length: "x \<in> set (packets d cs) \<Longrightarrow> length x \<le> length d + sum_list (map length cs)"
  by (induction d cs rule: packets.induct) (auto split: if_splits)

text \<open>No byte is lost or moved: the packets are a prefix of the input, up to an unfinished packet.\<close>

lemma packets_concat: "\<exists>rest. d @ concat cs = concat (packets d cs) @ rest \<and> (newline \<notin> set d \<longrightarrow> newline \<notin> set rest)"
proof (induction d cs rule: packets.induct)
  case (2 d c cs)
  show ?case
  proof (cases "newline \<in> set (d @ c)")
    case True
    with 2(1) show ?thesis by auto
  next
    case False
    with 2(2) show ?thesis by auto
  qed
qed simp

text \<open>While every packet is added at the end of the contents, the client is sent each byte once.\<close>

lemma replies_append:
  assumes step: "\<And>x xs D. P (x # xs) D \<Longrightarrow> s_contents S (s_put S x D) = s_contents S D @ x \<and> P xs (s_put S x D)"
    and "P xs D" and "p \<le> length (s_contents S D)" and "xs \<noteq> []"
  shows "replies S p D xs = drop p (s_contents S D @ concat xs)"
  using assms(2-)
proof (induction xs arbitrary: p D)
  case (Cons x xs)
  note x = step [OF Cons.prems(1)]
  show ?case
  proof (cases "xs = []")
    case True
    then show ?thesis using x by simp
  next
    case False
    have "replies S (length (s_contents S (s_put S x D))) (s_put S x D) xs = concat xs"
      using Cons.IH [of "s_put S x D" "length (s_contents S (s_put S x D))"] False x by simp
    with Cons.prems(2) x show ?thesis by (simp add: Let_def)
  qed
qed simp

section \<open>Memory that suffices\<close>

text \<open>
  Beside the rest \<open>h0\<close> of the memory there is room for one buffer, of up to \<open>B\<close> bytes.
\<close>

definition mem_plenty :: "'w hapi \<Rightarrow> heap \<Rightarrow> nat \<Rightarrow> bool" where
  "mem_plenty K h0 B \<longleftrightarrow> fst (malloc K h0 (of_nat BUFFER_SIZE)) \<noteq> NULL \<and>
     (\<forall>p block n. p \<noteq> NULL \<longrightarrow> h0 p = None \<longrightarrow> unat n \<le> B \<longrightarrow> fst (realloc K (h0(p \<mapsto> block)) p n) \<noteq> NULL)"

lemma grow_buffer_plenty:
  assumes "mem_plenty K h0 B" and "buf_inv h0 s d" and "0 < length c" and "length c < BUFFER_SIZE"
    and "2 * length (d @ c) \<le> B"
  shows "fst (grow_buffer K (of_nat (length c)) s)"
proof -
  obtain block where b: "data_buffer s \<noteq> NULL" "h0 (data_buffer s) = None" "uheap s = h0(data_buffer s \<mapsto> block)"
      "length block < 2 ^ 63" "1024 \<le> unat (data_len s) \<longrightarrow> 2 * unat (data_len s) \<le> length block"
    using assms(2) unfolding buf_inv_def by blast
  let ?n = "of_nat (length c) :: size_t"
  have n: "unat ?n = length c" using assms(4) by (intro unat_of_nat64) simp
  have "unat (data_len s) < 2 ^ 62 + 1024" using b(4,5) by (cases "1024 \<le> unat (data_len s)") simp_all
  from grow_size(2) [OF this, of ?n] have "unat (2 * (data_len s + ?n)) = 2 * length (d @ c)"
    using n assms(4) buf_inv_length [OF assms(2)] by simp
  then have "fst (realloc K (uheap s) (data_buffer s) (2 * (data_len s + ?n))) \<noteq> NULL"
    using assms(1,5) b(1-3) unfolding mem_plenty_def by metis
  then show ?thesis by (auto simp: grow_buffer_def Let_def split: prod.splits)
qed

lemma reset_buffer_plenty:
  assumes "mem_plenty K h0 B" and "mem_ok K" and "freeable h0 s"
  shows "\<exists>s'. reset_buffer K s = Some (True, s') \<and> world s' = world s \<and> buf_inv h0 s' []"
proof -
  obtain ok s' where r: "reset_buffer K s = Some (ok, s')" "world s' = world s"
      "if ok then buf_inv h0 s' [] else freeable h0 s'"
    using reset_buffer_inv [OF mem_okD(1) [OF assms(2)] assms(3)] by blast
  have "ok" using assms(1,3) r(1)
    by (auto simp: reset_buffer_def freeable_def mem_plenty_def Let_def split: prod.splits)
  with r show ?thesis by auto
qed

section \<open>A host on which nothing fails\<close>

text \<open>
  \<open>ready\<close> is that the first open of a thread with no descriptor succeeds.
\<close>

locale reliable_host = storage_host K inv fds limit packet dev "s_contents S" stored sent quiet
  for K :: "'w hapi" and inv and fds and limit and packet
    and dev :: "'w \<Rightarrow> 'd" and S :: "'d storage" and stored and sent and quiet +
  fixes ready :: "'w \<Rightarrow> bool"
  assumes start_works: "inv False w \<Longrightarrow> ready w \<Longrightarrow> fds w = Map.empty \<Longrightarrow> sys_open_rdonly K w = Some (fd, w') \<Longrightarrow>
      0 \<le> fd \<and> quiet fd w' \<and> dev w' = dev w \<and> sent w' = sent w"
    and open_works: "inv b w \<Longrightarrow> quiet rd w \<Longrightarrow> fds w = [rd \<mapsto> p] \<Longrightarrow> sys_open_append K w = Some (fd, w') \<Longrightarrow> 0 \<le> fd"
    and append_works: "inv b w \<Longrightarrow> quiet rd w \<Longrightarrow> fds w = [rd \<mapsto> p] \<Longrightarrow> s_fits S bs (dev w) \<Longrightarrow>
      sys_open_append K w = Some (fd, w1) \<Longrightarrow> sys_write K w1 fd bs = Some (r, w2) \<Longrightarrow>
      r \<noteq> -1 \<and> dev w2 = s_put S bs (dev w)"
    and send_works: "inv b w \<Longrightarrow> quiet rd w \<Longrightarrow> sys_send K w bs = Some (r, w') \<Longrightarrow> r = int (length bs)"
    and ioctl_works: "inv False w \<Longrightarrow> quiet fd w \<Longrightarrow> fds w = [fd \<mapsto> p] \<Longrightarrow> sys_ioctl K w fd seekto = Some (r, w') \<Longrightarrow>
      quiet fd w' \<and> dev w' = dev w \<and> sent w' = sent w \<and>
      (case s_seek S seekto (dev w) of None \<Rightarrow> r \<noteq> 0 | Some q \<Rightarrow> r = 0 \<and> fds w' = [fd \<mapsto> q])"
    and finish_works: "inv b w \<Longrightarrow> quiet fd w \<Longrightarrow> fds w fd = Some p \<Longrightarrow> sys_close K w fd = Some w' \<Longrightarrow>
      dev w' = dev w \<and> sent w' = sent w \<and> ready w'"
    and fits_packet: "s_fits S bs D \<Longrightarrow> packet bs"
begin

abbreviation contents where
  "contents \<equiv> s_contents S"

abbreviation put where
  "put \<equiv> s_put S"

abbreviation fits where
  "fits \<equiv> s_fits S"

lemma sends_rest:
  assumes "inv b w" and "quiet fd w" and "fds w fd = Some p"
  shows "\<exists>w'. write_to_client K fd w = Some (0, w') \<and> inv b w' \<and> quiet fd w' \<and> dev w' = dev w \<and>
    sent w' = sent w @ drop p (contents (dev w)) \<and> fds w' = (fds w)(fd \<mapsto> max p (length (contents (dev w))))"
proof -
  obtain r w' where wr: "write_to_client K fd w = Some (r, w')" "write_to_client_done fd p w r w'"
    using write_to_client_spec [OF assms] by blast
  have "\<not> short_send fd" using send_works by (auto simp: short_send_def)
  with wr have "r = 0" "quiet fd w'" "dev w' = dev w" "sent w' = sent w @ drop p (contents (dev w))"
      "fds w' = (fds w)(fd \<mapsto> max p (length (contents (dev w))))"
    unfolding write_to_client_done_def Let_def by (auto split: if_splits)
  moreover have "inv b w'" using write_to_client_returns [OF assms(1,3)] wr(1) by auto
  ultimately show ?thesis using wr(1) by blast
qed

lemma append_packet_puts:
  assumes "inv b w" and "quiet rd w" and "fds w = [rd \<mapsto> p]" and "fits d (dev w)"
  shows "\<exists>w'. append_packet K d w = Some (0, w') \<and> inv b w' \<and> fds w' = fds w \<and> quiet rd w' \<and> sent w' = sent w \<and>
    dev w' = put d (dev w)"
proof -
  note pk = fits_packet [OF assms(4)]
  have rd: "fds w rd = Some p" using assms(3) by simp
  obtain r w' where ap: "append_packet K d w = Some (r, w')" "inv b w'" "fds w' = fds w"
    using append_packet_returns [OF assms(1) pk] by blast
  note q = append_packet_stored [OF assms(1,2) rd pk ap(1)]
  obtain fd w1 where op: "sys_open_append K w = Some (fd, w1)" "inv b w1"
      "if fd < 0 then fd = -1 \<and> fds w1 = fds w else fds w fd = None \<and> fds w1 = (fds w)(fd \<mapsto> 0)"
    using open_append_law [OF assms(1)] by blast
  have fd: "0 \<le> fd" by (rule open_works [OF assms(1-3) op(1)])
  then have pos: "fds w1 fd = Some 0" "fd \<noteq> rd" using op(3) rd by auto
  obtain res w2 q' where wr: "sys_write K w1 fd d = Some (res, w2)" "inv b w2" "fds w2 = (fds w1)(fd \<mapsto> q')"
    using write_law [OF op(2) pos(1) pk] by blast
  have put: "res \<noteq> -1" "dev w2 = put d (dev w)" using append_works [OF assms op(1) wr(1)] by auto
  have q': "fds w2 fd = Some q'" using wr(3) by simp
  obtain w3 where cl: "sys_close K w2 fd = Some w3" using close_law [OF wr(2) q'] by blast
  have "quiet rd w2" using quiet_write [OF op(2) _ pos(1) pk wr(1)] quiet_open [OF assms(1,2) rd op(1)] by blast
  from quiet_close [OF wr(2) this pos(2) q' cl] have "dev w3 = dev w2" by blast
  moreover have "r = 0" "w' = w3" using ap(1) op(1) fd wr(1) cl put(1) by (auto simp: append_packet_def)
  ultimately show ?thesis using ap q put(2) by auto
qed

lemma locked_append_puts:
  assumes "inv False w" and "quiet rd w" and "fds w = [rd \<mapsto> p]" and "fits d (dev w)"
  shows "\<exists>w'. locked_append d w = Some (0, w') \<and> inv False w' \<and> fds w' = fds w \<and> quiet rd w' \<and> sent w' = sent w \<and>
    dev w' = put d (dev w)"
proof (cases "use_char_device K")
  case True
  with append_packet_puts [OF assms] show ?thesis by (auto simp: locked_append_def)
next
  case False
  obtain w0 where w0: "mutex_lock_file K w = Some w0" "inv True w0" "fds w0 = fds w"
    using lock_law [OF False assms(1)] by blast
  note q0 = quiet_lock [OF assms(1,2) w0(1)]
  obtain w1 where w1: "append_packet K d w0 = Some (0, w1)" "inv True w1" "fds w1 = fds w0" "quiet rd w1"
      "sent w1 = sent w0" "dev w1 = put d (dev w0)"
    using append_packet_puts [OF w0(2), of rd p d] q0 w0(3) assms(3,4) by auto
  obtain w2 where w2: "mutex_unlock_file K w1 = Some w2" "inv False w2" "fds w2 = fds w1"
    using unlock_law [OF False w1(2)] by blast
  with quiet_unlock [OF w1(2,4) w2(1)] False w0 w1 q0 show ?thesis by (auto simp: locked_append_def)
qed

definition serving where
  "serving fd p s \<longleftrightarrow> inv False (world s) \<and> quiet fd (world s) \<and> fds (world s) = [fd \<mapsto> p]"

lemma chunk_collected:
  assumes "buf_inv h0 s d" and "0 < length c" "length c < BUFFER_SIZE"
    and "mem_ok K" and "mem_plenty K h0 B" and "2 * length (d @ c) \<le> B"
  shows "\<exists>s2. buf_inv h0 s2 (d @ c) \<and> terminated s2 (d @ c) \<and> world s2 = world s \<and>
    recv_body K fd c s =
      (if take (length SEEKTO) (d @ c) = SEEKTO then handle_seek K fd s2
       else if newline \<in> set (d @ c) then handle_packet K fd s2 else Some (True, s2))"
  using assms(1-4)
proof (cases rule: recv_body_cases [where fd = fd])
  case no_memory
  with grow_buffer_plenty [OF assms(5,1-3,6)] show ?thesis by simp
next
  case (collected s2)
  then show ?thesis by auto
qed

lemma packet_served:
  assumes "serving fd p s" and "buf_inv h0 s d" and "fits d (dev (world s))" and "mem_ok K" and "mem_plenty K h0 B"
  defines "D \<equiv> put d (dev (world s))"
  shows "\<exists>s'. handle_packet K fd s = Some (True, s') \<and> serving fd (max p (length (contents D))) s' \<and>
    dev (world s') = D \<and> sent (world s') = sent (world s) @ drop p (contents D) \<and> buf_inv h0 s' []"
proof -
  from assms(1) have sv: "inv False (world s)" "quiet fd (world s)" "fds (world s) = [fd \<mapsto> p]"
    by (auto simp: serving_def)
  obtain w1 where ap: "locked_append d (world s) = Some (0, w1)" "inv False w1" "fds w1 = [fd \<mapsto> p]" "quiet fd w1"
      "sent w1 = sent (world s)" "dev w1 = D"
    using locked_append_puts [OF sv assms(3)] sv(3) by (auto simp: D_def)
  have free: "freeable h0 (s\<lparr>world := w1\<rparr>)" using buf_inv_freeable [OF assms(2)] by simp
  obtain s2 where rs: "reset_buffer K (s\<lparr>world := w1\<rparr>) = Some (True, s2)" "world s2 = w1" "buf_inv h0 s2 []"
    using reset_buffer_plenty [OF assms(5,4) free] by auto
  have "fds w1 fd = Some p" using ap(3) by simp
  from sends_rest [OF ap(2,4) this] obtain w2 where wr: "write_to_client K fd w1 = Some (0, w2)" "inv False w2"
      "quiet fd w2" "dev w2 = D" "sent w2 = sent (world s) @ drop p (contents D)"
      "fds w2 = [fd \<mapsto> max p (length (contents D))]"
    using ap(3,5,6) by auto
  have "handle_packet K fd s = Some (True, s2\<lparr>world := w2\<rparr>)"
    using ap(1) rs(1,2) wr(1) by (simp add: handle_packet_locked [OF buf_inv_load [OF assms(2)]])
  with wr rs(3) show ?thesis by (intro exI [of _ "s2\<lparr>world := w2\<rparr>"]) (simp add: serving_def)
qed

text \<open>A seek command: not one after all, refused, or answered.\<close>

lemma seek_served:
  assumes "serving fd p s" and "buf_inv h0 s b" and "terminated s b" and "take (length SEEKTO) b = SEEKTO"
    and mem: "mem_ok K" "mem_plenty K h0 B"
  defines "args \<equiv> sscanf_d_d (takeWhile (\<lambda>x. x \<noteq> nul) (drop (length SEEKTO) b))"
  obtains (dropped) s' where "args = None" "handle_seek K fd s = Some (True, s')" "world s' = world s" "buf_inv h0 s' []"
    | (refused) x y s' q where "args = Some (x, y)"
      "s_seek S \<lparr>write_cmd = libc_int K x, write_cmd_offset = libc_int K y\<rparr> (dev (world s)) = None"
      "handle_seek K fd s = Some (False, s')" "serving fd q s'" "dev (world s') = dev (world s)"
      "sent (world s') = sent (world s)" "freeable h0 s'"
    | (answered) x y s' q where "args = Some (x, y)"
      "s_seek S \<lparr>write_cmd = libc_int K x, write_cmd_offset = libc_int K y\<rparr> (dev (world s)) = Some q"
      "handle_seek K fd s = Some (True, s')" "serving fd (max q (length (contents (dev (world s))))) s'"
      "dev (world s') = dev (world s)" "sent (world s') = sent (world s) @ drop q (contents (dev (world s)))"
      "buf_inv h0 s' []"
proof -
  have len: "length SEEKTO \<le> length b" using arg_cong [OF assms(4), of length] by simp
  have cs: "cstring (uheap s) (data_buffer s) (length SEEKTO) = Some (takeWhile (\<lambda>x. x \<noteq> nul) (drop (length SEEKTO) b))"
    using assms(2) by (intro cstring_terminated [OF assms(3) _ len]) (auto simp: buf_inv_def)
  from assms(1) have sv: "inv False (world s)" "quiet fd (world s)" "fds (world s) = [fd \<mapsto> p]"
    by (auto simp: serving_def)
  have free: "freeable h0 (s\<lparr>world := w\<rparr>)" for w using buf_inv_freeable [OF assms(2)] by simp
  note reset = reset_buffer_plenty [OF mem(2,1) free]
  show thesis
  proof (cases args)
    case None
    obtain s' where "reset_buffer K s = Some (True, s')" "world s' = world s" "buf_inv h0 s' []"
      using reset [of "world s"] by auto
    with None cs show thesis by (intro dropped [of s']) (auto simp: handle_seek_def args_def)
  next
    case (Some xy)
    obtain x y where xy: "xy = (x, y)" by (cases xy)
    let ?q = "\<lparr>write_cmd = libc_int K x, write_cmd_offset = libc_int K y\<rparr>"
    have "fds (world s) fd = Some p" using sv(3) by simp
    from ioctl_law [OF sv(1) this, of ?q] obtain r w1 q1 where
      io: "sys_ioctl K (world s) fd ?q = Some (r, w1)" "inv False w1" "fds w1 = [fd \<mapsto> q1]"
      using sv(3) by auto
    note w1 = ioctl_works [OF sv io(1)]
    show thesis
    proof (cases "s_seek S ?q (dev (world s))")
      case no: None
      with w1 have "handle_seek K fd s = Some (False, s\<lparr>world := w1\<rparr>)"
        using Some xy cs io(1) by (simp add: handle_seek_def args_def)
      then show thesis
        using Some xy no w1 io(2,3) free by (intro refused [of x y "s\<lparr>world := w1\<rparr>" q1]) (auto simp: serving_def)
    next
      case yes: (Some q)
      with w1 have q: "r = 0" "fds w1 = [fd \<mapsto> q]" by auto
      then have "fds w1 fd = Some q" by simp
      from sends_rest [OF io(2) _ this] w1 obtain w2 where wr: "write_to_client K fd w1 = Some (0, w2)" "inv False w2"
          "quiet fd w2" "dev w2 = dev (world s)" "sent w2 = sent (world s) @ drop q (contents (dev (world s)))"
          "fds w2 = [fd \<mapsto> max q (length (contents (dev (world s))))]"
        using q(2) by auto
      obtain s' where rs: "reset_buffer K (s\<lparr>world := w2\<rparr>) = Some (True, s')" "world s' = w2" "buf_inv h0 s' []"
        using reset [of w2] by auto
      have "handle_seek K fd s = Some (True, s')"
        using Some xy cs io(1) q(1) wr(1) rs(1) by (simp add: handle_seek_def args_def)
      then show thesis
        using Some xy yes wr rs by (intro answered [of x y q s']) (auto simp: serving_def)
    qed
  qed
qed

definition served where
  "served h0 fd s r out D \<longleftrightarrow> (\<exists>s' q. r = Some s' \<and> serving fd q s' \<and> freeable h0 s' \<and>
     dev (world s') = D \<and> sent (world s') = sent (world s) @ out)"

lemma served_step:
  "served h0 fd s1 r out D \<Longrightarrow> sent (world s1) = sent (world s) @ o1 \<Longrightarrow> served h0 fd s r (o1 @ out) D"
  by (auto simp: served_def)

lemma recv_loop_serves:
  assumes "serving fd p s" and "buf_inv h0 s d" and "\<forall>c \<in> set cs. 0 < length c \<and> length c < BUFFER_SIZE"
    and "2 * (length d + sum_list (map length cs)) \<le> B"
    and "session (libc_int K) S p (dev (world s)) d cs = Some (out, D)"
    and mem: "mem_ok K" "mem_plenty K h0 B"
  shows "served h0 fd s (recv_loop K fd cs s) out D"
  using assms(1-5)
proof (induction cs arbitrary: s d p out)
  case Nil
  then show ?case by (auto simp: served_def intro: buf_inv_freeable)
next
  case (Cons c cs)
  obtain s2 where s2: "buf_inv h0 s2 (d @ c)" "terminated s2 (d @ c)" "world s2 = world s"
      "recv_body K fd c s =
        (if take (length SEEKTO) (d @ c) = SEEKTO then handle_seek K fd s2
         else if newline \<in> set (d @ c) then handle_packet K fd s2 else Some (True, s2))"
    using chunk_collected [OF Cons.prems(2) _ _ mem, of c fd] Cons.prems(3,4) by auto
  have sv: "serving fd p s2" using Cons.prems(1) s2(3) by (simp add: serving_def)
  have IH: "served h0 fd t (recv_loop K fd cs t) out' D"
    if "serving fd p' t" "buf_inv h0 t d'" "length d' \<le> length (d @ c)"
      "session (libc_int K) S p' (dev (world t)) d' cs = Some (out', D)" for t p' d' out'
    using that Cons.prems(3,4) by (intro Cons.IH) auto
  show ?case
  proof (cases "take (length SEEKTO) (d @ c) = SEEKTO")
    case True
    from sv s2(1,2) True mem show ?thesis
    proof (cases rule: seek_served)
      case (dropped s')
      then have "served h0 fd s' (recv_loop K fd cs s') out D"
        using Cons.prems(5) True s2(3) sv by (intro IH [of p]) (auto simp: serving_def)
      with dropped(2,3) True s2(3,4) show ?thesis by (simp add: served_def)
    next
      case (refused x y s' q)
      then show ?thesis using Cons.prems(5) True s2(3,4) by (auto simp: served_def)
    next
      case (answered x y s' q)
      let ?C = "contents (dev (world s))"
      from Cons.prems(5) True answered(1,2) s2(3) obtain out' where out':
        "session (libc_int K) S (max q (length ?C)) (dev (world s)) [] cs = Some (out', D)" "out = drop q ?C @ out'"
        by (auto simp: Let_def split: Option.bind_splits)
      then have "served h0 fd s' (recv_loop K fd cs s') out' D"
        using answered s2(3) by (intro IH) auto
      with served_step [of h0 fd s' _ out' D s "drop q ?C"] answered(3,6) out'(2) True s2(3,4) show ?thesis by simp
    qed
  next
    case False
    show ?thesis
    proof (cases "newline \<in> set (d @ c)")
      case nl: False
      have "served h0 fd s2 (recv_loop K fd cs s2) out D"
        using Cons.prems(5) False nl s2(3) by (intro IH [OF sv s2(1)]) auto
      with False nl s2(3,4) show ?thesis by (simp add: served_def)
    next
      case nl: True
      let ?D = "put (d @ c) (dev (world s))"
      from Cons.prems(5) False nl obtain out' where fit: "fits (d @ c) (dev (world s2))" and out':
        "session (libc_int K) S (max p (length (contents ?D))) ?D [] cs = Some (out', D)" "out = drop p (contents ?D) @ out'"
        using s2(3) by (auto simp: Let_def split: if_splits Option.bind_splits)
      obtain s' where s': "handle_packet K fd s2 = Some (True, s')" "serving fd (max p (length (contents ?D))) s'"
          "dev (world s') = ?D" "sent (world s') = sent (world s) @ drop p (contents ?D)" "buf_inv h0 s' []"
        using packet_served [OF sv s2(1) fit mem] s2(3) by auto
      have "served h0 fd s' (recv_loop K fd cs s') out' D"
        using out'(1) s'(3) by (intro IH [OF s'(2,5)]) auto
      with served_step [of h0 fd s' _ out' D s "drop p (contents ?D)"] s'(1,4) out'(2) False nl s2(4) show ?thesis by simp
    qed
  qed
qed

text \<open>A whole connection is the session of its chunks.\<close>

lemma handle_connection_serves:
  assumes "inv False (world s)" and "ready (world s)" and "fds (world s) = Map.empty"
    and "\<forall>c \<in> set cs. 0 < length c \<and> length c < BUFFER_SIZE"
    and ses: "session (libc_int K) S 0 (dev (world s)) [] cs = Some (out, D)"
    and mem: "mem_ok K" "mem_plenty K (uheap s) (2 * sum_list (map length cs))"
  shows "\<exists>s'. handle_connection K cs s = Some s' \<and> ready (world s') \<and> dev (world s') = D \<and>
    sent (world s') = sent (world s) @ out"
proof -
  obtain p h where m: "malloc K (uheap s) (of_nat BUFFER_SIZE) = (p, h)" "p \<noteq> NULL"
    using mem(2) by (cases "malloc K (uheap s) (of_nat BUFFER_SIZE)") (auto simp: mem_plenty_def)
  let ?s1 = "s\<lparr>uheap := h, data_buffer := p, data_len := 0\<rparr>"
  have buf: "buf_inv (uheap s) ?s1 []"
    using fresh_buffer [OF mem_okD(1) [OF mem(1)] m, of s] by (simp add: buf_inv_def)
  obtain fd w1 where op: "sys_open_rdonly K (world s) = Some (fd, w1)" "inv False w1"
      "if fd < 0 then fds w1 = fds (world s)
       else fds (world s) fd = None \<and> fds w1 = (fds (world s))(fd \<mapsto> 0)"
    using open_rdonly_law [OF assms(1)] by blast
  have w1: "0 \<le> fd" "quiet fd w1" "dev w1 = dev (world s)" "sent w1 = sent (world s)"
    using start_works [OF assms(1-3) op(1)] by auto
  then have sv: "serving fd 0 (?s1\<lparr>world := w1\<rparr>)" using op(2,3) assms(3) by (simp add: serving_def)
  have "served (uheap s) fd (?s1\<lparr>world := w1\<rparr>) (recv_loop K fd cs (?s1\<lparr>world := w1\<rparr>)) out D"
    using recv_loop_serves [OF sv _ assms(4) _ _ mem] buf ses w1(3) by simp
  then obtain s2 q where lp: "recv_loop K fd cs (?s1\<lparr>world := w1\<rparr>) = Some s2" "serving fd q s2" "freeable (uheap s) s2"
      "dev (world s2) = D" "sent (world s2) = sent (world s) @ out"
    using w1(4) by (auto simp: served_def)
  then have s2: "inv False (world s2)" "quiet fd (world s2)" "fds (world s2) fd = Some q" by (auto simp: serving_def)
  obtain w3 where cl: "sys_close K (world s2) fd = Some w3" using close_law [OF s2(1,3)] by blast
  note fin = finish_works [OF s2 cl]
  have "handle_connection K cs s = Some (conn_close (s2\<lparr>world := w3, uheap := uheap s\<rparr>))"
    using m op(1) w1(1) lp(1,3) cl by (simp add: handle_connection_def freeable_def)
  with fin lp(4,5) show ?thesis by (simp add: conn_close_def)
qed

end

end
