(* ===== verification/Service_Theorems.thy ===== *)
theory Service_Theorems
  imports Handler_Service Handler_Theorems File_Theorems
begin

text \<open>
  Whole connections end to end, in both builds: the laws of \<open>reliable_host\<close> for a plain file and for
  the driver, and what a client is served.
\<close>

section \<open>A plain file\<close>

text \<open>
  Nobody else uses the file, a thread with at most one descriptor gets another, and the calls
  transfer all they are given.
\<close>

definition file_works :: "fworld \<Rightarrow> bool" where
  "file_works w \<longleftrightarrow> fquiet w \<and> (\<forall>n. (\<forall>F fd. dom F \<subseteq> {fd} \<longrightarrow> fh_fd (fhosts w n) F \<noteq> None) \<and>
     (\<forall>k. fh_write (fhosts w n) k = Some k) \<and> (\<forall>bs. fh_send (fhosts w n) bs = int (length bs)))"

definition file_fits :: "byte list \<Rightarrow> byte list \<Rightarrow> bool" where
  "file_fits bs D \<longleftrightarrow> bs \<noteq> [] \<and> length D + length bs \<le> FILE_MAX"

text \<open>A file grows at its end and refuses every seek.\<close>

definition file_storage :: "byte list storage" where
  "file_storage = \<lparr>s_put = (\<lambda>bs D. D @ bs), s_fits = file_fits, s_contents = (\<lambda>c. c), s_seek = (\<lambda>q D. None)\<rparr>"

lemma file_storage_sel [simp]:
  "s_put file_storage bs D = D @ bs" "s_fits file_storage = file_fits" "s_contents file_storage D = D"
  "s_seek file_storage q D = None"
  by (simp_all add: file_storage_def)

lemma file_works_same:
  "fhosts w' = fhosts w \<Longrightarrow> fevents w' = fevents w \<Longrightarrow> file_works w' = file_works w"
  by (simp add: file_works_def fquiet_def)

lemma file_works_mutex [simp]: "file_works (w\<lparr>file_mutex := b\<rparr>) = file_works w"
  by (rule file_works_same) simp_all

lemma file_worksD:
  assumes "file_works w"
  shows "fquiet w" "dom F \<subseteq> {fd} \<Longrightarrow> \<exists>y. fh_fd (fhosts w n) F = Some y" "fh_write (fhosts w n) k = Some k"
    "fh_send (fhosts w n) bs = int (length bs)"
  using assms unfolding file_works_def by blast+

lemma file_call_hosts:
  "file_open H a w = Some (fd, w') \<Longrightarrow> fhosts w' = fhosts w \<and> fevents w' = fevents w \<and> (data_file w \<noteq> None \<longrightarrow> data_file w' \<noteq> None)"
  "file_read H w fd' n = Some (res, w') \<Longrightarrow> fhosts w' = fhosts w \<and> fevents w' = fevents w \<and> (data_file w \<noteq> None \<longrightarrow> data_file w' \<noteq> None)"
  "file_write H w fd' bs = Some (r, w') \<Longrightarrow> fhosts w' = fhosts w \<and> fevents w' = fevents w \<and> (data_file w \<noteq> None \<longrightarrow> data_file w' \<noteq> None)"
  "file_close w fd' = Some w' \<Longrightarrow> fhosts w' = fhosts w \<and> fevents w' = fevents w \<and> (data_file w \<noteq> None \<longrightarrow> data_file w' \<noteq> None)"
  "file_send H w bs = Some (r, w') \<Longrightarrow> fhosts w' = fhosts w \<and> fevents w' = fevents w \<and> (data_file w \<noteq> None \<longrightarrow> data_file w' \<noteq> None)"
  "file_ioctl w fd' q = Some (r, w') \<Longrightarrow> fhosts w' = fhosts w \<and> fevents w' = fevents w \<and> (data_file w \<noteq> None \<longrightarrow> data_file w' \<noteq> None)"
  by (auto simp: file_open_def file_read_def file_write_eq file_close_def file_send_def file_ioctl_def Let_def
      split: if_splits option.splits Option.bind_splits)

lemma ofiles_dom: "dom (ffds w) \<subseteq> {fd} \<Longrightarrow> dom (ofiles w) \<subseteq> {nat fd}"
proof
  fix n
  assume "dom (ffds w) \<subseteq> {fd}" and "n \<in> dom (ofiles w)"
  moreover from this(2) have "int n \<in> dom (ffds w)" by (auto simp: ffds_def)
  ultimately show "n \<in> {nat fd}" by auto
qed

lemma file_works_open:
  assumes "file_works w" and "dom (ffds w) \<subseteq> {fd'}" and "data_file w \<noteq> None \<or> app"
    and "interleave (\<lambda>H. file_open H app) w = Some (fd, w')"
  shows "0 \<le> fd \<and> ofiles w' (nat fd) = Some \<lparr>opos = 0, oappend = app\<rparr> \<and> file_contents w' = file_contents w \<and>
    foutgoing w' = foutgoing w \<and> fhosts w' = fhosts w \<and> fevents w' = fevents w"
proof -
  obtain n where n: "fh_fd (fhosts w (ftime w)) (ofiles w) = Some n"
    using file_worksD(2) [OF assms(1) ofiles_dom [OF assms(2)]] by blast
  have "file_open (fhosts w (ftime w)) app (w\<lparr>ftime := Suc (ftime w)\<rparr>) = Some (fd, w')"
    using assms(4) by (simp add: interleave_quiet [OF file_worksD(1) [OF assms(1)]])
  with n assms(3) show ?thesis by (auto simp: file_open_def)
qed

lemma file_works_write:
  assumes "file_works w" and "0 \<le> fd" and "ofiles w (nat fd) = Some f" and "oappend f"
    and "file_fits bs (file_contents w)" and "interleave (\<lambda>H w. file_write H w fd bs) w = Some (r, w')"
  shows "r \<noteq> -1 \<and> file_contents w' = file_contents w @ bs"
proof -
  have fit: "length (file_contents w) < FILE_MAX" "min (length bs) (FILE_MAX - length (file_contents w)) = length bs"
    using assms(5) by (cases bs; auto simp: file_fits_def)+
  have "file_write (fhosts w (ftime w)) (w\<lparr>ftime := Suc (ftime w)\<rparr>) fd bs = Some (r, w')"
    using assms(6) by (simp add: interleave_quiet [OF file_worksD(1) [OF assms(1)]])
  with fit assms(2-4) file_worksD(3) [OF assms(1)] show ?thesis
    by (auto simp: file_write_eq Let_def)
qed

text \<open>The file is there; it stays there.\<close>

definition file_ready :: "fworld \<Rightarrow> bool" where
  "file_ready w \<longleftrightarrow> file_works w \<and> data_file w \<noteq> None"

lemma file_readyD:
  assumes "file_ready w"
  shows "file_works w" "fquiet w" "data_file w \<noteq> None"
  using assms file_worksD(1) by (auto simp: file_ready_def)

lemma file_ready_calls:
  assumes "file_ready w"
  shows "interleave (\<lambda>H. file_open H a) w = Some (fd, w') \<Longrightarrow> file_ready w'"
    "interleave (\<lambda>H w. file_read H w fd' n) w = Some (res, w') \<Longrightarrow> file_ready w'"
    "interleave (\<lambda>H w. file_write H w fd' bs) w = Some (r, w') \<Longrightarrow> file_ready w'"
    "interleave (\<lambda>H w. file_close w fd') w = Some w' \<Longrightarrow> file_ready w'"
    "interleave (\<lambda>H w. file_send H w bs) w = Some (r, w') \<Longrightarrow> file_ready w'"
    "interleave (\<lambda>H w. file_ioctl w fd' q) w = Some (r, w') \<Longrightarrow> file_ready w'"
  unfolding interleave_quiet [OF file_readyD(2) [OF assms]]
  by (drule file_call_hosts, use assms in \<open>simp add: file_ready_def file_works_same [of w' w]\<close>)+

interpretation fw: reliable_host "file_hapi M R I" finv ffds FILE_MAX "\<lambda>bs. True" file_contents file_storage
  file_stored foutgoing "\<lambda>rd w. file_ready w \<and> freadable rd w" file_ready
  for M R I
proof (unfold_locales, goal_cases)
  case (1 b w rd p fd w')
  then show ?case
    using filed.quiet_open [of b w rd p M R I fd w'] by (auto dest: file_readyD(2) file_ready_calls(1))
next
  case (2 b w fd p n res w')
  then show ?case
    using filed.quiet_read [of b w fd p n M R I res w'] by (auto dest: file_readyD(2) file_ready_calls(2))
next
  case (3 b w rd fd p bs r w')
  then show ?case
    using filed.quiet_write [of b w rd fd p M R I bs r w'] by (auto dest: file_readyD(2) file_ready_calls(3))
next
  case (4 b w rd fd p w')
  then show ?case
    using filed.quiet_close [of b w rd fd p M R I w'] by (auto dest: file_readyD(2) file_ready_calls(4))
next
  case (5 b w rd bs r w')
  then show ?case
    using filed.quiet_send [of b w rd M R I bs r w'] by (auto dest: file_readyD(2) file_ready_calls(5))
next
  case (8 w fd w')
  then show ?case
    using file_works_open [of w 0 False fd w'] file_readyD [OF 8(2)] file_ready_calls(1) [OF 8(2)]
    by (auto simp: freadable_def)
next
  case (9 b w rd p fd w')
  then show ?case using file_works_open [of w rd True fd w'] by (auto dest: file_readyD)
next
  case (10 b w rd p bs fd w1 r w2)
  have op: "interleave (\<lambda>H. file_open H True) w = Some (fd, w1)" using 10(5) by simp
  have w: "file_works w" "file_ready w" "dom (ffds w) \<subseteq> {rd}" using 10(2,3) by (auto dest: file_readyD)
  note o1 = file_works_open [OF w(1,3) _ op]
  have "file_works w1" using file_ready_calls(1) [OF w(2) op] by (rule file_readyD)
  from file_works_write [OF this, of fd "\<lparr>opos = 0, oappend = True\<rparr>" bs r w2] o1 10(4,6) show ?case by simp
next
  case (11 b w rd bs r w')
  then show ?case
    by (auto simp: interleave_quiet file_send_def Let_def file_worksD dest!: file_readyD(1))
next
  case (12 w fd p q r w')
  then have "file_ioctl (w\<lparr>ftime := Suc (ftime w)\<rparr>) fd q = Some (r, w')"
    by (simp add: interleave_quiet file_readyD(2))
  then have "w' = w\<lparr>ftime := Suc (ftime w)\<rparr>" "r = -1" by (simp_all add: file_ioctl_def)
  with 12 show ?case by (simp add: file_ready_def file_works_same [of "w\<lparr>ftime := _\<rparr>" w] freadable_def)
next
  case (13 b w fd p w')
  then have "file_ready w'" by (auto dest: file_ready_calls(4))
  with 13 show ?case
    by (auto simp: interleave_quiet file_readyD(2) file_close_def split: Option.bind_splits if_splits)
qed (auto simp: lock_file_mutex_def unlock_file_mutex_def freadable_def file_ready_def split: if_splits)

lemma file_fits_all:
  assumes "\<forall>x \<in> set xs. x \<noteq> []" and "length D + length (concat xs) \<le> FILE_MAX"
  shows "all_fit file_storage D xs"
  using assms by (induction xs arbitrary: D) (auto simp: file_fits_def)

lemma fold_file_put: "fold (s_put file_storage) xs D = D @ concat xs"
  by (induction xs arbitrary: D) auto

lemma file_session:
  assumes "plain [] cs" and "length D + length (concat cs) \<le> FILE_MAX"
  shows "session I file_storage 0 D [] cs =
    Some (if packets [] cs = [] then [] else D @ concat (packets [] cs), D @ concat (packets [] cs))"
proof -
  obtain rest where "concat cs = concat (packets [] cs) @ rest" using packets_concat [of "[]" cs] by auto
  then have "length (concat (packets [] cs)) \<le> length (concat cs)" by simp
  then have "all_fit file_storage D (packets [] cs)"
    using assms(2) by (intro file_fits_all) (auto dest: packets_newline)
  from session_plain [OF assms(1) this, of I 0] replies_append [of "\<lambda>xs D. True" file_storage "packets [] cs" D 0]
  show ?thesis by (simp add: fold_file_put)
qed

text \<open>
  A whole connection in the build without the device, while nothing fails and nobody else uses
  the file.  The client's bytes, in whatever chunks they arrive, are cut into packets that end at a
  chunk with a newline; all packets are appended to the file in order, and if there was one, the
  client is sent, over the whole connection, exactly the final contents of the file, each byte once.
\<close>

theorem file_connection_served:
  assumes "finv False (world s)" and "file_works (world s)" and "data_file (world s) = Some D"
    and "ffds (world s) = Map.empty" and "\<forall>c \<in> set cs. 0 < length c \<and> length c < BUFFER_SIZE" and "plain [] cs"
    and "length D + length (concat cs) \<le> FILE_MAX"
    and "mem_ok (file_hapi M R I)" and "mem_plenty (file_hapi M R I) (uheap s) (2 * length (concat cs))"
  shows "\<exists>s'. handle_connection (file_hapi M R I) cs s = Some s' \<and>
    file_contents (world s') = D @ concat (packets [] cs) \<and>
    foutgoing (world s') = foutgoing (world s) @ (if packets [] cs = [] then [] else file_contents (world s')) \<and>
    (\<exists>rest. concat cs = concat (packets [] cs) @ rest \<and> newline \<notin> set rest)"
proof -
  obtain rest where rest: "concat cs = concat (packets [] cs) @ rest" "newline \<notin> set rest"
    using packets_concat [of "[]" cs] by auto
  note ses = file_session [OF assms(6,7), of I]
  have "\<exists>s'. handle_connection (file_hapi M R I) cs s = Some s' \<and> file_ready (world s') \<and>
      file_contents (world s') = D @ concat (packets [] cs) \<and>
      foutgoing (world s') = foutgoing (world s) @ (if packets [] cs = [] then [] else D @ concat (packets [] cs))"
    using assms ses by (intro fw.handle_connection_serves) (auto simp: length_concat file_ready_def)
  then show ?thesis using rest by auto
qed

lemma sample_find:
  assumes "card (dom F) < n" and "finite (dom F)"
  shows "\<exists>y \<ge> a. find (\<lambda>x. F x = None) [a..<a + n] = Some y"
proof (cases "find (\<lambda>x. F x = None) [a..<a + n]")
  case None
  then have "{a..<a + n} \<subseteq> dom F" by (auto simp: find_None_iff)
  from card_mono [OF assms(2) this] assms(1) show ?thesis by simp
next
  case (Some y)
  then have "y \<in> set [a..<a + n]" by (metis find_Some_iff nth_mem)
  with Some show ?thesis by simp
qed

lemma sample_plenty:
  assumes "malloc K = sample_malloc" and "realloc K = sample_realloc" and "B \<le> 65536"
  shows "mem_plenty K Map.empty B"
proof -
  have "\<not> 65536 < n" if "unat n \<le> B" for n :: size_t using that assms(3) by (simp add: word_less_nat_alt)
  then show ?thesis
    using assms sample_find [of "Map.empty :: heap" 8 1]
    by (auto simp: mem_plenty_def sample_malloc_def sample_realloc_def)
qed

text \<open>Two packets in four chunks, and the beginning of a third.\<close>

definition sample_chunks :: "byte list list" where
  "sample_chunks = [''c'', ''d'' @ [newline], ''efg'' @ [newline], ''h'']"

lemma sample_chunks_ok:
  "\<forall>c \<in> set sample_chunks. 0 < length c \<and> length c < BUFFER_SIZE" "plain [] sample_chunks"
  "packets [] sample_chunks = [''cd'' @ [newline], ''efg'' @ [newline]]" "length (concat sample_chunks) = 8"
  by (simp add: sample_chunks_def, code_simp, code_simp, code_simp)

abbreviation sample_quiet :: fworld where
  "sample_quiet \<equiv> sample_fworld (Some (''ab'' @ [newline])) (\<lambda>n. [])"

lemma sample_quiet_works:
  "finv False sample_quiet" "file_works sample_quiet" "data_file sample_quiet = Some (''ab'' @ [newline])"
  "ffds sample_quiet = Map.empty" "foutgoing sample_quiet = []"
proof -
  have fd: "\<exists>y. fh_fd sample_fhost F = Some y" if "dom F \<subseteq> {fd}" for F fd
    using sample_find [of F 6 3] card_mono [OF _ that] finite_subset [OF that]
    by (auto simp: sample_fhost_def simp del: upt_rec_numeral)
  show "finv False sample_quiet" "file_works sample_quiet" "data_file sample_quiet = Some (''ab'' @ [newline])"
    "ffds sample_quiet = Map.empty" "foutgoing sample_quiet = []"
    using fd sample_fworld_inv [of "\<lambda>n. []" "Some (''ab'' @ [newline])"]
    by (auto simp: file_works_def fquiet_def sample_fworld_def ffds_def FILE_MAX_def sample_fhost_def)
qed

theorem file_connection_served_witness:
  "\<exists>s'. handle_connection sample_file_hapi sample_chunks (sample_fconn sample_quiet) = Some s' \<and>
     file_contents (world s') = ''ab'' @ [newline] @ ''cd'' @ [newline] @ ''efg'' @ [newline] \<and>
     foutgoing (world s') = file_contents (world s')"
proof -
  have mem: "mem_plenty sample_file_hapi Map.empty (2 * length (concat sample_chunks))"
    by (rule sample_plenty) (simp_all add: sample_chunks_ok)
  from file_connection_served [of "sample_fconn sample_quiet" "''ab'' @ [newline]" sample_chunks, OF _ _ _ _ sample_chunks_ok(1,2) _
      sample_file_mem_ok] sample_quiet_works mem
  show ?thesis by (auto simp: sample_fconn_def sample_chunks_ok FILE_MAX_def)
qed

section \<open>The driver\<close>

text \<open>
  Nobody else uses the driver, at most \<open>N\<close> files are open while the handler has two, and calls are not
  interrupted, find memory for up to \<open>B\<close> bytes and transfer all they are given.
\<close>

definition kernel_works :: "nat \<Rightarrow> kapi \<Rightarrow> bool" where
  "kernel_works B K \<longleftrightarrow> \<not> lock_interrupted K \<and>
     (\<forall>h n. finite (dom h) \<longrightarrow> card (dom h) \<le> 10 \<longrightarrow> unat n \<le> B \<longrightarrow> fst (kzalloc K h n) \<noteq> NULL) \<and>
     (\<forall>h p n. p \<noteq> NULL \<longrightarrow> h p \<noteq> None \<longrightarrow> unat n \<le> B \<longrightarrow> fst (krealloc K h p n) \<noteq> NULL)"

definition host_works :: "nat \<Rightarrow> nat \<Rightarrow> host \<Rightarrow> bool" where
  "host_works B N H \<longleftrightarrow> (\<forall>u. kernel_works B (h_user H u)) \<and>
     (\<forall>s. finite (dom (files s)) \<longrightarrow> card (dom (files s)) < N \<longrightarrow> h_fd H s \<noteq> None) \<and>
     (\<forall>bs. h_send H bs = int (length bs))"

definition device_works :: "nat \<Rightarrow> nat \<Rightarrow> vfs \<Rightarrow> bool" where
  "device_works B N w \<longleftrightarrow> vfs_reliable w \<and> vfs_seek_ok w \<and> (\<forall>n. host_works B N (hosts w n)) \<and>
     finite (dom (files (vsys w))) \<and> card (dom (files (vsys w)) - mine w) + 2 \<le> N"

text \<open>
  The driver's data for a client: the log, and the slot of the array where the ring starts, which is
  what seek requests depend on.
\<close>

definition ring_dev :: "vfs \<Rightarrow> log_dev \<times> nat" where
  "ring_dev w = (vfs_dev w, unat (out_offs (buffer (aesd_device (kern (vsys w))))))"

fun ring_put :: "byte list \<Rightarrow> log_dev \<times> nat \<Rightarrow> log_dev \<times> nat" where
  "ring_put bs (D, start) =
     (log_write bs D, if newline \<in> set bs \<and> length (cmds D) = 10 then (start + 1) mod 10 else start)"

fun ring_seek :: "aesd_seekto \<Rightarrow> log_dev \<times> nat \<Rightarrow> nat option" where
  "ring_seek q (D, start) = log_seek (unat (write_cmd q)) (unat (write_cmd_offset q))
     (D\<lparr>cmds := rotate ((10 - start) mod 10) (cmds D)\<rparr>)"

definition device_fits :: "nat \<Rightarrow> byte list \<Rightarrow> log_dev \<Rightarrow> bool" where
  "device_fits B bs D \<longleftrightarrow> pending D = [] \<and> length bs \<le> B \<and> length bs \<le> MAX_RW_COUNT"

definition device_storage :: "nat \<Rightarrow> (log_dev \<times> nat) storage" where
  "device_storage B = \<lparr>s_put = ring_put, s_fits = (\<lambda>bs R. device_fits B bs (fst R)),
     s_contents = (\<lambda>R. log_contents (fst R)), s_seek = ring_seek\<rparr>"

lemma device_storage_sel [simp]:
  "s_put (device_storage B) = ring_put" "s_fits (device_storage B) bs R = device_fits B bs (fst R)"
  "s_contents (device_storage B) R = log_contents (fst R)" "s_seek (device_storage B) = ring_seek"
  by (simp_all add: device_storage_def)

lemma ring_dev_kern: "kern (vsys w') = kern (vsys w) \<Longrightarrow> ring_dev w' = ring_dev w"
  by (simp add: ring_dev_def vfs_dev_def)

lemma ring_dev_fst: "fst (ring_dev w) = vfs_dev w"
  by (simp add: ring_dev_def)

lemma device_works_set_file:
  assumes "device_works B N w"
  shows "device_works B N (set_file w k fd f)"
proof -
  let ?F = "(files (vsys w))(fd := f)" and ?m = "if f = None then mine w - {fd} else insert fd (mine w)"
  have fin: "finite (dom (files (vsys w)))" and le: "card (dom (files (vsys w)) - mine w) + 2 \<le> N"
    using assms by (auto simp: device_works_def)
  have "dom ?F \<subseteq> insert fd (dom (files (vsys w)))" by auto
  then have "finite (dom ?F)" using fin by (meson finite_insert finite_subset)
  moreover have "dom ?F - ?m \<subseteq> dom (files (vsys w)) - mine w" by (auto split: if_splits)
  then have "card (dom ?F - ?m) \<le> card (dom (files (vsys w)) - mine w)" using fin by (intro card_mono) auto
  ultimately show ?thesis using assms le
    by (simp add: device_works_def vfs_reliable_def vfs_seek_ok_def set_file_def del: dom_fun_upd)
qed

lemma device_works_tick [simp]:
  "device_works B N (w\<lparr>clock := n\<rparr>) = device_works B N w"
  "device_works B N (w\<lparr>clock := n, outgoing := out\<rparr>) = device_works B N w"
  by (simp_all add: device_works_def vfs_reliable_def vfs_seek_ok_def)

lemma device_worksD:
  assumes "device_works B N w"
  shows "vfs_reliable w" "disturb w = w" "host_works B N (hosts w n)" "vfs_seek_ok w"
  using assms by (auto simp: device_works_def disturb_quiet)

lemma device_works_calls:
  assumes "device_works B N w"
  shows "vfs_open w = Some (fd, w') \<Longrightarrow> device_works B N w'"
    "vfs_read w fd' n = Some (res, w') \<Longrightarrow> device_works B N w'"
    "vfs_write w fd' bs = Some (r, w') \<Longrightarrow> device_works B N w'"
    "vfs_close w fd' = Some w' \<Longrightarrow> device_works B N w'"
    "vfs_send w bs = Some (r, w') \<Longrightarrow> device_works B N w'"
    "vfs_ioctl w fd' q = Some (r, w') \<Longrightarrow> device_works B N w'"
  using device_works_set_file [OF assms] assms
  by (auto simp: vfs_open_def vfs_read_def vfs_write_def vfs_close_def vfs_send_def vfs_ioctl_def Let_def
      split: option.splits prod.splits if_splits Option.bind_splits)

lemma device_works_open:
  assumes "device_works B N w" and "vfs_inv w" and "vfs_fds w = Map.empty \<or> vfs_fds w = [rd \<mapsto> p]"
    and "vfs_open w = Some (fd, w')"
  shows "0 \<le> fd"
proof -
  have "int n = rd" if "n \<in> mine w" for n
  proof -
    have "vfs_fds w (int n) \<noteq> None" using that assms(2) by (auto simp: vfs_inv_def vfs_fds_def)
    with assms(3) show ?thesis by (auto split: if_splits)
  qed
  then have "mine w \<subseteq> {nat rd}" by (metis nat_int singleton_iff subsetI)
  then have "card (dom (files (vsys w))) \<le> card (insert (nat rd) (dom (files (vsys w)) - mine w))"
    using assms(1) by (intro card_mono) (auto simp: device_works_def)
  also have "\<dots> \<le> Suc (card (dom (files (vsys w)) - mine w))" by (simp add: card_insert_le_m1)
  finally have "card (dom (files (vsys w))) < N" using assms(1) by (simp add: device_works_def)
  then obtain n where "h_fd (now w) (vsys w) = Some n"
    using assms(1) unfolding device_works_def host_works_def by blast
  with assms(4) show ?thesis by (auto simp: vfs_open_def aesd_fops_def aesd_open_def)
qed

lemma owned_card:
  assumes "dev_inv k" and "buffptr (current_write_entry (aesd_device k)) = NULL"
  shows "finite (dom (kheap k)) \<and> card (dom (kheap k)) \<le> 10"
proof -
  have dom: "dom (kheap k) = buffptr ` set (cbuf_entries (buffer (aesd_device k)))"
    using dev_invD(3) [OF assms(1)] assms(2) by (simp add: heap_owns_def owned_def)
  have "card (set (cbuf_entries (buffer (aesd_device k)))) \<le> 10"
    using length_cbuf_entries_le [OF dev_invD(1) [OF assms(1)]] card_length le_trans by blast
  then show ?thesis unfolding dom using card_image_le [OF finite_set] le_trans by blast
qed

lemma write_alloc_works:
  assumes "kernel_works B K" and "dev_inv k" and "pending (abs_dev k) = []" and "unat n \<le> B"
  shows "write_alloc K n (current_write_entry (aesd_device k)) (kheap k) \<noteq> NULL"
proof (cases "buffptr (current_write_entry (aesd_device k)) = NULL")
  case True
  with owned_card [OF assms(2) True] assms(1,4) show ?thesis by (simp add: write_alloc_def kernel_works_def)
next
  case False
  let ?e = "current_write_entry (aesd_device k)"
  have live: "live_entry (kheap k) ?e"
    using dev_invD(3) [OF assms(2)] False by (simp add: heap_owns_def owned_def)
  from live_entry_block [OF live] assms(3) have "esize ?e = 0" by (simp add: abs_dev_def unat_eq_zero)
  moreover have "kheap k (buffptr ?e) \<noteq> None" using live by (auto simp: live_entry_def)
  ultimately show ?thesis using False assms(1,4) by (simp add: write_alloc_def kernel_works_def)
qed

lemma next_start_unat:
  assumes "cbuf_inv b"
  shows "unat (next_start b) = (if length (cbuf_entries b) = 10 then (unat (out_offs b) + 1) mod 10 else unat (out_offs b))"
proof -
  have "unat (next_offs (out_offs b)) = (unat (out_offs b) + 1) mod 10"
    unfolding next_offs_def by (subst unat_of_nat8) simp_all
  moreover have "length (cbuf_entries b) = 10 \<longleftrightarrow> full b"
    using assms by (auto simp: cbuf_inv_def cbuf_entries_def)
  ultimately show ?thesis by (simp add: next_start_def)
qed

lemma length_concat_rotate: "length (concat (rotate n xs)) = length (concat xs)"
proof -
  let ?m = "n mod length xs"
  have "length (concat (rotate n xs)) = length (concat (take ?m xs @ drop ?m xs))"
    unfolding rotate_drop_take by (simp only: concat_append length_append add.commute)
  then show ?thesis by (simp only: append_take_drop_id)
qed

lemma device_works_write:
  assumes "device_works B N w" and "vfs_inv w" and "vfs_fds w fd = Some p" and "device_fits B bs (vfs_dev w)"
    and "vfs_write w fd bs = Some (r, w')"
  shows "r \<noteq> -1 \<and> ring_dev w' = ring_put bs (ring_dev w)"
proof -
  obtain f where f: "files (vsys w) (nat fd) = Some f" "private_data f = Some Aesd_device" "dev_inv (kern (vsys w))"
    by (rule vfs_fds_Some [OF assms(2,3)])
  let ?K = "h_user (now w) bs" and ?n = "word_of_nat (length bs) :: size_t" and ?k = "kern (vsys w)"
  let ?b = "buffer (aesd_device ?k)"
  have fit: "pending (abs_dev ?k) = []" "length bs \<le> B" "length bs \<le> MAX_RW_COUNT"
    using assms(4) by (auto simp: device_fits_def vfs_dev_def)
  have n: "unat ?n = length bs" using fit(3) by (intro unat_of_nat64) (simp add: MAX_RW_COUNT_def)
  have K: "kapi_ok ?K" "copy_from_user ?K 0 ?n = Some bs" "kernel_works B ?K"
    using assms(1,2) fit(3) by (auto simp: vfs_inv_def host_ok_def device_works_def host_works_def)
  obtain r' pos k where wr: "aesd_write ?K f 0 ?n (f_pos f) ?k = Some (r', pos, k)"
      "written ?K 0 ?n (f_pos f) ?k (r', pos, k)"
    using aesd_write_written [OF f(3) K(1) _ f(2), of ?n 0 "f_pos f"] n fit(3) by (metis prod_cases3)
  have "write_alloc ?K ?n (current_write_entry (aesd_device ?k)) (kheap ?k) \<noteq> NULL"
    using fit(2) n by (intro write_alloc_works [OF K(3) f(3) fit(1)]) simp
  with wr(2) K(2,3) obtain m where m: "r' = Inr m" and out: "abs_dev k = log_write bs (abs_dev ?k)"
      "out_offs (buffer (aesd_device k)) = (if newline \<in> set bs then next_start ?b else out_offs ?b)"
    by cases (auto simp: kernel_works_def)
  then have w': "r = int (unat m)" "kern (vsys w') = k"
    using assms(5) f(1) wr(1) fit(3) by (auto simp: vfs_write_def aesd_fops_def simp del: of_nat_unat)
  have "unat (next_start ?b) = (if length (cmds (abs_dev ?k)) = 10 then (unat (out_offs ?b) + 1) mod 10 else unat (out_offs ?b))"
    using next_start_unat [OF dev_invD(1) [OF f(3)]] by (simp add: abs_dev_def)
  then have "ring_dev w' = ring_put bs (ring_dev w)" using w'(2) out by (simp add: ring_dev_def vfs_dev_def)
  moreover have "r \<noteq> -1" using w'(1) of_nat_0_le_iff [of "unat m"] by linarith
  ultimately show ?thesis by simp
qed

text \<open>A seek request gets the slot it names, whether or not the ring has wrapped.\<close>

lemma device_works_ioctl:
  assumes "device_works B N w" and "vfs_inv w" and "vfs_fds w fd = Some p" and "vfs_ioctl w fd q = Some (r, w')"
  shows "kern (vsys w') = kern (vsys w) \<and> outgoing w' = outgoing w \<and>
    (case ring_seek q (ring_dev w) of None \<Rightarrow> r \<noteq> 0 | Some p' \<Rightarrow> r = 0 \<and> vfs_fds w' = (vfs_fds w)(fd \<mapsto> p'))"
proof -
  obtain f where f: "0 \<le> fd" "files (vsys w) (nat fd) = Some f" "private_data f = Some Aesd_device" "dev_inv (kern (vsys w))"
    by (rule vfs_fds_Some [OF assms(2,3)])
  let ?K = "h_seek (now w) q" and ?k = "kern (vsys w)"
  have K: "ioc_ok ?K" "copy_seekto_from_user ?K 0 = Some q" "\<not> lock_interrupted ?K"
    using device_worksD(4) [OF assms(1)] by (auto simp: vfs_seek_ok_def)
  have seek: "ring_seek q (ring_dev w) = log_seek (unat (write_cmd q)) (unat (write_cmd_offset q)) (slot_order ?k)"
    by (simp add: ring_dev_def vfs_dev_def slot_order_def)
  note io = aesd_ioctl_seekto_slot [OF f(4,3) K(1) K(2,3)]
  show ?thesis
  proof (cases "ring_seek q (ring_dev w)")
    case None
    with seek io assms(4) f(2) show ?thesis by (auto simp: vfs_ioctl_def aesd_fops_def)
  next
    case (Some p')
    have "length (log_contents (slot_order ?k)) < 2 ^ 64"
      using contents_bound [OF f(4)] by (simp add: log_contents_def slot_order_def length_concat_rotate)
    then have "unat (word_of_nat p' :: loff_t) = p'"
      using Some seek log_seek_bound by (intro unat_of_nat64) fastforce
    with Some seek io assms(4) f(1,2) show ?thesis
      using vfs_fds_set_file [OF f(1), of w ?k "Some (f\<lparr>f_pos := word_of_nat p'\<rparr>)"]
      by (auto simp: vfs_ioctl_def aesd_fops_def)
  qed
qed

lemma device_works_kern:
  assumes "vfs_inv w"
  shows "vfs_open w = Some (fd, w') \<Longrightarrow> kern (vsys w') = kern (vsys w)"
    "vfs_fds w fd' = Some p \<Longrightarrow> vfs_read w fd' n = Some (res, w') \<Longrightarrow> kern (vsys w') = kern (vsys w)"
    "vfs_close w fd' = Some w' \<Longrightarrow> kern (vsys w') = kern (vsys w)"
    "vfs_send w bs = Some (r, w') \<Longrightarrow> kern (vsys w') = kern (vsys w)"
proof -
  show "vfs_fds w fd' = Some p \<Longrightarrow> vfs_read w fd' n = Some (res, w') \<Longrightarrow> kern (vsys w') = kern (vsys w)"
  proof (elim vfs_fds_Some [OF assms])
    fix f
    assume "vfs_read w fd' n = Some (res, w')" and "files (vsys w) (nat fd') = Some f"
      and "private_data f = Some Aesd_device" and "dev_inv (kern (vsys w))"
    then show ?thesis
      using read_total [of "kern (vsys w)" f Aesd_device "h_user (now w) []" 0 "word_of_nat (min n MAX_RW_COUNT)" "f_pos f"]
      by (auto simp: vfs_read_def aesd_fops_def)
  qed
qed (auto simp: vfs_open_def vfs_close_def vfs_send_def Let_def split: option.splits prod.splits if_splits Option.bind_splits)

interpretation dw: reliable_host "aesd_hapi M R I" "\<lambda>b w. \<not> b \<and> vfs_inv w" vfs_fds "2 ^ 63" "\<lambda>bs. True"
  ring_dev "device_storage B" "\<lambda>r bs d d'. dev_stored r bs (fst d) (fst d')" outgoing
  "\<lambda>rd w. device_works B N w" "device_works B N" for M R I B N
proof (unfold_locales, goal_cases)
  case (1 b w rd p fd w')
  then show ?case
    using aesd.quiet_open [of b w rd p M R I fd w'] device_works_kern(1) [of w fd w']
    by (auto simp: device_worksD(1,2) ring_dev_kern [of w' w] dest: device_works_calls(1))
next
  case (2 b w fd p n res w')
  then show ?case
    using aesd.quiet_read [of b w fd p n M R I res w'] device_works_kern(2) [of w fd p n res w']
    by (auto simp: device_worksD(1,2) ring_dev_kern [of w' w] ring_dev_fst dest: device_works_calls(2))
next
  case (3 b w rd fd p bs r w')
  then show ?case
    using aesd.quiet_write [of b w fd p M R I bs r w']
    by (auto simp: device_worksD(1,2) ring_dev_fst dest: device_works_calls(3))
next
  case (4 b w rd fd p w')
  then show ?case
    using aesd.quiet_close [of b w fd rd p M R I w'] device_works_kern(3) [of w fd w']
    by (auto simp: device_worksD(1,2) ring_dev_kern [of w' w] dest: device_works_calls(4))
next
  case (5 b w rd bs r w')
  then show ?case
    using aesd.quiet_send [of b w M R I bs r w'] device_works_kern(4) [of w bs r w']
    by (auto simp: device_worksD(1,2) ring_dev_kern [of w' w] dest: device_works_calls(5))
next
  case (8 w fd w')
  then have op: "vfs_open w = Some (fd, w')" by (simp add: device_worksD(2))
  with 8 vfs_open_law [of w] device_works_open [of B N w 0 0 fd w'] device_works_kern(1) [of w fd w'] show ?case
    by (auto simp: ring_dev_kern [of w' w] dest: device_works_calls(1))
next
  case (9 b w rd p fd w')
  then show ?case using device_works_open [of B N w rd p fd w'] by (simp add: device_worksD(2))
next
  case (10 b w rd p bs fd w1 r w2)
  then have op: "vfs_open w = Some (fd, w1)" by (simp add: device_worksD(2))
  have fd: "0 \<le> fd" using 10(1-3) device_works_open [OF 10(2) _ _ op, of rd p] by simp
  with 10(1) op vfs_open_law [of w] have w1: "vfs_inv w1" "vfs_fds w1 fd = Some 0" by auto
  have dev: "ring_dev w1 = ring_dev w" using 10(1) device_works_kern(1) [OF _ op] by (simp add: ring_dev_kern [of w1 w])
  have works: "device_works B N w1" by (rule device_works_calls(1) [OF 10(2) op])
  then have wr: "vfs_write w1 fd bs = Some (r, w2)" using 10(6) by (simp add: device_worksD(2))
  have "device_fits B bs (vfs_dev w1)" using 10(4) dev by (simp flip: ring_dev_fst)
  from device_works_write [OF works w1 this wr] dev show ?case by simp
next
  case (11 b w rd bs r w')
  then have "vfs_send w bs = Some (r, w')" by (simp add: device_worksD(2))
  with device_worksD(3) [OF 11(2), of "clock w"] show ?case by (auto simp: vfs_send_def Let_def host_works_def)
next
  case (12 w fd p q r w')
  then have io: "vfs_ioctl w fd q = Some (r, w')" by (simp add: device_worksD(2))
  have "vfs_fds w fd = Some p" using 12(3) by simp
  from device_works_ioctl [OF 12(2) _ this io] 12(1-3) device_works_calls(6) [OF 12(2) io] show ?case
    by (auto simp: ring_dev_kern [of w' w] split: option.splits)
next
  case (13 b w fd p w')
  then show ?case
    using vfs_close_law [of w fd p] device_works_kern(3) [of w fd w'] device_works_calls(4) [OF 13(2)]
    by (auto simp: device_worksD(1,2) ring_dev_kern [of w' w])
qed auto

lemma log_write_whole:
  "pending D = [] \<Longrightarrow> newline \<in> set x \<Longrightarrow> log_write x D = \<lparr>cmds = last_n 10 (cmds D @ [x]), pending = []\<rparr>"
  by (simp add: log_write_def Let_def)

lemma vfs_dev_ten: "vfs_inv w \<Longrightarrow> length (cmds (vfs_dev w)) \<le> 10"
  using length_cbuf_entries_le [OF dev_invD(1)] by (auto simp: vfs_dev_def abs_dev_def vfs_inv_def dsys_inv_def)

lemma fold_log_write:
  assumes "pending D = []" and "length (cmds D) \<le> 10" and "\<forall>x \<in> set xs. newline \<in> set x"
  shows "fold log_write xs D = \<lparr>cmds = last_n 10 (cmds D @ xs), pending = []\<rparr>"
  using assms
proof (induction xs arbitrary: D)
  case Nil
  then show ?case by (cases D) (simp add: last_n_all)
next
  case (Cons x xs)
  then show ?case by (simp add: log_write_whole last_n_append_last_n)
qed

lemma ring_put_fst: "fst (ring_put x R) = log_write x (fst R)"
  by (cases R) simp

lemma fold_ring_put: "fst (fold ring_put xs R) = fold log_write xs (fst R)"
  by (induction xs arbitrary: R) (simp_all add: ring_put_fst)

lemma device_fits_all:
  assumes "pending (fst R) = []" and "\<forall>x \<in> set xs. newline \<in> set x \<and> length x \<le> B \<and> length x \<le> MAX_RW_COUNT"
  shows "all_fit (device_storage B) R xs"
  using assms by (induction xs arbitrary: R) (auto simp: device_fits_def log_write_whole ring_put_fst)

text \<open>As long as the ring does not wrap, a packet is added at the end of the contents.\<close>

definition ring_room :: "byte list list \<Rightarrow> log_dev \<times> nat \<Rightarrow> bool" where
  "ring_room xs R \<longleftrightarrow> pending (fst R) = [] \<and> length (cmds (fst R)) + length xs \<le> 10 \<and> (\<forall>x \<in> set xs. newline \<in> set x)"

lemma ring_room_step:
  "ring_room (x # xs) R \<Longrightarrow>
   s_contents (device_storage B) (s_put (device_storage B) x R) = s_contents (device_storage B) R @ x \<and>
   ring_room xs (s_put (device_storage B) x R)"
  by (auto simp: ring_room_def ring_put_fst log_write_whole log_contents_def last_n_all)

text \<open>
  (C7) A whole connection of a client that sends no seek command, on the driver, while nothing fails,
  nobody else uses the driver and it holds no incomplete command.  The client's bytes, in whatever chunks they arrive, are cut into packets
  that end at a chunk with a newline; the device holds the last ten of its old commands and the
  packets.  After each packet the client is sent the contents from its reading position on; as long
  as the device does not come to hold more than ten commands, that is over the whole connection
  exactly the final contents, each byte once.
\<close>

theorem connection_served:
  assumes "vfs_inv (world s)" and "device_works B N (world s)" and "vfs_fds (world s) = Map.empty"
    and "pending (vfs_dev (world s)) = []" and "\<forall>c \<in> set cs. 0 < length c \<and> length c < BUFFER_SIZE" and "plain [] cs"
    and "length (concat cs) \<le> B" and "length (concat cs) \<le> MAX_RW_COUNT"
    and "mem_ok (aesd_hapi M R I)" and "mem_plenty (aesd_hapi M R I) (uheap s) (2 * length (concat cs))"
  shows "\<exists>s'. handle_connection (aesd_hapi M R I) cs s = Some s' \<and>
    vfs_dev (world s') = \<lparr>cmds = last_n 10 (cmds (vfs_dev (world s)) @ packets [] cs), pending = []\<rparr> \<and>
    outgoing (world s') = outgoing (world s) @ replies (device_storage B) 0 (ring_dev (world s)) (packets [] cs) \<and>
    (length (cmds (vfs_dev (world s))) + length (packets [] cs) \<le> 10 \<longrightarrow>
       outgoing (world s') = outgoing (world s) @ (if packets [] cs = [] then [] else log_contents (vfs_dev (world s'))))"
proof -
  let ?D = "vfs_dev (world s)" and ?R = "ring_dev (world s)" and ?xs = "packets [] cs"
  have pk: "newline \<in> set x \<and> length x \<le> length (concat cs)" if "x \<in> set ?xs" for x
    using that packets_newline packets_length [of x "[]" cs] by (auto simp: length_concat)
  have ten: "length (cmds ?D) \<le> 10" by (rule vfs_dev_ten [OF assms(1)])
  have "all_fit (device_storage B) ?R ?xs"
    using pk assms(4,7,8) by (intro device_fits_all) (force simp: ring_dev_fst)+
  note ses = session_plain [OF assms(6) this, of I 0]
  have "\<exists>s'. handle_connection (aesd_hapi M R I) cs s = Some s' \<and> device_works B N (world s') \<and>
      ring_dev (world s') = fold (s_put (device_storage B)) ?xs ?R \<and>
      outgoing (world s') = outgoing (world s) @ replies (device_storage B) 0 ?R ?xs"
    using assms ses by (intro dw.handle_connection_serves) (auto simp: length_concat)
  then obtain s' where s': "handle_connection (aesd_hapi M R I) cs s = Some s'" "ring_dev (world s') = fold ring_put ?xs ?R"
      "outgoing (world s') = outgoing (world s) @ replies (device_storage B) 0 ?R ?xs" by auto
  have D': "vfs_dev (world s') = \<lparr>cmds = last_n 10 (cmds ?D @ ?xs), pending = []\<rparr>"
    using arg_cong [OF s'(2), of fst] pk fold_log_write [OF assms(4) ten, of ?xs]
    by (simp add: fold_ring_put ring_dev_fst)
  have "replies (device_storage B) 0 ?R ?xs = log_contents ?D @ concat ?xs"
    if "length (cmds ?D) + length ?xs \<le> 10" "?xs \<noteq> []"
  proof -
    have "ring_room ?xs ?R" using that(1) pk assms(4) by (simp add: ring_room_def ring_dev_fst)
    from replies_append [of ring_room "device_storage B", OF ring_room_step this _ that(2), of 0]
    show ?thesis by (simp add: ring_dev_fst)
  qed
  with s'(1,3) D' show ?thesis by (auto simp: log_contents_def last_n_all)
qed

lemma sample_host_works: "host_works 4096 6 sample_host"
proof -
  have "\<exists>y. h_fd sample_host s = Some y" if "finite (dom (files s))" "card (dom (files s)) < 6" for s
    using sample_find [OF that(2,1), of 3] by (auto simp: sample_host_def simp del: upt_rec_numeral)
  moreover have "kernel_works 4096 (sample_kapi u)" for u
  proof -
    have n: "\<not> 4096 < n" if "unat n \<le> 4096" for n :: size_t using that by (simp add: word_less_nat_alt)
    have "fst (kzalloc (sample_kapi u) h n) \<noteq> NULL" if "finite (dom h)" "card (dom h) \<le> 10" "unat n \<le> 4096" for h n
      using sample_find [of h 16 1] that n by (auto simp: sample_kapi_def)
    moreover have "fst (krealloc (sample_kapi u) h p n) \<noteq> NULL" if "p \<noteq> NULL" "h p \<noteq> None" "unat n \<le> 4096" for h p n
      using that n by (auto simp: sample_kapi_def)
    ultimately show ?thesis by (simp add: kernel_works_def) (simp add: sample_kapi_def)
  qed
  ultimately show ?thesis by (auto simp: host_works_def sample_host_def)
qed

lemma sample_seek_ok:
  "ioc_ok (h_seek sample_host q) \<and> \<not> lock_interrupted (h_seek sample_host q) \<and>
   copy_seekto_from_user (h_seek sample_host q) 0 = Some q"
  using sample_ioc_ok [of "[]"] by (simp add: ioc_ok_def sample_host_def) (simp add: sample_kapi_def)

definition sample_idle :: "vfs conn" where
  "sample_idle = sample_conn\<lparr>world := sample_world\<lparr>vsys := \<lparr>kern = after_writes [''ab'' @ [newline]] loaded, files = Map.empty\<rparr>,
     mine := {}\<rparr>\<rparr>"

lemma sample_idle_works:
  "vfs_inv (world sample_idle)" "device_works 4096 6 (world sample_idle)" "vfs_fds (world sample_idle) = Map.empty"
  "outgoing (world sample_idle) = []" "vfs_dev (world sample_idle) = \<lparr>cmds = [''ab'' @ [newline]], pending = []\<rparr>"
  "uheap sample_idle = Map.empty"
proof -
  let ?k = "after_writes [''ab'' @ [newline]] loaded"
  have k: "dev_inv ?k" by (rule after_writes_inv [OF loaded_inv]) (simp add: MAX_RW_COUNT_def)
  have dev: "abs_dev ?k = \<lparr>cmds = [''ab'' @ [newline]], pending = []\<rparr>" by code_simp
  show "vfs_inv (world sample_idle)" "device_works 4096 6 (world sample_idle)" "vfs_fds (world sample_idle) = Map.empty"
      "outgoing (world sample_idle) = []" "vfs_dev (world sample_idle) = \<lparr>cmds = [''ab'' @ [newline]], pending = []\<rparr>"
      "uheap sample_idle = Map.empty"
    using k dev sample_host_works sample_world_reliable sample_seek_ok
    by (auto simp: sample_idle_def sample_conn_def sample_world_def vfs_inv_def dsys_inv_def sample_host_ok others_nil
        device_works_def vfs_seek_ok_def vfs_reliable_def vfs_fds_def vfs_dev_def simp del: after_writes.simps)
qed

theorem connection_served_witness:
  "\<exists>s'. handle_connection sample_hapi sample_chunks sample_idle = Some s' \<and>
     cmds (vfs_dev (world s')) = [''ab'' @ [newline], ''cd'' @ [newline], ''efg'' @ [newline]] \<and>
     outgoing (world s') = log_contents (vfs_dev (world s'))"
proof -
  have mem: "mem_plenty sample_hapi Map.empty (2 * length (concat sample_chunks))"
    by (rule sample_plenty) (simp_all add: sample_chunks_ok)
  from connection_served [of sample_idle 4096 6 sample_chunks, OF sample_idle_works(1-3) _ sample_chunks_ok(1,2) _ _ sample_mem_ok]
    sample_idle_works(4-) mem
  show ?thesis by (auto simp: sample_chunks_ok MAX_RW_COUNT_def last_n_def)
qed

lemma session_defined:
  assumes "pending (fst R) = []" and "length d + sum_list (map length cs) \<le> B"
    and "length d + sum_list (map length cs) \<le> MAX_RW_COUNT"
  shows "\<exists>out R'. session I (device_storage B) p R d cs = Some (out, R') \<and> pending (fst R') = []"
  using assms
proof (induction cs arbitrary: p R d)
  case (Cons c cs)
  have IH: "\<exists>out R''. session I (device_storage B) p' R' d' cs = Some (out, R'') \<and> pending (fst R'') = []"
    if "pending (fst R') = []" "length d' \<le> length (d @ c)" for p' R' d'
    using that Cons.prems by (intro Cons.IH) auto
  show ?case
  proof (cases "take (length SEEKTO) (d @ c) \<noteq> SEEKTO \<and> newline \<in> set (d @ c)")
    case True
    let ?R = "ring_put (d @ c) R"
    have "device_fits B (d @ c) (fst R)" using Cons.prems by (simp add: device_fits_def)
    moreover have "pending (fst ?R) = []"
      using True log_write_whole [OF Cons.prems(1), of "d @ c"] by (simp add: ring_put_fst)
    with IH [of ?R "[]" "max p (length (log_contents (fst ?R)))"] obtain out R' where
      "session I (device_storage B) (max p (length (log_contents (fst ?R)))) ?R [] cs = Some (out, R')" "pending (fst R') = []" by auto
    ultimately show ?thesis using True by (simp add: Let_def)
  next
    case False
    note IHR = IH [OF Cons.prems(1)]
    show ?thesis
    proof (cases "take (length SEEKTO) (d @ c) = SEEKTO")
      case seek: True
      have empty: "\<exists>out R'. session I (device_storage B) p' R [] cs = Some (out, R') \<and> pending (fst R') = []" for p'
        by (rule IHR) simp
      show ?thesis
      proof (cases "sscanf_d_d (takeWhile (\<lambda>x. x \<noteq> nul) (drop (length SEEKTO) (d @ c)))")
        case None
        with seek empty [of p] show ?thesis by simp
      next
        case (Some xy)
        obtain x y where xy: "xy = (x, y)" by (cases xy)
        show ?thesis
        proof (cases "ring_seek \<lparr>write_cmd = I x, write_cmd_offset = I y\<rparr> R")
          case None
          with seek Some xy Cons.prems(1) show ?thesis by simp
        next
          case pos: (Some q)
          obtain out R' where "session I (device_storage B) (max q (length (log_contents (fst R)))) R [] cs = Some (out, R')"
              "pending (fst R') = []" using empty by blast
          with seek Some xy pos show ?thesis by (simp add: Let_def)
        qed
      qed
    next
      case no_seek: False
      with False IHR [of "d @ c" p] show ?thesis by simp
    qed
  qed
qed simp

text \<open>
  Everything a client may send, seek commands included, while nothing fails, nobody else uses the
  driver and it holds no incomplete command.  The handler returns, and what it has sent and what the
  driver then holds are exactly those of \<open>session\<close>: packets are stored and answered from the reading
  position, a seek command moves the position to the byte of the array slot it names and is answered
  from there, one that does not parse is dropped, and one that names no byte ends the connection.
\<close>

theorem session_served:
  assumes "vfs_inv (world s)" and "device_works B N (world s)" and "vfs_fds (world s) = Map.empty"
    and "pending (vfs_dev (world s)) = []" and "\<forall>c \<in> set cs. 0 < length c \<and> length c < BUFFER_SIZE"
    and "length (concat cs) \<le> B" and "length (concat cs) \<le> MAX_RW_COUNT"
    and "mem_ok (aesd_hapi M R I)" and "mem_plenty (aesd_hapi M R I) (uheap s) (2 * length (concat cs))"
  shows "\<exists>out D s'. session I (device_storage B) 0 (ring_dev (world s)) [] cs = Some (out, D) \<and>
    handle_connection (aesd_hapi M R I) cs s = Some s' \<and> ring_dev (world s') = D \<and>
    outgoing (world s') = outgoing (world s) @ out"
proof -
  obtain out D where ses: "session I (device_storage B) 0 (ring_dev (world s)) [] cs = Some (out, D)"
    using session_defined [of "ring_dev (world s)" "[]" cs B I 0] assms(4,6,7)
    by (auto simp: ring_dev_fst length_concat)
  then have "\<exists>s'. handle_connection (aesd_hapi M R I) cs s = Some s' \<and> device_works B N (world s') \<and> ring_dev (world s') = D \<and>
      outgoing (world s') = outgoing (world s) @ out"
    using assms by (intro dw.handle_connection_serves) (auto simp: length_concat)
  with ses show ?thesis by blast
qed

text \<open>A packet, a seek that is answered, one that is refused, and a packet that comes too late.\<close>

definition sample_seeks :: "byte list list" where
  "sample_seeks = [''cd'' @ [newline], ''AESDCHAR_IOCSEEKTO:0,1'', ''AESDCHAR_IOCSEEKTO:9,0'', ''ef'' @ [newline]]"

theorem session_served_witness:
  "\<exists>s'. handle_connection sample_hapi sample_seeks sample_idle = Some s' \<and>
     cmds (vfs_dev (world s')) = [''ab'' @ [newline], ''cd'' @ [newline]] \<and>
     outgoing (world s') = (''ab'' @ [newline] @ ''cd'' @ [newline]) @ (''b'' @ [newline] @ ''cd'' @ [newline])"
proof -
  have mem: "mem_plenty sample_hapi Map.empty (2 * length (concat sample_seeks))"
    by (rule sample_plenty) (simp_all add: sample_seeks_def)
  have ok: "\<forall>c \<in> set sample_seeks. 0 < length c \<and> length c < BUFFER_SIZE" "length (concat sample_seeks) \<le> 4096"
      "length (concat sample_seeks) \<le> MAX_RW_COUNT"
    by (simp_all add: sample_seeks_def MAX_RW_COUNT_def)
  have ring: "ring_dev (world sample_idle) = (\<lparr>cmds = [''ab'' @ [newline]], pending = []\<rparr>, 0)" by code_simp
  have "session word_of_int (device_storage 4096) 0 (\<lparr>cmds = [''ab'' @ [newline]], pending = []\<rparr>, 0) [] sample_seeks =
      Some ((''ab'' @ [newline] @ ''cd'' @ [newline]) @ (''b'' @ [newline] @ ''cd'' @ [newline]),
        (\<lparr>cmds = [''ab'' @ [newline], ''cd'' @ [newline]], pending = []\<rparr>, 0))"
    unfolding sample_seeks_def by (simp add: device_fits_def MAX_RW_COUNT_def SEEKTO_def) code_simp
  with session_served [OF sample_idle_works(1-3) _ ok sample_mem_ok] sample_idle_works(4-) mem ring
  show ?thesis by (auto simp: ring_dev_def)
qed

section \<open>A printed seek command\<close>

lemma decimal_no_nul: "nul \<notin> set (decimal n)"
  using decimal_digits [of n] by (auto simp: isdigit_def)

definition seek_line :: "nat \<Rightarrow> nat \<Rightarrow> byte list" where
  "seek_line x y = SEEKTO @ decimal x @ CHR '','' # decimal y @ [newline]"

lemma seek_line_scan:
  "take (length SEEKTO) (seek_line x y) = SEEKTO"
  "sscanf_d_d (takeWhile (\<lambda>x. x \<noteq> nul) (drop (length SEEKTO) (seek_line x y))) = Some (int x, int y)"
proof -
  have "nul \<notin> set (decimal x @ CHR '','' # decimal y @ [newline])" using decimal_no_nul by simp
  then have "takeWhile (\<lambda>x. x \<noteq> nul) (decimal x @ CHR '','' # decimal y @ [newline]) =
      decimal x @ CHR '','' # decimal y @ [newline]"
    by (intro takeWhile_eq_all_conv [THEN iffD2]) metis
  moreover have "\<not> isdigit newline" by (simp add: isdigit_def)
  ultimately show "sscanf_d_d (takeWhile (\<lambda>x. x \<noteq> nul) (drop (length SEEKTO) (seek_line x y))) = Some (int x, int y)"
    using sscanf_reads_decimal [of "[newline]" x y] by (simp add: seek_line_def)
qed (simp add: seek_line_def)

lemma seek_line_length:
  assumes "x < 2 ^ 31" and "y < 2 ^ 31"
  shows "length (seek_line x y) \<le> 41"
  using length_decimal [of 10 x] length_decimal [of 10 y] assms by (simp add: seek_line_def SEEKTO_def)



section \<open>A full ring\<close>

text \<open>
  (C23) Once the ring is full the reply can be empty.  On a connection that has already read to the end
  of the contents, as one has after its first answered packet, the reading position stays where they
  ended; a further packet not longer than the oldest command, which it evicts, leaves nothing behind
  that position, so the packet is stored and the client is sent nothing.
\<close>

theorem full_ring_packet_unanswered:
  assumes "vfs_inv (world s)" and "vfs_fds (world s) fd = Some p" and "buf_inv h0 s d"
    and "0 < length c" and "length c < BUFFER_SIZE"
    and "take (length SEEKTO) (d @ c) \<noteq> SEEKTO" and "newline \<in> set (d @ c)" and "length (d @ c) \<le> MAX_RW_COUNT"
    and "recv_body (aesd_hapi M R I) fd c s = Some (True, s')" and "mem_ok (aesd_hapi M R I)"
    and "vfs_reliable (world s)" and "length (cmds (vfs_dev (world s))) = 10" and "pending (vfs_dev (world s)) = []"
    and "length (log_contents (vfs_dev (world s))) \<le> p" and "length (d @ c) \<le> length (hd (cmds (vfs_dev (world s))))"
  shows "last (cmds (vfs_dev (world s'))) = d @ c \<and> outgoing (world s') = outgoing (world s)"
proof -
  let ?D = "vfs_dev (world s)"
  have dev: "vfs_dev (world s') = log_write (d @ c) ?D"
      "outgoing (world s') = outgoing (world s) @ drop p (log_contents (vfs_dev (world s')))"
    using aesd.packet_echo [of s fd p h0 d c M R I s'] assms by (auto simp: dev_stored_def)
  obtain x xs where xs: "cmds ?D = x # xs" using assms(12) by (cases "cmds ?D") auto
  have D': "log_write (d @ c) ?D = \<lparr>cmds = xs @ [d @ c], pending = []\<rparr>"
    using log_write_whole [OF assms(13,7)] last_n_snoc_full [OF assms(12)] xs by simp
  have "length (log_contents (log_write (d @ c) ?D)) \<le> p"
    using assms(14,15) xs unfolding D' by (simp add: log_contents_def)
  with dev D' show ?thesis by simp
qed

definition full_start :: "vfs conn" where
  "full_start = sample_start\<lparr>world := sample_world\<lparr>vsys := \<lparr>kern = sample_ten, files = [3 \<mapsto> opened\<lparr>f_pos := 65\<rparr>]\<rparr>\<rparr>\<rparr>"

theorem full_ring_packet_unanswered_witness:
  "\<exists>s'. recv_body sample_hapi 3 (''y'' @ [newline]) full_start = Some (True, s') \<and>
     last (cmds (vfs_dev (world s'))) = ''y'' @ [newline] \<and> outgoing (world s') = []"
proof -
  have "map_option fst (recv_body sample_hapi 3 (''y'' @ [newline]) full_start) = Some True" by code_simp
  then obtain s' where s': "recv_body sample_hapi 3 (''y'' @ [newline]) full_start = Some (True, s')" by auto
  have w: "vfs_inv (world full_start)" "vfs_reliable (world full_start)" "outgoing (world full_start) = []"
      "vfs_dev (world full_start) = abs_dev sample_ten" "vfs_fds (world full_start) 3 = Some 65"
    using sample_ten_inv sample_world_reliable
    by (auto simp: full_start_def vfs_inv_def dsys_inv_def sample_world_def sample_host_ok others_nil opened_dev
        vfs_reliable_def vfs_dev_def vfs_fds_def)
  have buf: "buf_inv Map.empty full_start []" using sample_start_buf by (simp add: full_start_def)
  have ten: "length (cmds (abs_dev sample_ten)) = 10" "pending (abs_dev sample_ten) = []"
      "length (log_contents (abs_dev sample_ten)) = 65" "length (hd (cmds (abs_dev sample_ten))) = 2"
    by code_simp+
  from full_ring_packet_unanswered [OF w(1,5) buf _ _ _ _ _ s' sample_mem_ok w(2)] ten s' w(3,4)
  show ?thesis by (auto simp: SEEKTO_def MAX_RW_COUNT_def)
qed

end
