(* ===== verification/Server_Handler.thy ===== *)
theory Server_Handler
  imports Server File_Theorems
begin

text \<open>
  The server and its handler threads together.  \<open>Server\<close> treats the end of a connection as one step,
  \<open>conn_finish\<close>: the client's socket is closed, the node is marked, the thread has returned.  Here a
  thread runs \<open>handle_connection\<close> on the process's memory and system, and what it did to its socket and
  its node is carried over to the server's state.  The theory shows that this is \<open>conn_finish\<close>, for
  both builds, so that the properties of the server hold of the process with real handlers.
\<close>

section \<open>The process\<close>

record 'w process =
  proc_server :: server
  proc_world :: 'w
  proc_heap :: heap

fun close_clients :: "nat \<Rightarrow> int \<Rightarrow> server \<Rightarrow> server option" where
  "close_clients 0 fd s = Some s"
| "close_clients (Suc k) fd s = do { s' \<leftarrow> close_client fd s; close_clients k fd s' }"

text \<open>
  The thread \<open>tid\<close>, started with its node as the argument of \<open>handle_connection\<close>; \<open>chunks\<close> is what its
  client sends.  Closing the socket twice would be undefined.  The thread's run is one step of the
  process; what other threads do to the stored data meanwhile is part of its host.
\<close>

definition conn_start :: "'w process \<Rightarrow> conn_node \<Rightarrow> 'w conn" where
  "conn_start P n = \<lparr>world = proc_world P, uheap = proc_heap P, data_buffer = NULL, data_len = 0,
     clfd_closed = 0, done_flag = finished n\<rparr>"

definition handler_thread :: "'w hapi \<Rightarrow> byte list list \<Rightarrow> nat \<Rightarrow> 'w process \<Rightarrow> 'w process option" where
  "handler_thread K chunks tid P = do {
     (p, returned) \<leftarrow> threads (proc_server P) tid;
     if returned then None
     else do {
       n \<leftarrow> conn_nodes (proc_server P) p;
       s \<leftarrow> handle_connection K chunks (conn_start P n);
       v \<leftarrow> close_clients (clfd_closed s) (clfd n) (proc_server P);
       Some \<lparr>proc_server = v\<lparr>conn_nodes := (conn_nodes v)(p \<mapsto> n\<lparr>finished := done_flag s\<rparr>),
           threads := (threads v)(tid \<mapsto> (p, True))\<rparr>,
         proc_world = world s, proc_heap = uheap s\<rparr>
     }
   }"

definition chunks_ok :: "byte list list \<Rightarrow> bool" where
  "chunks_ok chunks \<longleftrightarrow> (\<forall>c \<in> set chunks. 0 < length c \<and> length c < BUFFER_SIZE)"

datatype plabel = P_main slabel | P_thread nat "byte list list"

text \<open>\<open>main\<close> and signals, as in \<open>server_step\<close>, and handler threads in the place of \<open>S_finish\<close>.\<close>

inductive process_step :: "'w hapi \<Rightarrow> 'w process \<Rightarrow> plabel \<Rightarrow> 'w process \<Rightarrow> bool" for K where
  p_main: "server_step (proc_server P) l t \<Longrightarrow> (\<And>tid. l \<noteq> S_finish tid) \<Longrightarrow>
    process_step K P (P_main l) (P\<lparr>proc_server := t\<rparr>)"
| p_thread: "chunks_ok chunks \<Longrightarrow> handler_thread K chunks tid P = Some P' \<Longrightarrow>
    process_step K P (P_thread tid chunks) P'"

definition process_init :: "'w \<Rightarrow> heap \<Rightarrow> 'w process \<Rightarrow> bool" where
  "process_init w h P \<longleftrightarrow> server_init (proc_server P) \<and> proc_world P = w \<and> proc_heap P = h"

section \<open>Handlers end as the server expects\<close>

context server_host
begin

lemma handler_thread_finishes:
  assumes "server_inv (proc_server P)" and "threads (proc_server P) tid = Some (p, False)"
    and "inv False (proc_world P)" and "chunks_ok chunks" and pk: "\<And>d. packet d" and mem: "mem_ok K"
  shows "\<exists>t w. handler_thread K chunks tid P = Some \<lparr>proc_server = t, proc_world = w, proc_heap = proc_heap P\<rparr> \<and>
    conn_finish tid (proc_server P) = Some t \<and> inv False w \<and> fds w = fds (proc_world P)"
proof -
  let ?s = "proc_server P"
  obtain n where n: "conn_nodes ?s p = Some n" "clfd n \<in> client_fds ?s"
    and fin: "conn_finish tid ?s = Some (?s\<lparr>client_fds := client_fds ?s - {clfd n},
      conn_nodes := (conn_nodes ?s)(p \<mapsto> n\<lparr>finished := True\<rparr>), threads := (threads ?s)(tid \<mapsto> (p, True))\<rparr>)"
    by (rule conn_finish_eq [OF assms(1,2)])
  obtain s' where s': "handle_connection K chunks (conn_start P n) = Some s'" "inv False (world s')"
      "uheap s' = proc_heap P" "fds (world s') = fds (proc_world P)" "clfd_closed s' = Suc 0" "done_flag s'"
    using handle_connection_ok [of "conn_start P n" chunks] assms(3,4) pk mem
    by (auto simp: conn_start_def chunks_ok_def)
  have "close_clients (Suc 0) (clfd n) ?s = Some (?s\<lparr>client_fds := client_fds ?s - {clfd n}\<rparr>)"
    using n(2) by (simp add: close_client_def)
  with s' n(1) fin assms(2) show ?thesis by (simp add: handler_thread_def)
qed

lemma process_invariant:
  assumes "reach (process_init w0 h0) (process_step K) P" and "inv False w0" and pk: "\<And>d. packet d"
    and mem: "mem_ok K"
  shows "reach server_init server_step (proc_server P) \<and> inv False (proc_world P) \<and>
    fds (proc_world P) = fds w0 \<and> proc_heap P = h0"
  using assms(1)
proof (induction rule: reach.induct)
  case (reach_init P)
  then show ?case using assms(2) by (auto simp: process_init_def intro: reach.intros)
next
  case (reach_step P l P')
  from reach_step.hyps(2) show ?case
  proof cases
    case (p_main l' t)
    with reach_step.IH show ?thesis by (auto intro: reach.intros)
  next
    case (p_thread chunks tid)
    from p_thread(3) obtain p where p: "threads (proc_server P) tid = Some (p, False)"
      by (auto simp: handler_thread_def split: Option.bind_splits if_splits)
    have "server_inv (proc_server P)" using reach_step.IH by (auto intro: srv.reach_inv)
    from handler_thread_finishes [OF this p _ p_thread(2) pk mem] reach_step.IH p_thread(3)
    show ?thesis by (auto intro: reach.reach_step [where step = server_step, OF _ s_finish])
  qed
qed

lemma process_runs:
  assumes "reach (process_init w0 h0) (process_step K) P" and "inv False w0" and pk: "\<And>d. packet d"
    and mem: "mem_ok K" and "threads (proc_server P) tid = Some (p, False)" and "chunks_ok chunks"
  shows "\<exists>P'. handler_thread K chunks tid P = Some P' \<and>
    conn_finish tid (proc_server P) = Some (proc_server P') \<and> proc_heap P' = h0"
proof -
  have "reach server_init server_step (proc_server P)" "inv False (proc_world P)" "proc_heap P = h0"
    using process_invariant [OF assms(1-4)] by auto
  with handler_thread_finishes [OF srv.reach_inv assms(5) _ assms(6) pk mem] show ?thesis by fastforce
qed

end

section \<open>Properties\<close>

text \<open>
  (C14) The server with real handlers on the driver.  In every state the process can reach, under any
  interleaving of signals, accepted connections and handler threads and whatever the clients send:
  the server's part is a state that the server model reaches; the device's invariant holds; no
  handler that has ended left user memory allocated or a descriptor open; and every running thread
  runs to its end, which is exactly the step \<open>conn_finish\<close> that the server model assumes of it.
\<close>

theorem server_with_handlers:
  assumes "reach (process_init w0 h0) (process_step (aesd_hapi M R I)) P" and "vfs_inv w0"
    and "mem_ok (aesd_hapi M R I)"
  shows "reach server_init server_step (proc_server P) \<and> vfs_inv (proc_world P) \<and>
    vfs_fds (proc_world P) = vfs_fds w0 \<and> proc_heap P = h0 \<and>
    (\<forall>tid p chunks. threads (proc_server P) tid = Some (p, False) \<longrightarrow> chunks_ok chunks \<longrightarrow>
      (\<exists>P'. handler_thread (aesd_hapi M R I) chunks tid P = Some P' \<and>
        conn_finish tid (proc_server P) = Some (proc_server P') \<and> proc_heap P' = h0))"
  using shared.process_invariant [OF assms(1) _ _ assms(3)] shared.process_runs [OF assms(1) _ _ assms(3)] assms(2)
  by blast

text \<open>The same for the build without the device.\<close>

lemma file_server_with_handlers:
  assumes "reach (process_init w0 h0) (process_step (file_hapi M R I)) P" and "finv False w0"
    and "mem_ok (file_hapi M R I)"
  shows "reach server_init server_step (proc_server P) \<and> finv False (proc_world P) \<and>
    ffds (proc_world P) = ffds w0 \<and> proc_heap P = h0 \<and>
    (\<forall>tid p chunks. threads (proc_server P) tid = Some (p, False) \<longrightarrow> chunks_ok chunks \<longrightarrow>
      (\<exists>P'. handler_thread (file_hapi M R I) chunks tid P = Some P' \<and>
        conn_finish tid (proc_server P) = Some (proc_server P') \<and> proc_heap P' = h0))"
  using shared_file.process_invariant [OF assms(1) _ _ assms(3)] shared_file.process_runs [OF assms(1) _ _ assms(3)]
    assms(2) by blast

text \<open>Processes that have accepted one or two connections.\<close>

lemma sample_accept_process:
  assumes "reach (process_init w h) (process_step K) \<lparr>proc_server = s, proc_world = w, proc_heap = h\<rparr>"
    and "server_inv s" and "pc s = At_loop" and "server_running s" and "accept_ok (sample_env i) s"
  shows "reach (process_init w h) (process_step K) \<lparr>proc_server = sample_accept i s, proc_world = w, proc_heap = h\<rparr>"
    and "server_inv (sample_accept i s)"
proof -
  let ?P = "\<lambda>s. \<lparr>proc_server = s, proc_world = w, proc_heap = h\<rparr>" and ?R = "reach (process_init w h) (process_step K)"
  have pc: "pc (loop_test s) = At_accept" "accept_ok (sample_env i) (loop_test s)"
    using assms(3-5) by (auto simp: loop_test_def accept_ok_def)
  have r1: "?R (?P (loop_test s))"
    using assms(1) p_main [of "?P s" S_loop "loop_test s" K] s_loop [OF assms(3)] by (auto intro: reach.reach_step)
  have "server_inv (loop_test s)" using assms(2) by (simp add: loop_test_def)
  from accept_body_inv [OF this pc(2)]
  obtain t where t: "accept_body (sample_env i) (loop_test s) = Some t" "server_inv t" by blast
  then show "server_inv (sample_accept i s)" by (simp add: sample_accept_def)
  from s_accept [OF pc t(1)] p_main [of "?P (loop_test s)" "S_accept (sample_env i)" t K]
  have "?R (?P t)" using r1 by (auto intro: reach.reach_step)
  then show "?R (?P (sample_accept i s))" using t by (simp add: sample_accept_def)
qed

lemma sample_start_process:
  "reach (process_init w h) (process_step K) \<lparr>proc_server = sample_accept 0 server_start, proc_world = w, proc_heap = h\<rparr>"
  "server_inv (sample_accept 0 server_start)"
proof -
  have "server_init server_start" unfolding server_init_def using sample_setup by blast
  then have r0: "reach (process_init w h) (process_step K) \<lparr>proc_server = server_start, proc_world = w, proc_heap = h\<rparr>"
    by (intro reach.reach_init) (simp add: process_init_def)
  note acc = sample_accept_process [OF r0 server_start_inv, of 0]
  show "reach (process_init w h) (process_step K) \<lparr>proc_server = sample_accept 0 server_start, proc_world = w, proc_heap = h\<rparr>"
    "server_inv (sample_accept 0 server_start)"
    by (intro acc; simp add: server_start_def accept_ok_def sample_env_def)+
qed

definition sample_process :: "vfs process" where
  "sample_process = \<lparr>proc_server = sample_accept 0 server_start, proc_world = world busy_conn,
     proc_heap = Map.empty\<rparr>"

lemma sample_process_reach:
  "reach (process_init (world busy_conn) Map.empty) (process_step sample_hapi) sample_process"
  unfolding sample_process_def by (rule sample_start_process)

theorem server_with_handlers_witness:
  "\<exists>P'. handler_thread sample_hapi [''he'', ''llo'' @ [newline]] 20 sample_process = Some P' \<and>
     conn_finish 20 (sample_accept 0 server_start) = Some (proc_server P') \<and> proc_heap P' = Map.empty"
proof -
  have "threads (proc_server sample_process) 20 = Some (10, False)"
    unfolding sample_process_def process.simps by code_simp
  moreover have "chunks_ok [''he'', ''llo'' @ [newline]]" by (simp add: chunks_ok_def)
  moreover have "proc_server sample_process = sample_accept 0 server_start" by (simp add: sample_process_def)
  ultimately show ?thesis
    using server_with_handlers [OF sample_process_reach busy_conn_inv sample_mem_ok] by metis
qed

end
