(* ===== verification/Server_Service.thy ===== *)
theory Server_Service
  imports Server_Handler Service_Theorems
begin

text \<open>
  The whole program: the server process, its handler threads and the storage they use, serving one
  client after another while nothing fails.
\<close>

section \<open>Clients in turn\<close>

text \<open>
  The handler threads of a list run in turn, each with what its client sends.  \<open>sessions\<close> is what the
  clients are then sent: each starts reading at the beginning of what the ones before have left.
\<close>

fun serve_all :: "'w hapi \<Rightarrow> (nat \<times> byte list list) list \<Rightarrow> 'w process \<Rightarrow> 'w process option" where
  "serve_all K [] P = Some P"
| "serve_all K ((tid, cs) # xs) P = do { P' \<leftarrow> handler_thread K cs tid P; serve_all K xs P' }"

fun sessions ::
  "(int \<Rightarrow> 32 word) \<Rightarrow> 'd storage \<Rightarrow> 'd \<Rightarrow> byte list list list \<Rightarrow> (byte list list \<times> 'd) option"
where
  "sessions I S D [] = Some ([], D)"
| "sessions I S D (cs # css) = do {
     (out, D1) \<leftarrow> session I S 0 D [] cs;
     (outs, D2) \<leftarrow> sessions I S D1 css;
     Some (out # outs, D2)
   }"

definition running :: "'w process \<Rightarrow> nat \<Rightarrow> bool" where
  "running P tid \<longleftrightarrow> (\<exists>p. threads (proc_server P) tid = Some (p, False))"

context reliable_host
begin

lemma handler_thread_serves:
  assumes "reach (process_init w0 h0) (process_step K) P" and "inv False w0" and "fds w0 = Map.empty"
    and pk: "\<And>d. packet d" and mem: "mem_ok K" "mem_plenty K h0 (2 * sum_list (map length cs))"
    and "ready (proc_world P)" and "running P tid" and "chunks_ok cs"
    and ses: "session (libc_int K) S 0 (dev (proc_world P)) [] cs = Some (out, D)"
  shows "\<exists>P'. handler_thread K cs tid P = Some P' \<and> reach (process_init w0 h0) (process_step K) P' \<and>
    ready (proc_world P') \<and> dev (proc_world P') = D \<and> sent (proc_world P') = sent (proc_world P) @ out \<and>
    (\<exists>p. threads (proc_server P') = (threads (proc_server P))(tid \<mapsto> (p, True)))"
proof -
  let ?s = "proc_server P"
  have P: "server_inv ?s" "inv False (proc_world P)" "fds (proc_world P) = Map.empty" "proc_heap P = h0"
    using process_invariant [OF assms(1,2) pk mem(1)] assms(3) by (auto intro: srv.reach_inv)
  obtain p where p: "threads ?s tid = Some (p, False)" using assms(8) by (auto simp: running_def)
  obtain t w where fin: "handler_thread K cs tid P = Some \<lparr>proc_server = t, proc_world = w, proc_heap = h0\<rparr>"
      "conn_finish tid ?s = Some t"
    using handler_thread_finishes [OF P(1) p P(2) assms(9) pk mem(1)] P(4) by auto
  obtain n where n: "conn_nodes ?s p = Some n" "threads t = (threads ?s)(tid \<mapsto> (p, True))"
    by (rule conn_finish_eq [OF P(1) p]) (use fin(2) in auto)
  have ok: "\<forall>c \<in> set cs. 0 < length c \<and> length c < BUFFER_SIZE" using assms(9) by (simp add: chunks_ok_def)
  obtain s' where s': "handle_connection K cs (conn_start P n) = Some s'" "ready (world s')" "dev (world s') = D"
      "sent (world s') = sent (proc_world P) @ out"
    using handle_connection_serves [of "conn_start P n" cs out D, OF _ _ _ ok] P assms(7) ses mem
    by (auto simp: conn_start_def)
  have "w = world s'" using fin(1) p n(1) s'(1) by (auto simp: handler_thread_def split: Option.bind_splits)
  moreover have "reach (process_init w0 h0) (process_step K) \<lparr>proc_server = t, proc_world = w, proc_heap = h0\<rparr>"
    using assms(1) p_thread [OF assms(9) fin(1)] by (rule reach.reach_step)
  ultimately show ?thesis using fin(1) n(2) s'(2-4) by auto
qed

lemma serve_all_serves:
  assumes "reach (process_init w0 h0) (process_step K) P" and "inv False w0" and "fds w0 = Map.empty"
    and pk: "\<And>d. packet d" and mem: "mem_ok K" "mem_plenty K h0 (2 * L)"
    and "ready (proc_world P)" and "distinct (map fst xs)"
    and "\<forall>(tid, cs) \<in> set xs. running P tid \<and> chunks_ok cs \<and> sum_list (map length cs) \<le> L"
    and "sessions (libc_int K) S (dev (proc_world P)) (map snd xs) = Some (outs, D)"
  shows "\<exists>P'. serve_all K xs P = Some P' \<and> reach (process_init w0 h0) (process_step K) P' \<and>
    dev (proc_world P') = D \<and> sent (proc_world P') = sent (proc_world P) @ concat outs \<and>
    (\<forall>tid. running P' tid \<longleftrightarrow> running P tid \<and> tid \<notin> fst ` set xs)"
  using assms(1,7-10)
proof (induction xs arbitrary: P outs)
  case Nil
  then show ?case by auto
next
  case (Cons x xs)
  obtain tid cs where x: "x = (tid, cs)" by (cases x)
  from Cons.prems(5) x obtain out D1 outs' where ses: "session (libc_int K) S 0 (dev (proc_world P)) [] cs = Some (out, D1)"
      "sessions (libc_int K) S D1 (map snd xs) = Some (outs', D)" "outs = out # outs'"
    by (auto split: Option.bind_splits)
  have plenty: "mem_plenty K h0 (2 * sum_list (map length cs))"
    using mem(2) Cons.prems(4) x by (force simp: mem_plenty_def)
  obtain P1 p where P1: "handler_thread K cs tid P = Some P1" "reach (process_init w0 h0) (process_step K) P1"
      "ready (proc_world P1)" "dev (proc_world P1) = D1" "sent (proc_world P1) = sent (proc_world P) @ out"
      "threads (proc_server P1) = (threads (proc_server P))(tid \<mapsto> (p, True))"
    using handler_thread_serves [OF Cons.prems(1) assms(2,3) pk mem(1) plenty Cons.prems(2) _ _ ses(1), of tid]
      Cons.prems(4) x by auto
  then have run: "running P1 u \<longleftrightarrow> running P u \<and> u \<noteq> tid" for u by (auto simp: running_def)
  have "\<exists>P'. serve_all K xs P1 = Some P' \<and> reach (process_init w0 h0) (process_step K) P' \<and>
      dev (proc_world P') = D \<and> sent (proc_world P') = sent (proc_world P1) @ concat outs' \<and>
      (\<forall>u. running P' u \<longleftrightarrow> running P1 u \<and> u \<notin> fst ` set xs)"
    using Cons.prems(3,4) ses(2) x P1(4) by (intro Cons.IH [OF P1(2,3)]) (auto simp: run image_iff)
  with P1(1,5) run ses(3) x show ?case by auto
qed

end

section \<open>On the driver\<close>

lemma sessions_defined:
  assumes "pending (fst R) = []" and "\<forall>cs \<in> set css. sum_list (map length cs) \<le> B \<and> sum_list (map length cs) \<le> MAX_RW_COUNT"
  shows "\<exists>outs R'. sessions I (device_storage B) R css = Some (outs, R')"
  using assms
proof (induction css arbitrary: R)
  case (Cons cs css)
  obtain out R1 where "session I (device_storage B) 0 R [] cs = Some (out, R1)" "pending (fst R1) = []"
    using session_defined [of R "[]" cs B I 0] Cons.prems by auto
  with Cons.IH [of R1] Cons.prems(2) show ?case by auto
qed simp

text \<open>Without seek commands, the data afterwards are the packets of all clients, written in turn.\<close>

lemma sessions_plain:
  assumes "pending (fst R) = []" and "\<forall>cs \<in> set css. plain [] cs \<and> sum_list (map length cs) \<le> B \<and> sum_list (map length cs) \<le> MAX_RW_COUNT"
    and "sessions I (device_storage B) R css = Some (outs, R')"
  shows "R' = fold ring_put (concat (map (packets []) css)) R"
  using assms
proof (induction css arbitrary: R outs)
  case (Cons cs css)
  have pk: "newline \<in> set x \<and> length x \<le> sum_list (map length cs)" if "x \<in> set (packets [] cs)" for x
    using that packets_newline packets_length [of x "[]" cs] by auto
  have fit: "all_fit (device_storage B) R (packets [] cs)"
    using Cons.prems(1,2) pk by (intro device_fits_all) (auto intro: order_trans)
  let ?R = "fold ring_put (packets [] cs) R"
  have ses: "session I (device_storage B) 0 R [] cs = Some (replies (device_storage B) 0 R (packets [] cs), ?R)"
    using session_plain [OF _ fit, of I 0] Cons.prems(2) by simp
  moreover have "pending (fst ?R) = []"
    using session_defined [of R "[]" cs B I 0] Cons.prems(1,2) ses by simp
  ultimately show ?case using Cons.IH [of ?R] Cons.prems(2,3) by (auto split: Option.bind_splits)
qed simp

text \<open>
  (C6) The whole program on the driver.  From any state the server process can reach, let the handler
  threads of some running connections run in turn while nothing fails, nobody else uses the driver
  and it holds no incomplete command.  Every handler returns; what the clients are sent and what the
  driver holds afterwards are exactly those of \<open>sessions\<close>, each client reading from the beginning what
  the ones before it have left; the process is again in a reachable state, in which just these
  connections have ended.  If no client sends a seek command, the driver holds the last ten of its old
  commands and the packets of all clients.
\<close>

theorem clients_served:
  assumes "reach (process_init w0 h0) (process_step (aesd_hapi M R I)) P" and "vfs_inv w0"
    and "vfs_fds w0 = Map.empty" and "mem_ok (aesd_hapi M R I)" and "mem_plenty (aesd_hapi M R I) h0 (2 * L)"
    and "device_works B N (proc_world P)" and "pending (vfs_dev (proc_world P)) = []" and "distinct (map fst xs)"
    and "\<forall>(tid, cs) \<in> set xs. running P tid \<and> chunks_ok cs \<and> length (concat cs) \<le> L"
    and "L \<le> B" and "L \<le> MAX_RW_COUNT"
  shows "\<exists>P' outs. serve_all (aesd_hapi M R I) xs P = Some P' \<and>
    reach (process_init w0 h0) (process_step (aesd_hapi M R I)) P' \<and>
    sessions I (device_storage B) (ring_dev (proc_world P)) (map snd xs) = Some (outs, ring_dev (proc_world P')) \<and>
    outgoing (proc_world P') = outgoing (proc_world P) @ concat outs \<and>
    (\<forall>tid. running P' tid \<longleftrightarrow> running P tid \<and> tid \<notin> fst ` set xs) \<and>
    ((\<forall>(tid, cs) \<in> set xs. plain [] cs) \<longrightarrow>
      cmds (vfs_dev (proc_world P')) =
        last_n 10 (cmds (vfs_dev (proc_world P)) @ concat (map (packets [] \<circ> snd) xs)))"
proof -
  let ?D = "vfs_dev (proc_world P)" and ?R = "ring_dev (proc_world P)"
  have sizes: "\<forall>cs \<in> set (map snd xs). sum_list (map length cs) \<le> B \<and> sum_list (map length cs) \<le> MAX_RW_COUNT"
    using assms(9-11) by (force simp: length_concat)
  have pend: "pending (fst ?R) = []" using assms(7) by (simp add: ring_dev_fst)
  from sessions_defined [OF pend sizes]
  obtain outs R' where ses: "sessions I (device_storage B) ?R (map snd xs) = Some (outs, R')" by blast
  have "\<exists>P'. serve_all (aesd_hapi M R I) xs P = Some P' \<and>
      reach (process_init w0 h0) (process_step (aesd_hapi M R I)) P' \<and> ring_dev (proc_world P') = R' \<and>
      outgoing (proc_world P') = outgoing (proc_world P) @ concat outs \<and>
      (\<forall>tid. running P' tid \<longleftrightarrow> running P tid \<and> tid \<notin> fst ` set xs)"
    using assms ses by (intro dw.serve_all_serves [of _ _ _ _ _ _ L _ N]) (auto simp: length_concat)
  moreover have "cmds (fst R') = last_n 10 (cmds ?D @ concat (map (packets [] \<circ> snd) xs))"
    if "\<forall>(tid, cs) \<in> set xs. plain [] cs"
  proof -
    have "vfs_inv (proc_world P)" using shared.process_invariant [OF assms(1) _ _ assms(4)] assms(2) by blast
    then have ten: "length (cmds ?D) \<le> 10" by (rule vfs_dev_ten)
    have "R' = fold ring_put (concat (map (packets []) (map snd xs))) ?R"
      using that sizes by (intro sessions_plain [OF pend _ ses]) auto
    then have "fst R' = fold log_write (concat (map (packets [] \<circ> snd) xs)) ?D"
      by (simp add: fold_ring_put ring_dev_fst comp_def)
    also have "\<dots> = \<lparr>cmds = last_n 10 (cmds ?D @ concat (map (packets [] \<circ> snd) xs)), pending = []\<rparr>"
      by (rule fold_log_write [OF assms(7) ten]) (auto dest: packets_newline)
    finally show ?thesis by simp
  qed
  ultimately show ?thesis using ses by (metis ring_dev_fst)
qed

text \<open>Two connections, served in the order opposite to that in which they were accepted.\<close>

definition sample_two :: "vfs process" where
  "sample_two = \<lparr>proc_server = sample_accept 1 (sample_accept 0 server_start), proc_world = world sample_idle,
     proc_heap = Map.empty\<rparr>"

lemma sample_two_process:
  "reach (process_init w h) (process_step K)
     \<lparr>proc_server = sample_accept 1 (sample_accept 0 server_start), proc_world = w, proc_heap = h\<rparr>"
proof -
  have "pc (sample_accept 0 server_start) = At_loop" "server_running (sample_accept 0 server_start)"
      "accept_ok (sample_env 1) (sample_accept 0 server_start)"
    by (code_simp, code_simp, simp add: accept_ok_def sample_env_def, code_simp)
  from sample_accept_process(1) [OF sample_start_process this] show ?thesis .
qed

lemma sample_two_reach: "reach (process_init (world sample_idle) Map.empty) (process_step sample_hapi) sample_two"
  unfolding sample_two_def by (rule sample_two_process)

theorem clients_served_witness:
  "\<exists>P' outs. serve_all sample_hapi [(21, sample_chunks), (20, [''xy'' @ [newline]])] sample_two = Some P' \<and>
     cmds (vfs_dev (proc_world P')) =
       [''ab'' @ [newline], ''cd'' @ [newline], ''efg'' @ [newline], ''xy'' @ [newline]]"
proof -
  let ?xs = "[(21, sample_chunks), (20, [''xy'' @ [newline]])] :: (nat \<times> byte list list) list"
  have run: "running sample_two 20" "running sample_two 21"
    unfolding running_def sample_two_def by (rule exI [of _ 10], code_simp) (rule exI [of _ 11], code_simp)
  have ok: "\<forall>(tid, cs) \<in> set ?xs. running sample_two tid \<and> chunks_ok cs \<and> length (concat cs) \<le> 100"
      "\<forall>(tid, cs) \<in> set ?xs. plain [] cs"
    using run sample_chunks_ok by (simp_all add: chunks_ok_def SEEKTO_def)
  have world: "proc_world sample_two = world sample_idle" by (simp add: sample_two_def)
  have "mem_plenty sample_hapi Map.empty (2 * 100)" by (rule sample_plenty) simp_all
  from clients_served [OF sample_two_reach sample_idle_works(1,3) sample_mem_ok this, of 4096 6 ?xs]
    sample_idle_works(2,5) ok
  show ?thesis by (auto simp: world MAX_RW_COUNT_def last_n_def sample_chunks_ok)
qed

section \<open>On a file\<close>

text \<open>
  What the clients are sent in the build without the device: each that completes a packet, the file as
  it is after its last one.
\<close>

fun file_replies :: "byte list \<Rightarrow> byte list list list \<Rightarrow> byte list list" where
  "file_replies D [] = []"
| "file_replies D (cs # css) = (let ps = packets [] cs; D' = D @ concat ps in
     (if ps = [] then [] else D') # file_replies D' css)"

lemma file_sessions:
  assumes "\<forall>cs \<in> set css. plain [] cs" and "length D + length (concat (map concat css)) \<le> FILE_MAX"
  shows "sessions I file_storage D css = Some (file_replies D css, D @ concat (concat (map (packets []) css)))"
  using assms
proof (induction css arbitrary: D)
  case (Cons cs css)
  obtain rest where "concat cs = concat (packets [] cs) @ rest" using packets_concat [of "[]" cs] by auto
  then have "length (concat (packets [] cs)) \<le> length (concat cs)" by simp
  with Cons.IH [of "D @ concat (packets [] cs)"] Cons.prems file_session [of cs D I] show ?case by (simp add: Let_def)
qed simp

text \<open>
  (C17) The whole program in the build without the device, while nothing fails and no alarm comes between.
  From any state the server process can reach, the handler threads of some running connections,
  run in turn, all return; the packets of all clients are appended to the file in order, and each
  client is sent exactly the contents of the file as they are after its last packet.
\<close>

theorem file_clients_served:
  assumes "reach (process_init w0 h0) (process_step (file_hapi M R I)) P" and "finv False w0"
    and "ffds w0 = Map.empty" and "mem_ok (file_hapi M R I)" and "mem_plenty (file_hapi M R I) h0 (2 * L)"
    and "file_works (proc_world P)" and "data_file (proc_world P) = Some D" and "distinct (map fst xs)"
    and "\<forall>(tid, cs) \<in> set xs. running P tid \<and> chunks_ok cs \<and> plain [] cs \<and> length (concat cs) \<le> L"
    and "length D + length (concat (map (concat \<circ> snd) xs)) \<le> FILE_MAX"
  shows "\<exists>P'. serve_all (file_hapi M R I) xs P = Some P' \<and>
    reach (process_init w0 h0) (process_step (file_hapi M R I)) P' \<and>
    file_contents (proc_world P') = D @ concat (concat (map (packets [] \<circ> snd) xs)) \<and>
    foutgoing (proc_world P') = foutgoing (proc_world P) @ concat (file_replies D (map snd xs)) \<and>
    (\<forall>tid. running P' tid \<longleftrightarrow> running P tid \<and> tid \<notin> fst ` set xs)"
proof -
  have "sessions I file_storage D (map snd xs) =
      Some (file_replies D (map snd xs), D @ concat (concat (map (packets []) (map snd xs))))"
    using assms(9,10) by (intro file_sessions) (auto simp: comp_def)
  moreover have "file_contents (proc_world P) = D" using assms(7) by simp
  ultimately have "\<exists>P'. serve_all (file_hapi M R I) xs P = Some P' \<and>
      reach (process_init w0 h0) (process_step (file_hapi M R I)) P' \<and>
      file_contents (proc_world P') = D @ concat (concat (map (packets []) (map snd xs))) \<and>
      foutgoing (proc_world P') = foutgoing (proc_world P) @ concat (file_replies D (map snd xs)) \<and>
      (\<forall>tid. running P' tid \<longleftrightarrow> running P tid \<and> tid \<notin> fst ` set xs)"
    using assms by (intro fw.serve_all_serves [of _ _ _ _ _ _ L]) (auto simp: length_concat file_ready_def)
  then show ?thesis by (simp add: comp_def)
qed

definition sample_two_file :: "fworld process" where
  "sample_two_file = \<lparr>proc_server = sample_accept 1 (sample_accept 0 server_start), proc_world = sample_quiet,
     proc_heap = Map.empty\<rparr>"

lemma sample_two_file_reach: "reach (process_init sample_quiet Map.empty) (process_step sample_file_hapi) sample_two_file"
  unfolding sample_two_file_def by (rule sample_two_process)

theorem file_clients_served_witness:
  "\<exists>P'. serve_all sample_file_hapi [(21, sample_chunks), (20, [''xy'' @ [newline]])] sample_two_file = Some P' \<and>
     file_contents (proc_world P') = ''ab'' @ [newline] @ ''cd'' @ [newline] @ ''efg'' @ [newline] @ ''xy'' @ [newline] \<and>
     foutgoing (proc_world P') =
       (''ab'' @ [newline] @ ''cd'' @ [newline] @ ''efg'' @ [newline]) @ file_contents (proc_world P')"
proof -
  let ?xs = "[(21, sample_chunks), (20, [''xy'' @ [newline]])] :: (nat \<times> byte list list) list"
  have run: "running sample_two_file 20" "running sample_two_file 21"
    unfolding running_def sample_two_file_def by (rule exI [of _ 10], code_simp) (rule exI [of _ 11], code_simp)
  have ok: "\<forall>(tid, cs) \<in> set ?xs. running sample_two_file tid \<and> chunks_ok cs \<and> plain [] cs \<and> length (concat cs) \<le> 100"
    using run sample_chunks_ok by (simp add: chunks_ok_def SEEKTO_def)
  have world: "proc_world sample_two_file = sample_quiet" by (simp add: sample_two_file_def)
  have mem: "mem_plenty sample_file_hapi Map.empty (2 * 100)" by (rule sample_plenty) simp_all
  from file_clients_served [OF sample_two_file_reach sample_quiet_works(1,4) sample_file_mem_ok mem, of _ ?xs]
    sample_quiet_works(2,3,5) ok sample_chunks_ok
  show ?thesis by (auto simp: world FILE_MAX_def)
qed

end
