(* ===== verification/Server_Signals.thy ===== *)
theory Server_Signals
  imports Server
begin

text \<open>
  Signals and the waiting of \<open>main\<close> in \<open>accept\<close>.  \<open>Server\<close> lets the system answer an \<open>accept\<close> at any time;
  here \<open>main\<close> sleeps in it until a client connects or a signal handler without \<open>SA_RESTART\<close> runs in
  \<open>main\<close>'s thread, and a signal for which \<open>main\<close> has installed no handler has its default action.  Every
  step of this system is one of \<open>Server\<close> or leaves the server's state alone, so the properties shown
  there hold here.
\<close>

section \<open>Dispositions\<close>

datatype handler_fun = Signal_handler | Alarm_handler

record sigaction =
  sa_handler :: handler_fun
  SA_RESTART :: bool

definition new_action :: sigaction where
  "new_action = \<lparr>sa_handler = Signal_handler, SA_RESTART = False\<rparr>"

definition alrm_action :: sigaction where
  "alrm_action = \<lparr>sa_handler = Alarm_handler, SA_RESTART = True\<rparr>"

text \<open>The actions in force after the calls of \<open>main\<close>; a signal not mentioned has its default.\<close>

definition installed :: "os_call list \<Rightarrow> signum \<rightharpoonup> sigaction" where
  "installed calls sig = (if Call_sigaction sig \<in> set calls
     then Some (if sig = SIGALRM then alrm_action else new_action) else None)"

text \<open>The default actions of Linux, by signal number.\<close>

datatype default_act = Terminate | Ignore | Stop

fun default_action :: "signum \<Rightarrow> default_act" where
  "default_action (Other_signal n) =
     (if n \<in> {17, 18, 23, 28} then Ignore else if n \<in> {19, 20, 21, 22} then Stop else Terminate)"
| "default_action _ = Terminate"

abbreviation SIGPIPE :: signum where
  "SIGPIPE \<equiv> Other_signal 13"

section \<open>The process and its steps\<close>

text \<open>
  \<open>asleep\<close>: \<open>main\<close> waits in \<open>accept\<close>; \<open>interrupted\<close>: that \<open>accept\<close> will report \<open>EINTR\<close>; \<open>backlog\<close>: clients that
  have connected and are not accepted yet; \<open>killed\<close>: a signal has ended the process.
\<close>

record live =
  srv_state :: server
  sig_actions :: "signum \<rightharpoonup> sigaction"
  asleep :: bool
  interrupted :: bool
  backlog :: nat
  killed :: bool

definition over :: "live \<Rightarrow> bool" where
  "over P \<longleftrightarrow> killed P \<or> (\<exists>r. pc (srv_state P) = Exited r)"

text \<open>
  A signal arrives, in \<open>main\<close>'s thread or in that of a connection.  The alarm handler does not touch
  the server's state; what it does to the data file is in \<open>File_Host\<close>.
\<close>

definition deliver :: "signum \<Rightarrow> bool \<Rightarrow> live \<Rightarrow> live" where
  "deliver sig to_main P = (case sig_actions P sig of
       None \<Rightarrow> if default_action sig = Terminate then P\<lparr>killed := True\<rparr> else P
     | Some a \<Rightarrow>
         (let woken = asleep P \<and> to_main \<and> \<not> SA_RESTART a;
              P1 = (case sa_handler a of
                  Signal_handler \<Rightarrow> P\<lparr>srv_state := signal_handler sig (srv_state P)\<rparr>
                | Alarm_handler \<Rightarrow> P) in
          if woken then P1\<lparr>asleep := False, interrupted := True\<rparr> else P1))"

text \<open>
  What \<open>accept\<close> may answer when it returns: a connection only if a client waits, \<open>EINTR\<close> only after an
  interruption, and other errors.
\<close>

definition accept_answers :: "live \<Rightarrow> accept_env \<Rightarrow> bool" where
  "accept_answers P env \<longleftrightarrow>
     (if 0 \<le> accept_result env then 0 < backlog P else accept_EINTR env = interrupted P)"

datatype live_label =
    L_signal signum bool | L_client | L_finish nat
  | L_loop | L_sleep | L_accept accept_env | L_shutdown

fun main_label :: "live_label \<Rightarrow> bool" where
  "main_label (L_signal sig to_main) = False"
| "main_label L_client = False"
| "main_label (L_finish tid) = False"
| "main_label _ = True"

inductive live_step :: "bool \<Rightarrow> int \<Rightarrow> live \<Rightarrow> live_label \<Rightarrow> live \<Rightarrow> bool"
  for use_char_device sockfd
where
  l_signal: "\<not> over P \<Longrightarrow> to_main \<or> (\<exists>tid p. threads (srv_state P) tid = Some (p, False)) \<Longrightarrow>
    live_step use_char_device sockfd P (L_signal sig to_main) (deliver sig to_main P)"
| l_client: "\<not> over P \<Longrightarrow>
    live_step use_char_device sockfd P L_client (P\<lparr>backlog := Suc (backlog P), asleep := False\<rparr>)"
| l_finish: "\<not> over P \<Longrightarrow> conn_finish tid (srv_state P) = Some t \<Longrightarrow>
    live_step use_char_device sockfd P (L_finish tid) (P\<lparr>srv_state := t\<rparr>)"
| l_loop: "\<not> over P \<Longrightarrow> pc (srv_state P) = At_loop \<Longrightarrow>
    live_step use_char_device sockfd P L_loop (P\<lparr>srv_state := loop_test (srv_state P)\<rparr>)"
| l_sleep: "\<not> over P \<Longrightarrow> pc (srv_state P) = At_accept \<Longrightarrow> \<not> asleep P \<Longrightarrow> \<not> interrupted P \<Longrightarrow> backlog P = 0 \<Longrightarrow>
    live_step use_char_device sockfd P L_sleep (P\<lparr>asleep := True\<rparr>)"
| l_accept: "\<not> over P \<Longrightarrow> pc (srv_state P) = At_accept \<Longrightarrow> \<not> asleep P \<Longrightarrow> accept_answers P env \<Longrightarrow>
    accept_ok env (srv_state P) \<Longrightarrow> accept_body env (srv_state P) = Some t \<Longrightarrow>
    live_step use_char_device sockfd P (L_accept env)
      (P\<lparr>srv_state := t, interrupted := False, backlog := backlog P - (if 0 \<le> accept_result env then 1 else 0)\<rparr>)"
| l_shutdown: "\<not> over P \<Longrightarrow> pc (srv_state P) = At_shutdown \<Longrightarrow>
    main_shutdown use_char_device sockfd (srv_state P) = Some (calls, t) \<Longrightarrow>
    live_step use_char_device sockfd P L_shutdown (P\<lparr>srv_state := t\<rparr>)"

inductive_cases live_signal_cases: "live_step u fd P (L_signal sig to_main) P'"
inductive_cases live_client_cases: "live_step u fd P L_client P'"
inductive_cases live_main_cases: "live_step u fd P L_loop P'" "live_step u fd P L_sleep P'"
  "live_step u fd P (L_accept env) P'" "live_step u fd P L_shutdown P'"

text \<open>The process when \<open>main\<close> has come to its loop.\<close>

definition live_start :: "os_call list \<Rightarrow> server \<Rightarrow> live" where
  "live_start calls s = \<lparr>srv_state = s, sig_actions = installed calls, asleep = False, interrupted = False,
     backlog = 0, killed = False\<rparr>"

definition live_init :: "bool \<Rightarrow> live \<Rightarrow> bool" where
  "live_init use_char_device P \<longleftrightarrow>
     (\<exists>os argv calls s. main_setup use_char_device os argv = (calls, Inr s) \<and> P = live_start calls s)"

section \<open>Invariant\<close>

text \<open>Handlers are installed for exactly the signals that \<open>main\<close> names; \<open>main\<close> sleeps only in \<open>accept\<close>.\<close>

definition handled :: "bool \<Rightarrow> signum \<rightharpoonup> sigaction" where
  "handled use_char_device sig =
     (if sig = SIGINT \<or> sig = SIGTERM then Some new_action
      else if sig = SIGALRM \<and> \<not> use_char_device then Some alrm_action else None)"

definition live_inv :: "bool \<Rightarrow> live \<Rightarrow> bool" where
  "live_inv use_char_device P \<longleftrightarrow> server_inv (srv_state P) \<and> sig_actions P = handled use_char_device \<and>
     (asleep P \<longrightarrow> pc (srv_state P) = At_accept \<and> \<not> interrupted P \<and> backlog P = 0) \<and>
     (\<forall>r. pc (srv_state P) = Exited r \<longrightarrow> r = 0)"

lemma setup_installed:
  assumes "main_setup use_char_device os argv = (calls, Inr s)"
  shows "installed calls = handled use_char_device"
proof
  fix sig
  show "installed calls sig = handled use_char_device sig"
    using assms by (cases sig)
      (auto simp: main_setup_def main_signals_def main_timer_def Let_def installed_def handled_def
        split: if_splits)
qed

lemma setup_inv:
  assumes "main_setup use_char_device os argv = (calls, Inr s)"
  shows "server_inv s \<and> pc s = At_loop"
proof -
  have "s = server_start" using assms server_init_start by (metis server_init_def snd_conv)
  then show ?thesis using server_start_inv by (simp add: server_start_def)
qed

lemma signal_handler_frame [simp]:
  "server_inv (signal_handler sig s) = server_inv s" "pc (signal_handler sig s) = pc s"
  "threads (signal_handler sig s) = threads s"
  by (simp_all add: signal_handler_def)

lemma deliver_frame [simp]:
  "sig_actions (deliver sig m P) = sig_actions P" "backlog (deliver sig m P) = backlog P"
  "pc (srv_state (deliver sig m P)) = pc (srv_state P)" "server_inv (srv_state (deliver sig m P)) = server_inv (srv_state P)"
  by (auto simp: deliver_def Let_def split: option.splits handler_fun.splits)

lemma deliver_asleep: "asleep (deliver sig m P) \<Longrightarrow> asleep P \<and> interrupted (deliver sig m P) = interrupted P"
  by (auto simp: deliver_def Let_def split: option.splits handler_fun.splits if_splits)

lemma conn_finish_frame: "conn_finish tid s = Some t \<Longrightarrow> pc t = pc s \<and> server_running t = server_running s"
  by (auto simp: conn_finish_def close_client_def split: Option.bind_splits if_splits)

lemma main_shutdown_frame:
  assumes "server_inv s" and "main_shutdown u fd s = Some (calls, t)"
  shows "server_inv t \<and> pc t = Exited 0 \<and> server_running t = server_running s"
  using main_shutdown_reaped [OF assms(1), of u fd] assms(2) by (auto simp: reaped_def)

interpretation lv: invariant_system "live_init u" "live_step u fd" "live_inv u" for u fd
proof unfold_locales
  show "live_init u P \<Longrightarrow> live_inv u P" for P
    by (auto simp: live_init_def live_inv_def live_start_def setup_installed dest: setup_inv)
  show "live_inv u P \<Longrightarrow> live_step u fd P l P' \<Longrightarrow> live_inv u P'" for P l P'
  proof -
    assume inv: "live_inv u P" and step: "live_step u fd P l P'"
    from step show ?thesis
    proof cases
      case (l_signal to_main sig)
      with inv show ?thesis by (auto simp: live_inv_def dest: deliver_asleep)
    next
      case (l_finish tid t)
      with inv conn_finish_inv [of "srv_state P" tid t] conn_finish_frame [of tid "srv_state P" t] show ?thesis
        by (auto simp: live_inv_def)
    next
      case (l_accept env t)
      with inv accept_body_inv [of "srv_state P" env] accept_body_frame [of "srv_state P" env t] show ?thesis
        by (auto simp: live_inv_def)
    next
      case (l_shutdown calls t)
      with inv main_shutdown_frame [of "srv_state P" u fd calls t] show ?thesis by (auto simp: live_inv_def)
    qed (use inv in \<open>auto simp: live_inv_def loop_test_def\<close>)
  qed
qed

section \<open>What signals do\<close>

text \<open>Every step is one of the server's, or does nothing to its state.\<close>

lemma live_step_server:
  assumes "live_step u fd P l P'"
  shows "srv_state P' = srv_state P \<or> (\<exists>l'. server_step (srv_state P) l' (srv_state P'))"
  using assms
proof cases
  case (l_signal to_main sig)
  have "srv_state P' = srv_state P \<or> srv_state P' = signal_handler sig (srv_state P)"
    by (auto simp: l_signal deliver_def Let_def split: option.splits handler_fun.splits)
  then show ?thesis using s_signal by metis
qed (auto intro: server_step.intros)

lemma live_refines_server:
  assumes "reach (live_init u) (live_step u fd) P"
  shows "reach server_init server_step (srv_state P)"
  using assms
proof (induction rule: reach.induct)
  case (reach_init P)
  then show ?case by (auto simp: live_init_def live_start_def server_init_def intro!: reach.reach_init) (metis snd_conv)
next
  case (reach_step P l P')
  then show ?case using live_step_server [OF reach_step(2)] by (auto intro: reach.reach_step)
qed

text \<open>
  After a termination signal, unless \<open>main\<close> is about to enter an \<open>accept\<close> that has nothing to return,
  \<open>main\<close> goes straight to its exit.
\<close>

definition stopping :: "bool \<Rightarrow> live \<Rightarrow> bool" where
  "stopping u P \<longleftrightarrow> live_inv u P \<and> \<not> server_running (srv_state P) \<and> \<not> asleep P \<and>
     (pc (srv_state P) = At_accept \<longrightarrow> interrupted P \<or> 0 < backlog P)"

lemma deliver_awake:
  "\<not> asleep P \<Longrightarrow> \<not> asleep (deliver sig m P) \<and> interrupted (deliver sig m P) = interrupted P"
  by (auto simp: deliver_def Let_def split: option.splits handler_fun.splits)

lemma deliver_running: "server_running (srv_state (deliver sig m P)) \<Longrightarrow> server_running (srv_state P)"
  by (auto simp: deliver_def Let_def signal_handler_def split: option.splits handler_fun.splits if_splits)

lemma stopping_step:
  assumes "stopping u P" and "live_step u fd P l P'"
  shows "stopping u P' \<and> main_rank (pc (srv_state P')) \<le> main_rank (pc (srv_state P)) \<and>
    (main_label l \<longrightarrow> main_rank (pc (srv_state P')) < main_rank (pc (srv_state P)))"
proof -
  have inv: "live_inv u P'" using assms lv.inv_step by (auto simp: stopping_def)
  have s: "server_inv (srv_state P)" using assms(1) by (auto simp: stopping_def live_inv_def)
  from assms(2) show ?thesis
  proof cases
    case (l_signal to_main sig)
    with assms(1) inv deliver_awake deliver_running show ?thesis by (fastforce simp: stopping_def)
  next
    case (l_finish tid t)
    with assms(1) inv conn_finish_frame [of tid "srv_state P" t] show ?thesis by (simp add: stopping_def)
  next
    case (l_accept env t)
    with assms(1) inv accept_body_frame [OF s, of env t] show ?thesis by (auto simp: stopping_def)
  next
    case (l_shutdown calls t)
    with assms(1) inv main_shutdown_frame [OF s, of u fd calls t] show ?thesis by (simp add: stopping_def)
  qed (use assms(1) inv in \<open>auto simp: stopping_def loop_test_def\<close>)
qed

lemma stopping_moves:
  assumes "stopping u P" and "\<not> over P"
  shows "\<exists>l P'. main_label l \<and> live_step u fd P l P'"
proof -
  have s: "server_inv (srv_state P)" using assms(1) by (auto simp: stopping_def live_inv_def)
  show ?thesis
  proof (cases "pc (srv_state P)")
    case At_loop
    with l_loop [OF assms(2)] show ?thesis by (intro exI [of _ L_loop]) auto
  next
    case At_accept
    let ?env = "\<lparr>accept_result = -1, accept_EINTR = interrupted P, accept_addr = 0, malloc_result = NULL,
      pthread_create_result = None\<rparr>"
    have ok: "accept_ok ?env (srv_state P)" by (simp add: accept_ok_def)
    obtain t where "accept_body ?env (srv_state P) = Some t" using accept_body_inv [OF s ok] by blast
    with l_accept [OF assms(2) At_accept _ _ ok] assms(1) show ?thesis
      by (intro exI [of _ "L_accept ?env"]) (auto simp: stopping_def accept_answers_def)
  next
    case At_shutdown
    with l_shutdown [OF assms(2)] main_shutdown_reaped [OF s, of u fd] show ?thesis
      by (intro exI [of _ L_shutdown]) fastforce
  next
    case (Exited r)
    with assms(2) show ?thesis by (simp add: over_def)
  qed
qed

interpretation lx: ranked_progress "live_step u fd" main_label "stopping u" over "\<lambda>P. main_rank (pc (srv_state P))"
  for u fd
  by unfold_locales (use stopping_step stopping_moves in blast)+

text \<open>
  What brings \<open>main\<close> out of \<open>accept\<close> or ends the process: a client, a signal in \<open>main\<close>'s thread whose
  handler does not restart the call, a signal with a deadly default.
\<close>

definition wakes :: "live \<Rightarrow> live_label \<Rightarrow> bool" where
  "wakes P l \<longleftrightarrow> l = L_client \<or>
     (\<exists>sig to_main. l = L_signal sig to_main \<and>
       (case sig_actions P sig of None \<Rightarrow> default_action sig = Terminate | Some a \<Rightarrow> to_main \<and> \<not> SA_RESTART a))"

definition waiting :: "live \<Rightarrow> bool" where
  "waiting P \<longleftrightarrow> \<not> over P \<and> asleep P \<and> pc (srv_state P) = At_accept"

lemma waiting_step:
  assumes "waiting P" and "live_step u fd P l P'" and "\<not> wakes P l"
  shows "waiting P'"
  using assms(2)
proof cases
  case (l_signal to_main sig)
  with assms show ?thesis
    by (auto simp: waiting_def over_def wakes_def deliver_def Let_def split: option.splits handler_fun.splits)
next
  case (l_finish tid t)
  with assms(1) conn_finish_frame [of tid "srv_state P" t] show ?thesis by (simp add: waiting_def over_def)
qed (use assms in \<open>auto simp: waiting_def wakes_def\<close>)

lemma waiting_stuck: "waiting P \<Longrightarrow> main_label l \<Longrightarrow> \<not> live_step u fd P l P'"
  by (cases l) (auto simp: waiting_def elim: live_main_cases)

section \<open>Properties\<close>

text \<open>
  (C10) Liveness.  A \<open>SIGINT\<close> or \<open>SIGTERM\<close> that \<open>main\<close>'s thread receives makes the server exit with 0 in every run
  in which \<open>main\<close> is scheduled fairly, whatever clients, connections and other signals do meanwhile (a
  deadly signal may end it before), and without any client's help.  The one exception is the moment
  between the test of \<open>server_running\<close> and an \<open>accept\<close> for which no client waits.
\<close>

theorem termination_signal_exits:
  assumes "reach (live_init u) (live_step u fd) P" and "\<not> over P" and "sig = SIGINT \<or> sig = SIGTERM"
    and "\<not> (pc (srv_state P) = At_accept \<and> \<not> asleep P \<and> \<not> interrupted P \<and> backlog P = 0)"
    and "is_run (live_step u fd) \<sigma> ls" and "weakly_fair (live_step u fd) main_label \<sigma> ls"
    and "\<sigma> 0 = deliver sig True P"
  shows "\<exists>n. killed (\<sigma> n) \<or> pc (srv_state (\<sigma> n)) = Exited 0"
proof -
  have inv: "live_inv u P" by (rule lv.reach_inv [OF assms(1)])
  then have act: "sig_actions P sig = Some new_action"
    using assms(3) by (auto simp: live_inv_def handled_def)
  have "live_inv u (\<sigma> 0)" using lv.inv_step [OF inv l_signal [of P True u fd sig]] assms(2,7) by simp
  moreover from this have "stopping u (\<sigma> 0)"
    using inv assms(3,4) act
    by (auto simp: stopping_def assms(7) live_inv_def deliver_def new_action_def signal_handler_def)
  moreover from lx.reaches_goal_from [OF assms(5,6) this] obtain n where n: "over (\<sigma> n)" by blast
  moreover have "live_inv u (\<sigma> n)" by (rule lv.run_inv [OF assms(5)]) fact
  ultimately show ?thesis by (auto simp: over_def live_inv_def)
qed

text \<open>
  (C22) The race in that moment.  When a \<open>SIGINT\<close> or \<open>SIGTERM\<close> arrives after the test of \<open>server_running\<close> and
  before \<open>accept\<close>, and no client waits, \<open>main\<close> goes to sleep although the server has been told to stop.
  It stays there, with no step of its own, until a client connects or another such signal arrives:
  the end of connections, alarms and signals taken by other threads do not help.
\<close>

theorem signal_before_accept_lost:
  assumes "reach (live_init u) (live_step u fd) P" and "\<not> over P" and "sig = SIGINT \<or> sig = SIGTERM"
    and "pc (srv_state P) = At_accept" and "\<not> asleep P" and "\<not> interrupted P" and "backlog P = 0"
  shows "\<exists>Q. live_step u fd P (L_signal sig True) (deliver sig True P) \<and>
    live_step u fd (deliver sig True P) L_sleep Q \<and> \<not> server_running (srv_state Q) \<and>
    (\<forall>R. reach (\<lambda>X. X = Q) (\<lambda>X l Y. live_step u fd X l Y \<and> \<not> wakes X l) R \<longrightarrow>
      \<not> over R \<and> asleep R \<and> pc (srv_state R) = At_accept \<and>
      (\<forall>l R'. main_label l \<longrightarrow> \<not> live_step u fd R l R'))"
proof -
  let ?D = "deliver sig True P"
  let ?Q = "?D\<lparr>asleep := True\<rparr>"
  have act: "sig_actions P sig = Some new_action"
    using lv.reach_inv [OF assms(1)] assms(3) by (auto simp: live_inv_def handled_def)
  have D: "?D = P\<lparr>srv_state := signal_handler sig (srv_state P)\<rparr>"
    using act assms(5) by (simp add: deliver_def new_action_def)
  have "\<not> over ?D" using assms(2) by (simp add: D over_def)
  then have sleep: "live_step u fd ?D L_sleep ?Q" using assms(4-7) by (intro l_sleep) (auto simp: D)
  have Q: "waiting ?Q" using \<open>\<not> over ?D\<close> assms(4) by (simp add: waiting_def over_def)
  have "waiting R" if "reach (\<lambda>X. X = ?Q) (\<lambda>X l Y. live_step u fd X l Y \<and> \<not> wakes X l) R" for R
    using that Q waiting_step by (induction rule: reach.induct) auto
  moreover have "live_step u fd P (L_signal sig True) ?D" by (rule l_signal [OF assms(2)]) simp
  moreover have "\<not> server_running (srv_state ?Q)" using assms(3) by (auto simp: D signal_handler_def)
  ultimately show ?thesis
    using sleep waiting_stuck unfolding waiting_def by (intro exI [of _ ?Q]) blast
qed

section \<open>Examples\<close>

text \<open>The process before its first \<open>accept\<close>, asleep in it, and stopped by \<open>SIGTERM\<close> there.\<close>

definition sample_live :: live where
  "sample_live = (live_start (fst (main_setup True \<lparr>socket_result = 3, bind_result = 0, daemon_result = 0,
     sigaction_result = (\<lambda>_. 0), timer_create_result = 0, timer_settime_result = 0\<rparr>
     [''aesdsocket'', ''-d''])) server_start)\<lparr>srv_state := loop_test server_start\<rparr>"

lemma sample_live_reach: "reach (live_init True) (live_step True 3) sample_live"
proof -
  let ?os = "\<lparr>socket_result = 3, bind_result = 0, daemon_result = 0, sigaction_result = (\<lambda>_. 0),
    timer_create_result = 0, timer_settime_result = 0\<rparr>"
  let ?calls = "fst (main_setup True ?os [''aesdsocket'', ''-d''])"
  have "main_setup True ?os [''aesdsocket'', ''-d''] = (?calls, Inr server_start)"
    using sample_setup by (metis prod.collapse)
  then have "live_init True (live_start ?calls server_start)" unfolding live_init_def by blast
  moreover have "live_step True 3 (live_start ?calls server_start) L_loop sample_live"
    using l_loop [of "live_start ?calls server_start" True 3]
    by (simp add: sample_live_def live_start_def over_def server_start_def)
  ultimately show ?thesis by (meson reach.intros)
qed

lemma sample_live_state:
  "pc (srv_state sample_live) = At_accept" "\<not> asleep sample_live" "\<not> interrupted sample_live"
  "backlog sample_live = 0" "\<not> over sample_live" "sig_actions sample_live = handled True"
proof -
  show "sig_actions sample_live = handled True"
    using lv.reach_inv [OF sample_live_reach] by (simp add: live_inv_def)
qed (simp_all add: sample_live_def live_start_def over_def loop_test_def server_start_def)

theorem signal_before_accept_lost_witness:
  "\<exists>Q. live_step True 3 (deliver SIGTERM True sample_live) L_sleep Q \<and> \<not> server_running (srv_state Q)"
  using signal_before_accept_lost [OF sample_live_reach sample_live_state(5), of SIGTERM] sample_live_state
  by auto

definition sample_asleep :: live where
  "sample_asleep = sample_live\<lparr>asleep := True\<rparr>"

lemma sample_asleep_reach: "reach (live_init True) (live_step True 3) sample_asleep"
  unfolding sample_asleep_def using sample_live_state
  by (intro reach.reach_step [OF sample_live_reach l_sleep]) auto

text \<open>\<open>accept\<close> reports \<open>EINTR\<close>, \<open>main\<close> shuts down, and nothing happens any more.\<close>

fun sample_labels :: "nat \<Rightarrow> live_label option" where
  "sample_labels 0 = Some (L_accept \<lparr>accept_result = -1, accept_EINTR = True, accept_addr = 0,
     malloc_result = NULL, pthread_create_result = None\<rparr>)"
| "sample_labels (Suc 0) = Some L_shutdown"
| "sample_labels (Suc (Suc n)) = None"

fun sample_run :: "nat \<Rightarrow> live" where
  "sample_run 0 = deliver SIGTERM True sample_asleep"
| "sample_run (Suc 0) = (let P = deliver SIGTERM True sample_asleep in
     P\<lparr>srv_state := (srv_state P)\<lparr>pc := At_shutdown\<rparr>, interrupted := False, backlog := 0\<rparr>)"
| "sample_run (Suc (Suc n)) = (let P = sample_run (Suc 0) in
     P\<lparr>srv_state := snd (the (main_shutdown True 3 (srv_state P)))\<rparr>)"

lemma sample_run_0:
  "sample_run 0 = sample_live\<lparr>srv_state := signal_handler SIGTERM (srv_state sample_live), interrupted := True\<rparr>"
  using sample_live_state by (simp add: deliver_def sample_asleep_def handled_def new_action_def)

lemma sample_shutdown:
  "\<exists>calls t. main_shutdown True 3 (srv_state (sample_run (Suc 0))) = Some (calls, t) \<and> pc t = Exited 0"
proof -
  have "server_inv (srv_state (sample_run (Suc 0)))"
    using lv.reach_inv [OF sample_asleep_reach] by (simp add: live_inv_def Let_def)
  from main_shutdown_reaped [OF this, of True 3] show ?thesis by force
qed

lemma sample_run_is_run: "is_run (live_step True 3) sample_run sample_labels"
proof -
  have "live_step True 3 (sample_run 0) (the (sample_labels 0)) (sample_run (Suc 0))"
    using l_accept [of "sample_run 0" "\<lparr>accept_result = -1, accept_EINTR = True, accept_addr = 0,
        malloc_result = NULL, pthread_create_result = None\<rparr>"
        "(srv_state (sample_run 0))\<lparr>pc := At_shutdown\<rparr>" True 3] sample_live_state
    by (simp add: sample_run_0 [simplified] over_def accept_answers_def accept_ok_def accept_body_def signal_handler_def)
  moreover have "live_step True 3 (sample_run (Suc 0)) L_shutdown (sample_run (Suc (Suc 0)))"
    using sample_shutdown sample_live_state l_shutdown [of "sample_run (Suc 0)" True 3]
    by (auto simp: Let_def over_def sample_run_0 [simplified])
  ultimately show ?thesis
    unfolding is_run_def by (auto elim!: sample_labels.elims split: option.splits)
qed

theorem termination_signal_exits_witness:
  "\<exists>n. killed (sample_run n) \<or> pc (srv_state (sample_run n)) = Exited 0"
proof -
  have "over (sample_run (Suc (Suc n)))" for n using sample_shutdown by (auto simp: Let_def over_def)
  then have "\<not> live_step True 3 (sample_run (Suc (Suc n))) l P" for n l P by (auto elim: live_step.cases)
  then have "weakly_fair (live_step True 3) main_label sample_run sample_labels"
    unfolding weakly_fair_def by (meson le_SucI order_refl)
  then show ?thesis
    using sample_live_state
    by (intro termination_signal_exits [OF sample_asleep_reach _ _ _ sample_run_is_run, of SIGTERM])
      (auto simp: sample_asleep_def over_def)
qed

end
