(* ===== verification/Queue_Cells.thy ===== *)
theory Queue_Cells
  imports Slist
begin

text \<open>
  The memory behind the queues of \<open>server/queue.h\<close> that keep addresses of pointer fields
  (\<open>STAILQ\<close>, \<open>LIST\<close> and \<open>TAILQ\<close>).  A head and the entry of an element both start with a pointer
  to the next element; a \<open>cell\<close> names such a field by the structure it is in.  The second field
  of a head (\<open>stqh_last\<close>, \<open>tqh_last\<close>) and of an entry (\<open>le_prev\<close>, \<open>tqe_prev\<close>) holds the address of such
  a field, so a cell.  The theory has the accesses and the facts on chains
  of cells that the three kinds of queue share.
\<close>

section \<open>Memory\<close>

datatype cell = Head ptr | Elm ptr

record qmem =
  fwd :: "cell \<rightharpoonup> ptr"
  bwd :: "cell \<rightharpoonup> cell"

text \<open>
  Reads and writes of the first field (\<open>get\<close>, \<open>put\<close>) and of the second (\<open>getb\<close>, \<open>putb\<close>); a structure that
  is not live, or NULL, has none.
\<close>

definition get :: "qmem \<Rightarrow> cell \<Rightarrow> ptr option" where
  "get m c = (if c = Elm NULL then None else fwd m c)"

definition put :: "qmem \<Rightarrow> cell \<Rightarrow> ptr \<Rightarrow> qmem option" where
  "put m c v = do { _ \<leftarrow> get m c; Some (m\<lparr>fwd := (fwd m)(c \<mapsto> v)\<rparr>) }"

definition getb :: "qmem \<Rightarrow> cell \<Rightarrow> cell option" where
  "getb m c = (if c = Elm NULL then None else bwd m c)"

definition putb :: "qmem \<Rightarrow> cell \<Rightarrow> cell \<Rightarrow> qmem option" where
  "putb m c d = do { _ \<leftarrow> getb m c; Some (m\<lparr>bwd := (bwd m)(c \<mapsto> d)\<rparr>) }"

text \<open>\<open>__containerof\<close>: the element whose next field a cell is; a head's field is in no element.\<close>

fun containerof :: "cell \<Rightarrow> ptr option" where
  "containerof (Elm e) = Some e"
| "containerof (Head h) = None"

section \<open>Chains of cells\<close>

text \<open>The last cell of a chain that starts at \<open>c\<close> and visits \<open>xs\<close>.\<close>

fun last_cell :: "cell \<Rightarrow> ptr list \<Rightarrow> cell" where
  "last_cell c [] = c"
| "last_cell c (x # xs) = last_cell (Elm x) xs"

fun fwds :: "(cell \<rightharpoonup> ptr) \<Rightarrow> cell \<Rightarrow> ptr list \<Rightarrow> bool" where
  "fwds f c [] \<longleftrightarrow> True"
| "fwds f c (x # xs) \<longleftrightarrow> f c = Some x \<and> x \<noteq> NULL \<and> fwds f (Elm x) xs"

fun bwds :: "(cell \<rightharpoonup> cell) \<Rightarrow> cell \<Rightarrow> ptr list \<Rightarrow> bool" where
  "bwds b c [] \<longleftrightarrow> True"
| "bwds b c (x # xs) \<longleftrightarrow> b (Elm x) = Some c \<and> bwds b (Elm x) xs"

definition chain :: "(cell \<rightharpoonup> ptr) \<Rightarrow> cell \<Rightarrow> ptr list \<Rightarrow> bool" where
  "chain f c xs \<longleftrightarrow> fwds f c xs \<and> f (last_cell c xs) = Some NULL"

lemma last_cell_append [simp]: "last_cell c (xs @ ys) = last_cell (last_cell c xs) ys"
  by (induction xs arbitrary: c) auto

lemma fwds_append [simp]: "fwds f c (xs @ ys) \<longleftrightarrow> fwds f c xs \<and> fwds f (last_cell c xs) ys"
  by (induction xs arbitrary: c) auto

lemma bwds_append [simp]: "bwds b c (xs @ ys) \<longleftrightarrow> bwds b c xs \<and> bwds b (last_cell c xs) ys"
  by (induction xs arbitrary: c) auto

lemma last_cell_in: "last_cell c xs \<in> insert c (Elm ` set xs)"
  by (induction xs arbitrary: c) auto

lemma last_cell_snoc: "xs \<noteq> [] \<Longrightarrow> last_cell c xs = Elm (last xs)"
  by (induction xs arbitrary: c) auto

lemma last_cell_Head_iff [simp]: "last_cell c xs = Head k \<longleftrightarrow> xs = [] \<and> c = Head k"
  by (cases "xs = []") (auto simp: last_cell_snoc)

lemma last_cell_neq [simp]: "c \<noteq> Elm y \<Longrightarrow> y \<notin> set xs \<Longrightarrow> last_cell c xs \<noteq> Elm y"
  using last_cell_in [of c xs] by auto

lemma chain_Nil [simp]: "chain f c [] \<longleftrightarrow> f c = Some NULL"
  by (simp add: chain_def)

lemma chain_Cons [simp]: "chain f c (x # xs) \<longleftrightarrow> f c = Some x \<and> x \<noteq> NULL \<and> chain f (Elm x) xs"
  by (auto simp: chain_def)

lemma chain_append [simp]: "chain f c (xs @ ys) \<longleftrightarrow> fwds f c xs \<and> chain f (last_cell c xs) ys"
  by (auto simp: chain_def)

lemma chain_fwds: "chain f c xs \<Longrightarrow> fwds f c xs"
  by (simp add: chain_def)

lemma chain_unique: "chain f c xs \<Longrightarrow> chain f c ys \<Longrightarrow> xs = ys"
proof (induction xs arbitrary: c ys)
  case Nil
  then show ?case by (cases ys) auto
next
  case (Cons x xs)
  then show ?case by (cases ys) auto
qed

lemma chain_distinct:
  assumes "chain f c xs"
  shows "distinct xs"
proof (rule ccontr)
  assume "\<not> distinct xs"
  then obtain us vs ws y where xs: "xs = us @ [y] @ vs @ [y] @ ws"
    using not_distinct_decomp by blast
  then have "chain f (Elm y) (vs @ y # ws)" and "chain f (Elm y) ws"
    using assms by auto
  then have "length (vs @ y # ws) = length ws" by (intro arg_cong [where f = length] chain_unique)
  then show False by simp
qed

lemma fwds_nonnull: "fwds f c xs \<Longrightarrow> x \<in> set xs \<Longrightarrow> x \<noteq> NULL"
  by (induction xs arbitrary: c) auto

lemma chain_live: "chain f c xs \<Longrightarrow> x \<in> set xs \<Longrightarrow> f (Elm x) \<noteq> None"
proof (induction xs arbitrary: c)
  case (Cons y xs)
  then show ?case by (cases xs) auto
qed simp

lemma bwds_live: "bwds b c xs \<Longrightarrow> x \<in> set xs \<Longrightarrow> b (Elm x) \<noteq> None"
  by (induction xs arbitrary: c) auto

text \<open>A write outside a chain, or at its last cell, keeps its links.\<close>

lemma fwds_cong:
  "\<forall>d \<in> set (butlast (c # map Elm xs)). f d = g d \<Longrightarrow> fwds f c xs = fwds g c xs"
  by (induction xs arbitrary: c) auto

lemma bwds_cong: "\<forall>x \<in> set xs. b (Elm x) = b' (Elm x) \<Longrightarrow> bwds b c xs = bwds b' c xs"
  by (induction xs arbitrary: c) auto

lemma fwds_upd:
  "d \<noteq> c \<Longrightarrow> d \<notin> Elm ` set xs \<Longrightarrow> fwds (f(d := v)) c xs = fwds f c xs"
  by (rule fwds_cong) (auto dest!: in_set_butlastD)

lemma chain_upd:
  "d \<noteq> c \<Longrightarrow> d \<notin> Elm ` set xs \<Longrightarrow> chain (f(d := v)) c xs = chain f c xs"
  using last_cell_in [of c xs] by (auto simp: chain_def fwds_upd)

lemma fwds_upd_last [simp]:
  assumes "distinct xs" and "c \<notin> Elm ` set xs"
  shows "fwds (f(last_cell c xs := v)) c xs = fwds f c xs"
proof (cases xs rule: rev_cases)
  case (snoc ys y)
  with assms have "Elm y \<notin> set (c # map Elm ys)" by auto
  then show ?thesis by (intro fwds_cong) (auto simp: snoc butlast_append split: if_splits)
qed simp

lemma bwds_upd: "d \<notin> Elm ` set xs \<Longrightarrow> bwds (b(d := v)) c xs = bwds b c xs"
  by (rule bwds_cong) auto

lemma upd_Elm [simp]:
  assumes "y \<notin> set xs"
  shows "c \<noteq> Elm y \<Longrightarrow> fwds (f(Elm y := v)) c xs = fwds f c xs"
    and "c \<noteq> Elm y \<Longrightarrow> chain (f(Elm y := v)) c xs = chain f c xs"
    and "bwds (b(Elm y := w)) c xs = bwds b c xs"
  using assms by (auto simp: fwds_upd chain_upd bwds_upd image_iff)

lemma upd_Head [simp]:
  "c \<noteq> Head h \<Longrightarrow> fwds (f(Head h := v)) c xs = fwds f c xs"
  "c \<noteq> Head h \<Longrightarrow> chain (f(Head h := v)) c xs = chain f c xs"
  "bwds (b(Head h := w)) c xs = bwds b c xs"
  by (auto simp: fwds_upd chain_upd bwds_upd image_iff)

lemma get_live [simp]: "c \<noteq> Elm NULL \<Longrightarrow> get m c = fwd m c" "get m (Head h) = fwd m (Head h)"
  by (simp_all add: get_def)

lemma getb_live [simp]: "c \<noteq> Elm NULL \<Longrightarrow> getb m c = bwd m c" "getb m (Head h) = bwd m (Head h)"
  by (simp_all add: getb_def)

lemma last_cell_live: "fwds f (Head h) xs \<Longrightarrow> last_cell (Head h) xs \<noteq> Elm NULL"
  by (cases "xs = []") (auto simp: last_cell_snoc dest: fwds_nonnull [OF _ last_in_set])

text \<open>The next fields as links, for the loops.\<close>

lemma lseg_fwds:
  "f c = Some p \<Longrightarrow> lseg (\<lambda>e. f (Elm e)) p xs q \<longleftrightarrow> fwds f c xs \<and> f (last_cell c xs) = Some q"
proof (induction xs arbitrary: c p)
  case (Cons x xs)
  then show ?case by (cases "f (Elm x)"; cases xs) auto
qed auto

section \<open>Frames\<close>

text \<open>\<open>same_outside S m m'\<close>: the same structures are live, and only those of \<open>S\<close> may differ.\<close>

definition same_outside :: "cell set \<Rightarrow> qmem \<Rightarrow> qmem \<Rightarrow> bool" where
  "same_outside S m m' \<longleftrightarrow> dom (fwd m') = dom (fwd m) \<and> dom (bwd m') = dom (bwd m) \<and>
     (\<forall>c. c \<notin> S \<longrightarrow> fwd m' c = fwd m c \<and> bwd m' c = bwd m c)"

abbreviation cells_of :: "ptr \<Rightarrow> ptr list \<Rightarrow> cell set" where
  "cells_of h xs \<equiv> insert (Head h) (Elm ` set xs)"

lemma same_outside_trans:
  "same_outside S m m1 \<Longrightarrow> same_outside T m1 m2 \<Longrightarrow> S \<union> T \<subseteq> U \<Longrightarrow> same_outside U m m2"
  unfolding same_outside_def by (metis UnI1 UnI2 subsetD)

lemma same_outside_mono: "same_outside S m m' \<Longrightarrow> S \<subseteq> T \<Longrightarrow> same_outside T m m'"
  by (auto simp: same_outside_def)

lemma same_outside_live:
  assumes "same_outside S m m'"
  shows "fwd m' c = None \<longleftrightarrow> fwd m c = None" and "bwd m' c = None \<longleftrightarrow> bwd m c = None"
  using assms unfolding same_outside_def by (metis domIff)+

text \<open>
  The elements that are live with both fields, and what allocating and freeing one does.
\<close>

definition live_elms :: "qmem \<Rightarrow> ptr set" where
  "live_elms m = {e. fwd m (Elm e) \<noteq> None \<and> bwd m (Elm e) \<noteq> None}"

definition alloc_elm :: "qmem \<Rightarrow> ptr \<Rightarrow> qmem" where
  "alloc_elm m x = m\<lparr>fwd := (fwd m)(Elm x \<mapsto> NULL), bwd := (bwd m)(Elm x \<mapsto> Elm NULL)\<rparr>"

definition free_elm :: "qmem \<Rightarrow> ptr \<Rightarrow> qmem" where
  "free_elm m x = m\<lparr>fwd := (fwd m)(Elm x := None), bwd := (bwd m)(Elm x := None)\<rparr>"

text \<open>An element that can be linked into it.\<close>

definition spare :: "qmem \<Rightarrow> ptr \<Rightarrow> bool" where
  "spare m x \<longleftrightarrow> x \<noteq> NULL \<and> fwd m (Elm x) \<noteq> None \<and> bwd m (Elm x) \<noteq> None"

lemma spare_live: "spare m x \<longleftrightarrow> x \<noteq> NULL \<and> x \<in> live_elms m"
  by (auto simp: spare_def live_elms_def)

lemma live_elms_simps [simp]:
  "live_elms (alloc_elm m x) = insert x (live_elms m)"
  "live_elms (free_elm m x) = live_elms m - {x}"
  by (auto simp: live_elms_def alloc_elm_def free_elm_def)

lemma live_elms_same: "same_outside S m m' \<Longrightarrow> live_elms m' = live_elms m"
  by (simp add: live_elms_def same_outside_live)

lemma chain_frame:
  assumes "same_outside S m m'" and "S \<inter> cells_of h xs = {}"
  shows "chain (fwd m') (Head h) xs = chain (fwd m) (Head h) xs" and "bwds (bwd m') (Head h) xs = bwds (bwd m) (Head h) xs"
    and "bwd m' (Head h) = bwd m (Head h)"
proof -
  have same: "fwd m' c = fwd m c" "bwd m' c = bwd m c" if "c \<in> cells_of h xs" for c
    using assms that by (auto simp: same_outside_def)
  have "fwds (fwd m') (Head h) xs = fwds (fwd m) (Head h) xs"
    by (rule fwds_cong) (auto intro: same(1) dest!: in_set_butlastD)
  then show "chain (fwd m') (Head h) xs = chain (fwd m) (Head h) xs"
    by (simp only: chain_def same(1) [OF last_cell_in])
  show "bwds (bwd m') (Head h) xs = bwds (bwd m) (Head h) xs" by (rule bwds_cong) (simp add: same)
  show "bwd m' (Head h) = bwd m (Head h)" by (simp add: same)
qed

section \<open>Queues with a tail\<close>

text \<open>Taking elements off the front, one after the other.\<close>

fun drain :: "('l \<Rightarrow> ptr option) \<Rightarrow> ('l \<Rightarrow> ptr \<Rightarrow> 'l option) \<Rightarrow> nat \<Rightarrow> 'l \<Rightarrow> (ptr list \<times> 'l) option" where
  "drain first remove 0 s = Some ([], s)"
| "drain first remove (Suc n) s = do {
     x \<leftarrow> first s;
     s1 \<leftarrow> remove s x;
     (xs, s2) \<leftarrow> drain first remove n s1;
     Some (x # xs, s2)
   }"

locale tail_queue = linked_list +
  fixes peek :: "'a \<Rightarrow> ptr option"
    and insert_tail :: "'a \<Rightarrow> ptr \<Rightarrow> 'a option"
  assumes peek_rep: "rep s xs \<Longrightarrow> peek s = Some (first s)"
    and insert_tail_rep: "rep s xs \<Longrightarrow> x \<in> cells s \<Longrightarrow> x \<noteq> NULL \<Longrightarrow> x \<notin> set xs \<Longrightarrow>
      \<exists>s'. insert_tail s x = Some s' \<and> rep s' (xs @ [x]) \<and> cells s' = cells s"
begin

lemma enqueue_all:
  assumes "rep s xs" and "set ys \<subseteq> cells s - {NULL}" and "distinct (xs @ ys)"
  shows "\<exists>s'. visit (\<lambda>x s. insert_tail s x) ys s = Some s' \<and> rep s' (xs @ ys) \<and> cells s' = cells s"
  using assms
proof (induction ys arbitrary: s xs)
  case (Cons y ys)
  then obtain s1 where s1: "insert_tail s y = Some s1" "rep s1 (xs @ [y])" "cells s1 = cells s"
    using insert_tail_rep [of s xs y] by auto
  with Cons.prems Cons.IH [of s1 "xs @ [y]"] show ?case by auto
qed simp

lemma drain_all:
  assumes "rep s (xs @ ys)"
  shows "\<exists>s'. drain peek remove (length xs) s = Some (xs, s') \<and> rep s' ys"
  using assms
proof (induction xs arbitrary: s)
  case (Cons x xs)
  have "peek s = Some x" using peek_rep [OF Cons.prems] rep_first [OF Cons.prems] by simp
  moreover obtain s1 where "remove s x = Some s1" "rep s1 (xs @ ys)"
    using remove_rep [OF Cons.prems, of x] by auto
  ultimately show ?case using Cons.IH [of s1] by auto
qed simp

text \<open>First in, first out.\<close>

lemma fifo:
  assumes "rep s []" and "set ys \<subseteq> cells s - {NULL}" and "distinct ys"
  shows "\<exists>s1 s2. visit (\<lambda>x s. insert_tail s x) ys s = Some s1 \<and>
    drain peek remove (length ys) s1 = Some (ys, s2) \<and> rep s2 []"
  using enqueue_all [OF assms(1,2)] drain_all [of _ ys "[]"] assms(3) by fastforce

end

end
