(* ===== verification/Tailq.thy ===== *)
theory Tailq
  imports Queue_Cells
begin

text \<open>
  The tail queues of \<open>server/queue.h\<close> (the \<open>TAILQ\<close> macros): doubly linked, with the address of the
  last next field in the head.  Every operation takes the flag \<open>A\<close> of \<open>QUEUE_MACRO_DEBUG_ASSERTIONS\<close>;
  the theorems hold for both settings, so the assertions never fail on a well-formed queue.  The
  trace and trash variants of the macros, which change no link of a queue, are left out.
\<close>

section \<open>Operations\<close>

definition TAILQ_EMPTY :: "qmem \<Rightarrow> ptr \<Rightarrow> bool option" where
  "TAILQ_EMPTY m head = do { f \<leftarrow> get m (Head head); Some (f = NULL) }"

definition TAILQ_FIRST :: "qmem \<Rightarrow> ptr \<Rightarrow> ptr option" where
  "TAILQ_FIRST m head = get m (Head head)"

definition TAILQ_NEXT :: "qmem \<Rightarrow> ptr \<Rightarrow> ptr option" where
  "TAILQ_NEXT m elm = get m (Elm elm)"

definition QMD_TAILQ_CHECK_HEAD :: "bool \<Rightarrow> qmem \<Rightarrow> ptr \<Rightarrow> unit option" where
  "QMD_TAILQ_CHECK_HEAD A m head = QMD_ASSERT A (do {
     f \<leftarrow> TAILQ_FIRST m head;
     if f = NULL then Some True else do { p \<leftarrow> getb m (Elm f); Some (p = Head head) }
   })"

definition QMD_TAILQ_CHECK_TAIL :: "bool \<Rightarrow> qmem \<Rightarrow> ptr \<Rightarrow> unit option" where
  "QMD_TAILQ_CHECK_TAIL A m head = QMD_ASSERT A (do {
     l \<leftarrow> getb m (Head head);
     v \<leftarrow> get m l;
     Some (v = NULL)
   })"

definition QMD_TAILQ_CHECK_NEXT :: "bool \<Rightarrow> qmem \<Rightarrow> ptr \<Rightarrow> unit option" where
  "QMD_TAILQ_CHECK_NEXT A m elm = QMD_ASSERT A (do {
     n \<leftarrow> TAILQ_NEXT m elm;
     if n = NULL then Some True else do { p \<leftarrow> getb m (Elm n); Some (p = Elm elm) }
   })"

definition QMD_TAILQ_CHECK_PREV :: "bool \<Rightarrow> qmem \<Rightarrow> ptr \<Rightarrow> unit option" where
  "QMD_TAILQ_CHECK_PREV A m elm = QMD_ASSERT A (do {
     p \<leftarrow> getb m (Elm elm);
     v \<leftarrow> get m p;
     Some (v = elm)
   })"

definition TAILQ_ASSERT_NONEMPTY :: "bool \<Rightarrow> qmem \<Rightarrow> ptr \<Rightarrow> unit option" where
  "TAILQ_ASSERT_NONEMPTY A m head = QMD_ASSERT A (map_option Not (TAILQ_EMPTY m head))"

definition TAILQ_INIT :: "qmem \<Rightarrow> ptr \<Rightarrow> qmem option" where
  "TAILQ_INIT m head = do {
     m1 \<leftarrow> put m (Head head) NULL;
     putb m1 (Head head) (Head head)
   }"

definition TAILQ_CONCAT :: "qmem \<Rightarrow> ptr \<Rightarrow> ptr \<Rightarrow> qmem option" where
  "TAILQ_CONCAT m head1 head2 = do {
     empty \<leftarrow> TAILQ_EMPTY m head2;
     if empty then Some m
     else do {
       last1 \<leftarrow> getb m (Head head1);
       first2 \<leftarrow> get m (Head head2);
       m1 \<leftarrow> put m last1 first2;
       m2 \<leftarrow> putb m1 (Elm first2) last1;
       last2 \<leftarrow> getb m2 (Head head2);
       m3 \<leftarrow> putb m2 (Head head1) last2;
       TAILQ_INIT m3 head2
     }
   }"

definition TAILQ_INSERT_AFTER :: "bool \<Rightarrow> qmem \<Rightarrow> ptr \<Rightarrow> ptr \<Rightarrow> ptr \<Rightarrow> qmem option" where
  "TAILQ_INSERT_AFTER A m head listelm elm = do {
     _ \<leftarrow> QMD_TAILQ_CHECK_NEXT A m listelm;
     n \<leftarrow> TAILQ_NEXT m listelm;
     m1 \<leftarrow> put m (Elm elm) n;
     m2 \<leftarrow> (if n \<noteq> NULL then putb m1 (Elm n) (Elm elm) else putb m1 (Head head) (Elm elm));
     m3 \<leftarrow> put m2 (Elm listelm) elm;
     putb m3 (Elm elm) (Elm listelm)
   }"

definition TAILQ_INSERT_BEFORE :: "bool \<Rightarrow> qmem \<Rightarrow> ptr \<Rightarrow> ptr \<Rightarrow> qmem option" where
  "TAILQ_INSERT_BEFORE A m listelm elm = do {
     _ \<leftarrow> QMD_TAILQ_CHECK_PREV A m listelm;
     p \<leftarrow> getb m (Elm listelm);
     m1 \<leftarrow> putb m (Elm elm) p;
     m2 \<leftarrow> put m1 (Elm elm) listelm;
     p' \<leftarrow> getb m2 (Elm listelm);
     m3 \<leftarrow> put m2 p' elm;
     putb m3 (Elm listelm) (Elm elm)
   }"

definition TAILQ_INSERT_HEAD :: "bool \<Rightarrow> qmem \<Rightarrow> ptr \<Rightarrow> ptr \<Rightarrow> qmem option" where
  "TAILQ_INSERT_HEAD A m head elm = do {
     _ \<leftarrow> QMD_TAILQ_CHECK_HEAD A m head;
     f \<leftarrow> TAILQ_FIRST m head;
     m1 \<leftarrow> put m (Elm elm) f;
     m2 \<leftarrow> (if f \<noteq> NULL then putb m1 (Elm f) (Elm elm) else putb m1 (Head head) (Elm elm));
     m3 \<leftarrow> put m2 (Head head) elm;
     putb m3 (Elm elm) (Head head)
   }"

definition TAILQ_INSERT_TAIL :: "bool \<Rightarrow> qmem \<Rightarrow> ptr \<Rightarrow> ptr \<Rightarrow> qmem option" where
  "TAILQ_INSERT_TAIL A m head elm = do {
     _ \<leftarrow> QMD_TAILQ_CHECK_TAIL A m head;
     m1 \<leftarrow> put m (Elm elm) NULL;
     l \<leftarrow> getb m1 (Head head);
     m2 \<leftarrow> putb m1 (Elm elm) l;
     l' \<leftarrow> getb m2 (Head head);
     m3 \<leftarrow> put m2 l' elm;
     putb m3 (Head head) (Elm elm)
   }"

text \<open>
  \<open>TAILQ_LAST\<close> and \<open>TAILQ_PREV\<close> read the structure that the address of a next field starts as a head:
  its second field is the \<open>tqh_last\<close> of a head or the \<open>tqe_prev\<close> of an entry.
\<close>

definition TAILQ_LAST :: "qmem \<Rightarrow> ptr \<Rightarrow> ptr option" where
  "TAILQ_LAST m head = do { l \<leftarrow> getb m (Head head); ll \<leftarrow> getb m l; get m ll }"

definition TAILQ_LAST_FAST :: "qmem \<Rightarrow> ptr \<Rightarrow> ptr option" where
  "TAILQ_LAST_FAST m head = do {
     empty \<leftarrow> TAILQ_EMPTY m head;
     if empty then Some NULL else do { l \<leftarrow> getb m (Head head); containerof l }
   }"

definition TAILQ_PREV :: "qmem \<Rightarrow> ptr \<Rightarrow> ptr option" where
  "TAILQ_PREV m elm = do { p \<leftarrow> getb m (Elm elm); pl \<leftarrow> getb m p; get m pl }"

definition TAILQ_PREV_FAST :: "qmem \<Rightarrow> ptr \<Rightarrow> ptr \<Rightarrow> ptr option" where
  "TAILQ_PREV_FAST m elm head = do {
     p \<leftarrow> getb m (Elm elm);
     if p = Head head then Some NULL else containerof p
   }"

definition TAILQ_REMOVE :: "bool \<Rightarrow> qmem \<Rightarrow> ptr \<Rightarrow> ptr \<Rightarrow> qmem option" where
  "TAILQ_REMOVE A m head elm = do {
     _ \<leftarrow> QMD_TAILQ_CHECK_NEXT A m elm;
     _ \<leftarrow> QMD_TAILQ_CHECK_PREV A m elm;
     n \<leftarrow> TAILQ_NEXT m elm;
     p \<leftarrow> getb m (Elm elm);
     m1 \<leftarrow> (if n \<noteq> NULL then putb m (Elm n) p else putb m (Head head) p);
     p' \<leftarrow> getb m1 (Elm elm);
     n' \<leftarrow> TAILQ_NEXT m1 elm;
     put m1 p' n'
   }"

definition TAILQ_REMOVE_HEAD :: "bool \<Rightarrow> qmem \<Rightarrow> ptr \<Rightarrow> qmem option" where
  "TAILQ_REMOVE_HEAD A m head = do { f \<leftarrow> TAILQ_FIRST m head; TAILQ_REMOVE A m head f }"

definition TAILQ_REPLACE :: "bool \<Rightarrow> qmem \<Rightarrow> ptr \<Rightarrow> ptr \<Rightarrow> ptr \<Rightarrow> qmem option" where
  "TAILQ_REPLACE A m head elm elm2 = do {
     _ \<leftarrow> QMD_TAILQ_CHECK_NEXT A m elm;
     _ \<leftarrow> QMD_TAILQ_CHECK_PREV A m elm;
     n \<leftarrow> TAILQ_NEXT m elm;
     m1 \<leftarrow> put m (Elm elm2) n;
     n2 \<leftarrow> TAILQ_NEXT m1 elm2;
     m2 \<leftarrow> (if n2 \<noteq> NULL then putb m1 (Elm n2) (Elm elm2) else putb m1 (Head head) (Elm elm2));
     p \<leftarrow> getb m2 (Elm elm);
     m3 \<leftarrow> putb m2 (Elm elm2) p;
     p2 \<leftarrow> getb m3 (Elm elm2);
     put m3 p2 elm2
   }"

definition TAILQ_SPLIT_AFTER :: "bool \<Rightarrow> qmem \<Rightarrow> ptr \<Rightarrow> ptr \<Rightarrow> ptr \<Rightarrow> qmem option" where
  "TAILQ_SPLIT_AFTER A m head elm rest = do {
     _ \<leftarrow> TAILQ_ASSERT_NONEMPTY A m head;
     _ \<leftarrow> QMD_TAILQ_CHECK_TAIL A m head;
     n \<leftarrow> TAILQ_NEXT m elm;
     if n = NULL then TAILQ_INIT m rest
     else do {
       m1 \<leftarrow> put m (Head rest) n;
       l \<leftarrow> getb m1 (Head head);
       m2 \<leftarrow> putb m1 (Head rest) l;
       n' \<leftarrow> TAILQ_NEXT m2 elm;
       m3 \<leftarrow> putb m2 (Elm n') (Head rest);
       m4 \<leftarrow> put m3 (Elm elm) NULL;
       putb m4 (Head head) (Elm elm)
     }
   }"

text \<open>The end of \<open>TAILQ_SWAP\<close>, run for each head: its first element, or itself, refers back to it.\<close>

definition tailq_fix_head :: "qmem \<Rightarrow> ptr \<Rightarrow> qmem option" where
  "tailq_fix_head m head = do {
     f \<leftarrow> TAILQ_FIRST m head;
     if f \<noteq> NULL then putb m (Elm f) (Head head) else putb m (Head head) (Head head)
   }"

definition TAILQ_SWAP :: "qmem \<Rightarrow> ptr \<Rightarrow> ptr \<Rightarrow> qmem option" where
  "TAILQ_SWAP m head1 head2 = do {
     swap_first \<leftarrow> TAILQ_FIRST m head1;
     swap_last \<leftarrow> getb m (Head head1);
     f2 \<leftarrow> TAILQ_FIRST m head2;
     m1 \<leftarrow> put m (Head head1) f2;
     l2 \<leftarrow> getb m1 (Head head2);
     m2 \<leftarrow> putb m1 (Head head1) l2;
     m3 \<leftarrow> put m2 (Head head2) swap_first;
     m4 \<leftarrow> putb m3 (Head head2) swap_last;
     m5 \<leftarrow> tailq_fix_head m4 head1;
     tailq_fix_head m5 head2
   }"

text \<open>
  Traversals, by the loops of \<open>Slist\<close>: the body works on a state whose queue memory is \<open>mem\<close>.
\<close>

definition TAILQ_FOREACH ::
  "('s \<Rightarrow> qmem) \<Rightarrow> (ptr \<Rightarrow> 's \<Rightarrow> 's option) \<Rightarrow> ptr \<Rightarrow> 's \<Rightarrow> 's option"
where
  "TAILQ_FOREACH mem body head s = do {
     var \<leftarrow> TAILQ_FIRST (mem s) head;
     SLIST_FOREACH (\<lambda>s. TAILQ_NEXT (mem s)) body var s
   }"

definition TAILQ_FOREACH_SAFE ::
  "('s \<Rightarrow> qmem) \<Rightarrow> (ptr \<Rightarrow> 's \<Rightarrow> 's option) \<Rightarrow> ptr \<Rightarrow> 's \<Rightarrow> 's option"
where
  "TAILQ_FOREACH_SAFE mem body head s = do {
     var \<leftarrow> TAILQ_FIRST (mem s) head;
     SLIST_FOREACH_SAFE (\<lambda>s. TAILQ_NEXT (mem s)) body var s
   }"

definition TAILQ_FOREACH_REVERSE ::
  "('s \<Rightarrow> qmem) \<Rightarrow> (ptr \<Rightarrow> 's \<Rightarrow> 's option) \<Rightarrow> ptr \<Rightarrow> 's \<Rightarrow> 's option"
where
  "TAILQ_FOREACH_REVERSE mem body head s = do {
     var \<leftarrow> TAILQ_LAST (mem s) head;
     SLIST_FOREACH (\<lambda>s. TAILQ_PREV (mem s)) body var s
   }"

definition TAILQ_FOREACH_REVERSE_SAFE ::
  "('s \<Rightarrow> qmem) \<Rightarrow> (ptr \<Rightarrow> 's \<Rightarrow> 's option) \<Rightarrow> ptr \<Rightarrow> 's \<Rightarrow> 's option"
where
  "TAILQ_FOREACH_REVERSE_SAFE mem body head s = do {
     var \<leftarrow> TAILQ_LAST (mem s) head;
     SLIST_FOREACH_SAFE (\<lambda>s. TAILQ_PREV (mem s)) body var s
   }"

section \<open>The queue of a head\<close>

definition tailq :: "qmem \<Rightarrow> ptr \<Rightarrow> ptr list \<Rightarrow> bool" where
  "tailq m head xs \<longleftrightarrow> chain (fwd m) (Head head) xs \<and> bwds (bwd m) (Head head) xs \<and>
     bwd m (Head head) = Some (last_cell (Head head) xs)"

lemmas tailq_ops = TAILQ_EMPTY_def TAILQ_FIRST_def TAILQ_NEXT_def QMD_TAILQ_CHECK_HEAD_def
  QMD_TAILQ_CHECK_TAIL_def QMD_TAILQ_CHECK_NEXT_def QMD_TAILQ_CHECK_PREV_def
  TAILQ_ASSERT_NONEMPTY_def put_def putb_def

lemma tailq_frame:
  "same_outside S m m' \<Longrightarrow> S \<inter> cells_of h xs = {} \<Longrightarrow> tailq m' h xs = tailq m h xs"
  unfolding tailq_def by (simp only: chain_frame)

lemma tailq_distinct: "tailq m h xs \<Longrightarrow> distinct xs"
  by (auto simp: tailq_def intro: chain_distinct)

lemma tailq_spare: "tailq m h xs \<Longrightarrow> x \<in> set xs \<Longrightarrow> spare m x"
  unfolding tailq_def spare_def
  by (metis chain_fwds chain_live bwds_live fwds_nonnull)

lemma tailq_first: "tailq m h xs \<Longrightarrow> fwd m (Head h) = Some (head_ptr xs)"
  by (cases xs) (auto simp: tailq_def)

lemma tailq_next: "tailq m h (xs @ x # ys) \<Longrightarrow> fwd m (Elm x) = Some (head_ptr ys)"
  by (cases ys) (auto simp: tailq_def)

lemmas tailq_simps = tailq_ops tailq_def spare_def same_outside_def

lemma insert_head_tailq:
  assumes "tailq m h xs" and "spare m x" and "x \<notin> set xs"
  shows "\<exists>m'. TAILQ_INSERT_HEAD A m h x = Some m' \<and> tailq m' h (x # xs) \<and>
    same_outside (cells_of h (x # xs)) m m'"
  using assms tailq_distinct [OF assms(1)]
  by (cases xs) (auto simp: TAILQ_INSERT_HEAD_def tailq_simps)

lemma insert_tail_tailq:
  assumes "tailq m h xs" and "spare m x" and "x \<notin> set xs"
  shows "\<exists>m'. TAILQ_INSERT_TAIL A m h x = Some m' \<and> tailq m' h (xs @ [x]) \<and>
    same_outside (cells_of h (x # xs)) m m'"
  using assms tailq_distinct [OF assms(1)]
  by (cases xs rule: rev_cases) (auto simp: TAILQ_INSERT_TAIL_def tailq_simps)

lemma insert_after_tailq:
  assumes "tailq m h (xs @ x # ys)" and "spare m y" and "y \<notin> set (xs @ x # ys)"
  shows "\<exists>m'. TAILQ_INSERT_AFTER A m h x y = Some m' \<and> tailq m' h (xs @ x # y # ys) \<and>
    same_outside (cells_of h (y # xs @ x # ys)) m m'"
  using assms tailq_distinct [OF assms(1)]
  by (cases ys) (auto simp: TAILQ_INSERT_AFTER_def tailq_simps)

lemma insert_before_tailq:
  assumes "tailq m h (xs @ x # ys)" and "spare m y" and "y \<notin> set (xs @ x # ys)"
  shows "\<exists>m'. TAILQ_INSERT_BEFORE A m x y = Some m' \<and> tailq m' h (xs @ y # x # ys) \<and>
    same_outside (cells_of h (y # xs @ x # ys)) m m'"
  using assms tailq_distinct [OF assms(1)]
  by (cases xs rule: rev_cases) (auto simp: TAILQ_INSERT_BEFORE_def tailq_simps)

lemma remove_tailq:
  assumes "tailq m h (xs @ x # ys)"
  shows "\<exists>m'. TAILQ_REMOVE A m h x = Some m' \<and> tailq m' h (xs @ ys) \<and>
    same_outside (cells_of h (xs @ ys)) m m'"
  using assms tailq_distinct [OF assms(1)]
  by (cases xs rule: rev_cases; cases ys) (auto simp: TAILQ_REMOVE_def tailq_simps)

lemma remove_head_tailq:
  assumes "tailq m h (x # xs)"
  shows "\<exists>m'. TAILQ_REMOVE_HEAD A m h = Some m' \<and> tailq m' h xs \<and> same_outside (cells_of h xs) m m'"
  using remove_tailq [of m h "[]" x xs] tailq_first [OF assms] assms
  by (simp add: TAILQ_REMOVE_HEAD_def TAILQ_FIRST_def)

lemma replace_tailq:
  assumes "tailq m h (xs @ x # ys)" and "spare m y" and "y \<notin> set (xs @ x # ys)"
  shows "\<exists>m'. TAILQ_REPLACE A m h x y = Some m' \<and> tailq m' h (xs @ y # ys) \<and>
    same_outside (cells_of h (xs @ y # ys)) m m'"
  using assms tailq_distinct [OF assms(1)]
  by (cases xs rule: rev_cases; cases ys) (auto simp: TAILQ_REPLACE_def tailq_simps)

lemma init_tailq:
  assumes "fwd m (Head h) \<noteq> None" and "bwd m (Head h) \<noteq> None"
  shows "\<exists>m'. TAILQ_INIT m h = Some m' \<and> tailq m' h [] \<and> same_outside {Head h} m m'"
  using assms by (auto simp: TAILQ_INIT_def tailq_simps)

lemma check_tail_tailq: "tailq m h xs \<Longrightarrow> QMD_TAILQ_CHECK_TAIL A m h = Some ()"
  by (cases xs rule: rev_cases) (auto simp: tailq_simps)

lemma split_after_tailq:
  assumes "tailq m h (xs @ x # ys)" and "fwd m (Head r) \<noteq> None" and "bwd m (Head r) \<noteq> None" and "r \<noteq> h"
  shows "\<exists>m'. TAILQ_SPLIT_AFTER A m h x r = Some m' \<and> tailq m' h (xs @ [x]) \<and> tailq m' r ys \<and>
    same_outside (insert (Head r) (cells_of h (xs @ x # ys))) m m'"
proof -
  have checks: "QMD_TAILQ_CHECK_TAIL A m h = Some ()" "TAILQ_ASSERT_NONEMPTY A m h = Some ()"
    using check_tail_tailq [OF assms(1)] assms(1) by (cases xs; simp add: tailq_simps)+
  show ?thesis
    using assms tailq_distinct [OF assms(1)]
    by (cases ys) (auto simp: TAILQ_SPLIT_AFTER_def checks TAILQ_INIT_def TAILQ_NEXT_def put_def
        putb_def tailq_def same_outside_def)
qed

lemma concat_tailq:
  assumes "tailq m h xs" and "tailq m k ys" and "h \<noteq> k" and "set xs \<inter> set ys = {}"
  shows "\<exists>m'. TAILQ_CONCAT m h k = Some m' \<and> tailq m' h (xs @ ys) \<and> tailq m' k [] \<and>
    same_outside (cells_of h xs \<union> cells_of k ys) m m'"
  using assms tailq_distinct [OF assms(1)] tailq_distinct [OF assms(2)]
  by (cases xs rule: rev_cases; cases ys)
    (auto simp: TAILQ_CONCAT_def TAILQ_INIT_def tailq_simps)

lemma swap_tailq:
  assumes "tailq m h xs" and "tailq m k ys" and "h \<noteq> k" and "set xs \<inter> set ys = {}"
  shows "\<exists>m'. TAILQ_SWAP m h k = Some m' \<and> tailq m' h ys \<and> tailq m' k xs \<and>
    same_outside (cells_of h xs \<union> cells_of k ys) m m'"
  using assms tailq_distinct [OF assms(1)] tailq_distinct [OF assms(2)]
  by (cases xs; cases ys) (auto simp: TAILQ_SWAP_def tailq_fix_head_def tailq_simps)

section \<open>Reading from both ends\<close>

abbreviation last_ptr :: "ptr list \<Rightarrow> ptr" where
  "last_ptr xs \<equiv> (if xs = [] then NULL else last xs)"

lemma last_tailq:
  assumes "tailq m h xs"
  shows "TAILQ_LAST m h = Some (last_ptr xs)" and "TAILQ_LAST_FAST m h = Some (last_ptr xs)"
proof -
  show "TAILQ_LAST m h = Some (last_ptr xs)"
    using assms by (cases xs rule: rev_cases; cases "butlast xs" rule: rev_cases)
      (auto simp: TAILQ_LAST_def tailq_simps)
  show "TAILQ_LAST_FAST m h = Some (last_ptr xs)"
    using assms by (cases xs rule: rev_cases; cases "butlast xs")
      (auto simp: TAILQ_LAST_FAST_def tailq_simps)
qed

lemma prev_tailq:
  assumes "tailq m h (xs @ x # ys)"
  shows "TAILQ_PREV m x = Some (last_ptr xs)" and "TAILQ_PREV_FAST m x h = Some (last_ptr xs)"
proof -
  have x: "x \<noteq> NULL" using assms by (auto simp: tailq_def)
  show "TAILQ_PREV m x = Some (last_ptr xs)"
    using assms x by (cases xs rule: rev_cases; cases "butlast xs" rule: rev_cases; cases ys rule: rev_cases)
      (auto simp: TAILQ_PREV_def tailq_simps)
  show "TAILQ_PREV_FAST m x h = Some (last_ptr xs)"
    using assms x by (cases xs rule: rev_cases) (auto simp: TAILQ_PREV_FAST_def tailq_simps)
qed

section \<open>The contract\<close>

lemma tailq_alloc [simp]: "x \<notin> set xs \<Longrightarrow> tailq (alloc_elm m x) h xs = tailq m h xs"
  by (simp add: tailq_def alloc_elm_def)

lemma tailq_free [simp]: "x \<notin> set xs \<Longrightarrow> tailq (free_elm m x) h xs = tailq m h xs"
  by (simp add: tailq_def free_elm_def)

interpretation tq: tail_queue "\<lambda>m xs. tailq m h xs" live_elms "\<lambda>m. the (TAILQ_FIRST m h)" TAILQ_NEXT
  "\<lambda>m x. TAILQ_INSERT_HEAD A m h x" "\<lambda>m x. TAILQ_REMOVE A m h x" alloc_elm free_elm
  "\<lambda>m. TAILQ_FIRST m h" "\<lambda>m x. TAILQ_INSERT_TAIL A m h x" for A h
proof (unfold_locales, goal_cases)
  case (1 s xs)
  then show ?case by (rule tailq_distinct)
next
  case (2 s xs x)
  then show ?case using tailq_spare by (auto simp: spare_live)
next
  case (3 s xs)
  then show ?case by (simp add: TAILQ_FIRST_def tailq_first)
next
  case (4 s xs x ys)
  then show ?case
    using tailq_spare [OF 4, of x] by (simp add: TAILQ_NEXT_def spare_def tailq_next)
next
  case (5 s xs x)
  then show ?case using insert_head_tailq [of s h xs x A] by (auto simp: spare_live live_elms_same)
next
  case (6 s xs x)
  then obtain ys zs where xs: "xs = ys @ x # zs" by (metis split_list)
  then have "remove1 x xs = ys @ zs" using tailq_distinct [OF 6(1)] by (simp add: remove1_append)
  then show ?case using remove_tailq [of s h ys x zs A] 6(1) xs by (auto simp: live_elms_same)
next
  case (7 s xs x)
  then have "x \<notin> set xs" using tailq_spare [OF 7(1), of x] by (auto simp: spare_live)
  with 7 show ?case by simp
next
  case (8 s xs x)
  then show ?case by simp
next
  case (9 s xs)
  then show ?case by (simp add: TAILQ_FIRST_def tailq_first)
next
  case (10 s xs x)
  then show ?case using insert_tail_tailq [of s h xs x A] by (auto simp: spare_live live_elms_same)
qed

text \<open>Backwards, the queue is the reversed list.\<close>

lemma tailq_backwards:
  assumes "tailq m h xs" and "rev xs = ys @ x # zs"
  shows "x \<noteq> NULL \<and> TAILQ_PREV m x = Some (head_ptr zs)"
proof -
  from assms(2) have xs: "xs = rev zs @ x # rev ys" by (simp add: rev_eq_append_conv)
  then show ?thesis
    using prev_tailq [of m h "rev zs" x] tq.rep_cells [OF assms(1), of x] assms(1) by (cases zs) auto
qed

lemma tailq_last_rev: "tailq m h xs \<Longrightarrow> TAILQ_LAST m h = Some (head_ptr (rev xs))"
  using last_tailq by (cases xs rule: rev_cases) auto

section \<open>Properties\<close>

definition sample_tailq :: qmem where
  "sample_tailq =
     \<lparr>fwd = [Head 1 \<mapsto> 5, Elm 5 \<mapsto> 7, Elm 7 \<mapsto> 2, Elm 2 \<mapsto> 0, Elm 9 \<mapsto> 0, Head 3 \<mapsto> 0, Head 4 \<mapsto> 6, Elm 6 \<mapsto> 0],
      bwd = [Head 1 \<mapsto> Elm 2, Elm 5 \<mapsto> Head 1, Elm 7 \<mapsto> Elm 5, Elm 2 \<mapsto> Elm 7, Elm 9 \<mapsto> Head 9,
        Head 3 \<mapsto> Head 3, Head 4 \<mapsto> Elm 6, Elm 6 \<mapsto> Head 4]\<rparr>"

lemma sample_tailqs: "tailq sample_tailq 1 [5, 7, 2]" "tailq sample_tailq 4 [6]" "tailq sample_tailq 3 []"
  "spare sample_tailq 9"
  by (simp_all add: tailq_def spare_def sample_tailq_def)



text \<open>
  (C25) Traversals of a tail queue, for a body that leaves the links alone and whatever else it does:
  the forward loops run the body on the elements in order and the reverse loops on the reversed
  list, with or without the saved next element; the fast variants of reading the last and the
  previous element agree with the ones that read a next field as a head.
\<close>

theorem TAILQ_traversals:
  assumes "tailq (mem s) h xs" and "\<And>x s s'. body x s = Some s' \<Longrightarrow> mem s' = mem s"
  shows "TAILQ_FOREACH mem body h s = visit body xs s \<and>
    TAILQ_FOREACH_SAFE mem body h s = visit body xs s \<and>
    TAILQ_FOREACH_REVERSE mem body h s = visit body (rev xs) s \<and>
    TAILQ_FOREACH_REVERSE_SAFE mem body h s = visit body (rev xs) s \<and>
    TAILQ_LAST (mem s) h = TAILQ_LAST_FAST (mem s) h \<and>
    (\<forall>x \<in> set xs. TAILQ_PREV (mem s) x = TAILQ_PREV_FAST (mem s) x h)"
proof -
  have ends: "TAILQ_FIRST (mem s) h = Some (head_ptr xs)" "TAILQ_LAST (mem s) h = Some (head_ptr (rev xs))"
    using tailq_first [OF assms(1)] tailq_last_rev [OF assms(1)] by (simp_all add: TAILQ_FIRST_def)
  have keep: "body x s = Some s' \<Longrightarrow> TAILQ_PREV (mem s') = TAILQ_PREV (mem s)" for x s s'
    by (simp add: assms(2))
  have "TAILQ_PREV (mem s) x = TAILQ_PREV_FAST (mem s) x h" if "x \<in> set xs" for x
    using that assms(1) prev_tailq by (metis split_list)
  moreover note tq.foreach_rep [where get = mem and body = body, OF assms]
    foreach_visit [where nx = "\<lambda>s. TAILQ_PREV (mem s)" and body = body and xs = "rev xs",
      OF keep tailq_backwards [OF assms(1)]]
  ultimately show ?thesis
    using last_tailq [OF assms(1)] ends
    by (simp add: TAILQ_FOREACH_def TAILQ_FOREACH_SAFE_def TAILQ_FOREACH_REVERSE_def
        TAILQ_FOREACH_REVERSE_SAFE_def)
qed

theorem TAILQ_traversals_witness:
  "TAILQ_FOREACH_REVERSE fst (\<lambda>x (m, acc). Some (m, acc @ [x])) 1 (sample_tailq, []) =
     Some (sample_tailq, [2, 7, 5])"
  using TAILQ_traversals [of fst "(sample_tailq, [])" 1 "[5, 7, 2]" "\<lambda>x (m, acc). Some (m, acc @ [x])"]
    sample_tailqs by auto

text \<open>
  (C40) A tail queue is first in, first out: elements inserted at the tail of an empty queue, any
  number of them, come off its head in the same order, and leave it empty.
\<close>

theorem TAILQ_fifo:
  assumes "tailq m h []" and "\<forall>y \<in> set ys. spare m y" and "distinct ys"
  shows "\<exists>m1 m2. visit (\<lambda>x m. TAILQ_INSERT_TAIL A m h x) ys m = Some m1 \<and>
    drain (\<lambda>m. TAILQ_FIRST m h) (\<lambda>m x. TAILQ_REMOVE A m h x) (length ys) m1 = Some (ys, m2) \<and>
    tailq m2 h []"
  using tq.fifo [OF assms(1) _ assms(3)] assms(2) by (auto simp: spare_live)

theorem TAILQ_fifo_witness:
  "\<exists>m1 m2. visit (\<lambda>x m. TAILQ_INSERT_TAIL True m 3 x) [9, 8] (alloc_elm sample_tailq 8) = Some m1 \<and>
    drain (\<lambda>m. TAILQ_FIRST m 3) (\<lambda>m x. TAILQ_REMOVE True m 3 x) 2 m1 = Some ([9, 8], m2)"
proof -
  have "tailq (alloc_elm sample_tailq 8) 3 []" "\<forall>y \<in> set [9, 8]. spare (alloc_elm sample_tailq 8) y"
    using sample_tailqs(3,4) by (simp, simp add: spare_def alloc_elm_def)
  from TAILQ_fifo [OF this, of True] show ?thesis by (auto simp: numeral_2_eq_2)
qed

end
