(* ===== verification/Stailq.thy ===== *)
theory Stailq
  imports Queue_Cells
begin

text \<open>
  The singly linked tail queues of \<open>server/queue.h\<close> (the \<open>STAILQ\<close> macros), with the debug assertions
  under the flag \<open>A\<close> as in \<open>Tailq\<close>.  The two loops, the search of \<open>STAILQ_REMOVE\<close> and \<open>STAILQ_REVERSE\<close>, are
  proved to end.
\<close>

section \<open>Operations\<close>

definition STAILQ_FIRST :: "qmem \<Rightarrow> ptr \<Rightarrow> ptr option" where
  "STAILQ_FIRST m head = get m (Head head)"

definition STAILQ_NEXT :: "qmem \<Rightarrow> ptr \<Rightarrow> ptr option" where
  "STAILQ_NEXT m elm = get m (Elm elm)"

definition QMD_STAILQ_CHECK_EMPTY :: "bool \<Rightarrow> qmem \<Rightarrow> ptr \<Rightarrow> unit option" where
  "QMD_STAILQ_CHECK_EMPTY A m head = QMD_ASSERT A (do { l \<leftarrow> getb m (Head head); Some (l = Head head) })"

definition QMD_STAILQ_CHECK_TAIL :: "bool \<Rightarrow> qmem \<Rightarrow> ptr \<Rightarrow> unit option" where
  "QMD_STAILQ_CHECK_TAIL A m head =
     QMD_ASSERT A (do { l \<leftarrow> getb m (Head head); v \<leftarrow> get m l; Some (v = NULL) })"

definition STAILQ_EMPTY :: "bool \<Rightarrow> qmem \<Rightarrow> ptr \<Rightarrow> bool option" where
  "STAILQ_EMPTY A m head = do {
     f \<leftarrow> STAILQ_FIRST m head;
     _ \<leftarrow> (if f = NULL then QMD_STAILQ_CHECK_EMPTY A m head else Some ());
     Some (f = NULL)
   }"

definition STAILQ_ASSERT_NONEMPTY :: "bool \<Rightarrow> qmem \<Rightarrow> ptr \<Rightarrow> unit option" where
  "STAILQ_ASSERT_NONEMPTY A m head = QMD_ASSERT A (map_option Not (STAILQ_EMPTY A m head))"

definition STAILQ_INIT :: "qmem \<Rightarrow> ptr \<Rightarrow> qmem option" where
  "STAILQ_INIT m head = do {
     m1 \<leftarrow> put m (Head head) NULL;
     putb m1 (Head head) (Head head)
   }"

definition STAILQ_CONCAT :: "bool \<Rightarrow> qmem \<Rightarrow> ptr \<Rightarrow> ptr \<Rightarrow> qmem option" where
  "STAILQ_CONCAT A m head1 head2 = do {
     empty \<leftarrow> STAILQ_EMPTY A m head2;
     if empty then Some m
     else do {
       l1 \<leftarrow> getb m (Head head1);
       f2 \<leftarrow> STAILQ_FIRST m head2;
       m1 \<leftarrow> put m l1 f2;
       l2 \<leftarrow> getb m1 (Head head2);
       m2 \<leftarrow> putb m1 (Head head1) l2;
       STAILQ_INIT m2 head2
     }
   }"

definition STAILQ_INSERT_AFTER :: "qmem \<Rightarrow> ptr \<Rightarrow> ptr \<Rightarrow> ptr \<Rightarrow> qmem option" where
  "STAILQ_INSERT_AFTER m head tqelm elm = do {
     n \<leftarrow> STAILQ_NEXT m tqelm;
     m1 \<leftarrow> put m (Elm elm) n;
     m2 \<leftarrow> (if n = NULL then putb m1 (Head head) (Elm elm) else Some m1);
     put m2 (Elm tqelm) elm
   }"

definition STAILQ_INSERT_HEAD :: "qmem \<Rightarrow> ptr \<Rightarrow> ptr \<Rightarrow> qmem option" where
  "STAILQ_INSERT_HEAD m head elm = do {
     f \<leftarrow> STAILQ_FIRST m head;
     m1 \<leftarrow> put m (Elm elm) f;
     m2 \<leftarrow> (if f = NULL then putb m1 (Head head) (Elm elm) else Some m1);
     put m2 (Head head) elm
   }"

definition STAILQ_INSERT_TAIL :: "bool \<Rightarrow> qmem \<Rightarrow> ptr \<Rightarrow> ptr \<Rightarrow> qmem option" where
  "STAILQ_INSERT_TAIL A m head elm = do {
     _ \<leftarrow> QMD_STAILQ_CHECK_TAIL A m head;
     prevlast \<leftarrow> getb m (Head head);
     m1 \<leftarrow> put m (Elm elm) NULL;
     m2 \<leftarrow> putb m1 (Head head) (Elm elm);
     put m2 prevlast elm
   }"

definition STAILQ_LAST :: "bool \<Rightarrow> qmem \<Rightarrow> ptr \<Rightarrow> ptr option" where
  "STAILQ_LAST A m head = do {
     empty \<leftarrow> STAILQ_EMPTY A m head;
     if empty then Some NULL else do { l \<leftarrow> getb m (Head head); containerof l }
   }"

definition STAILQ_REMOVE_AFTER :: "qmem \<Rightarrow> ptr \<Rightarrow> ptr \<Rightarrow> qmem option" where
  "STAILQ_REMOVE_AFTER m head elm = do {
     n \<leftarrow> STAILQ_NEXT m elm;
     nn \<leftarrow> STAILQ_NEXT m n;
     m1 \<leftarrow> put m (Elm elm) nn;
     if nn = NULL then putb m1 (Head head) (Elm elm) else Some m1
   }"

definition STAILQ_REMOVE_HEAD :: "qmem \<Rightarrow> ptr \<Rightarrow> qmem option" where
  "STAILQ_REMOVE_HEAD m head = do {
     f \<leftarrow> STAILQ_FIRST m head;
     n \<leftarrow> STAILQ_NEXT m f;
     m1 \<leftarrow> put m (Head head) n;
     if n = NULL then putb m1 (Head head) (Head head) else Some m1
   }"

text \<open>The loop that looks for the element in front of \<open>elm\<close> is the one of \<open>SLIST_REMOVE\<close>.\<close>

abbreviation next_links :: "qmem \<Rightarrow> links" where
  "next_links m \<equiv> (\<lambda>e. fwd m (Elm e))"

definition STAILQ_REMOVE :: "qmem \<Rightarrow> ptr \<Rightarrow> ptr \<Rightarrow> qmem option" where
  "STAILQ_REMOVE m head elm = do {
     f \<leftarrow> STAILQ_FIRST m head;
     if f = elm then STAILQ_REMOVE_HEAD m head
     else do {
       prev \<leftarrow> slist_prev (next_links m) elm f;
       STAILQ_REMOVE_AFTER m head prev
     }
   }"

definition STAILQ_SPLIT_AFTER :: "bool \<Rightarrow> qmem \<Rightarrow> ptr \<Rightarrow> ptr \<Rightarrow> ptr \<Rightarrow> qmem option" where
  "STAILQ_SPLIT_AFTER A m head elm rest = do {
     _ \<leftarrow> STAILQ_ASSERT_NONEMPTY A m head;
     _ \<leftarrow> QMD_STAILQ_CHECK_TAIL A m head;
     n \<leftarrow> STAILQ_NEXT m elm;
     if n = NULL then STAILQ_INIT m rest
     else do {
       m1 \<leftarrow> put m (Head rest) n;
       l \<leftarrow> getb m1 (Head head);
       m2 \<leftarrow> putb m1 (Head rest) l;
       m3 \<leftarrow> put m2 (Elm elm) NULL;
       putb m3 (Head head) (Elm elm)
     }
   }"

text \<open>The end of \<open>STAILQ_SWAP\<close> for one head.\<close>

definition stailq_fix_head :: "qmem \<Rightarrow> ptr \<Rightarrow> qmem option" where
  "stailq_fix_head m head = do {
     f \<leftarrow> STAILQ_FIRST m head;
     if f = NULL then putb m (Head head) (Head head) else Some m
   }"

definition STAILQ_SWAP :: "qmem \<Rightarrow> ptr \<Rightarrow> ptr \<Rightarrow> qmem option" where
  "STAILQ_SWAP m head1 head2 = do {
     swap_first \<leftarrow> STAILQ_FIRST m head1;
     swap_last \<leftarrow> getb m (Head head1);
     f2 \<leftarrow> STAILQ_FIRST m head2;
     m1 \<leftarrow> put m (Head head1) f2;
     l2 \<leftarrow> getb m1 (Head head2);
     m2 \<leftarrow> putb m1 (Head head1) l2;
     m3 \<leftarrow> put m2 (Head head2) swap_first;
     m4 \<leftarrow> putb m3 (Head head2) swap_last;
     m5 \<leftarrow> stailq_fix_head m4 head1;
     stailq_fix_head m5 head2
   }"

partial_function (option) stailq_reverse_loop :: "qmem \<Rightarrow> ptr \<Rightarrow> ptr \<Rightarrow> (qmem \<times> ptr) option" where
  "stailq_reverse_loop m Var Varp =
     (if Var = NULL then Some (m, Varp)
      else do {
        Varn \<leftarrow> STAILQ_NEXT m Var;
        m1 \<leftarrow> put m (Elm Var) Varp;
        stailq_reverse_loop m1 Varn Var
      })"

declare stailq_reverse_loop.simps [code]

definition STAILQ_REVERSE :: "bool \<Rightarrow> qmem \<Rightarrow> ptr \<Rightarrow> qmem option" where
  "STAILQ_REVERSE A m head = do {
     empty \<leftarrow> STAILQ_EMPTY A m head;
     if empty then Some m
     else do {
       f \<leftarrow> STAILQ_FIRST m head;
       (m1, Varp) \<leftarrow> stailq_reverse_loop m f NULL;
       f' \<leftarrow> STAILQ_FIRST m1 head;
       m2 \<leftarrow> putb m1 (Head head) (Elm f');
       put m2 (Head head) Varp
     }
   }"

definition STAILQ_FOREACH ::
  "('s \<Rightarrow> qmem) \<Rightarrow> (ptr \<Rightarrow> 's \<Rightarrow> 's option) \<Rightarrow> ptr \<Rightarrow> 's \<Rightarrow> 's option"
where
  "STAILQ_FOREACH mem body head s = do {
     var \<leftarrow> STAILQ_FIRST (mem s) head;
     SLIST_FOREACH (\<lambda>s. STAILQ_NEXT (mem s)) body var s
   }"

definition STAILQ_FOREACH_SAFE ::
  "('s \<Rightarrow> qmem) \<Rightarrow> (ptr \<Rightarrow> 's \<Rightarrow> 's option) \<Rightarrow> ptr \<Rightarrow> 's \<Rightarrow> 's option"
where
  "STAILQ_FOREACH_SAFE mem body head s = do {
     var \<leftarrow> STAILQ_FIRST (mem s) head;
     SLIST_FOREACH_SAFE (\<lambda>s. STAILQ_NEXT (mem s)) body var s
   }"

section \<open>The queue of a head\<close>

definition stailq :: "qmem \<Rightarrow> ptr \<Rightarrow> ptr list \<Rightarrow> bool" where
  "stailq m head xs \<longleftrightarrow> chain (fwd m) (Head head) xs \<and> bwd m (Head head) = Some (last_cell (Head head) xs)"

lemmas stailq_simps = STAILQ_FIRST_def STAILQ_NEXT_def QMD_STAILQ_CHECK_EMPTY_def
  QMD_STAILQ_CHECK_TAIL_def STAILQ_EMPTY_def STAILQ_ASSERT_NONEMPTY_def put_def putb_def
  stailq_def same_outside_def

lemma stailq_distinct: "stailq m h xs \<Longrightarrow> distinct xs"
  by (auto simp: stailq_def intro: chain_distinct)

lemma stailq_live: "stailq m h xs \<Longrightarrow> x \<in> set xs \<Longrightarrow> x \<noteq> NULL \<and> fwd m (Elm x) \<noteq> None"
  unfolding stailq_def by (metis chain_fwds chain_live fwds_nonnull)

lemma stailq_first: "stailq m h xs \<Longrightarrow> fwd m (Head h) = Some (head_ptr xs)"
  by (cases xs) (auto simp: stailq_def)

lemma stailq_next: "stailq m h (xs @ x # ys) \<Longrightarrow> fwd m (Elm x) = Some (head_ptr ys)"
  by (cases ys) (auto simp: stailq_def)

lemma insert_head_stailq:
  assumes "stailq m h xs" and "x \<noteq> NULL" and "fwd m (Elm x) \<noteq> None" and "x \<notin> set xs"
  shows "\<exists>m'. STAILQ_INSERT_HEAD m h x = Some m' \<and> stailq m' h (x # xs) \<and>
    same_outside (cells_of h (x # xs)) m m'"
  using assms stailq_distinct [OF assms(1)]
  by (cases xs) (auto simp: STAILQ_INSERT_HEAD_def stailq_simps)

lemma insert_tail_stailq:
  assumes "stailq m h xs" and "x \<noteq> NULL" and "fwd m (Elm x) \<noteq> None" and "x \<notin> set xs"
  shows "\<exists>m'. STAILQ_INSERT_TAIL A m h x = Some m' \<and> stailq m' h (xs @ [x]) \<and>
    same_outside (cells_of h (x # xs)) m m'"
  using assms stailq_distinct [OF assms(1)]
  by (cases xs rule: rev_cases) (auto simp: STAILQ_INSERT_TAIL_def stailq_simps)

lemma insert_after_stailq:
  assumes "stailq m h (xs @ x # ys)" and "y \<noteq> NULL" and "fwd m (Elm y) \<noteq> None"
    and "y \<notin> set (xs @ x # ys)"
  shows "\<exists>m'. STAILQ_INSERT_AFTER m h x y = Some m' \<and> stailq m' h (xs @ x # y # ys) \<and>
    same_outside (cells_of h (y # xs @ x # ys)) m m'"
  using assms stailq_distinct [OF assms(1)]
  by (cases ys) (auto simp: STAILQ_INSERT_AFTER_def stailq_simps)

lemma remove_head_stailq:
  assumes "stailq m h (x # xs)"
  shows "\<exists>m'. STAILQ_REMOVE_HEAD m h = Some m' \<and> stailq m' h xs \<and> same_outside (cells_of h xs) m m'"
  using assms stailq_distinct [OF assms]
  by (cases xs) (auto simp: STAILQ_REMOVE_HEAD_def stailq_simps)

lemma remove_after_stailq:
  assumes "stailq m h (xs @ y # x # ys)"
  shows "\<exists>m'. STAILQ_REMOVE_AFTER m h y = Some m' \<and> stailq m' h (xs @ y # ys) \<and>
    same_outside (cells_of h (xs @ y # ys)) m m'"
  using assms stailq_distinct [OF assms]
  by (cases ys) (auto simp: STAILQ_REMOVE_AFTER_def stailq_simps)

lemma stailq_lseg:
  "stailq m h xs \<longleftrightarrow> (\<exists>p. fwd m (Head h) = Some p \<and> lseg (next_links m) p xs NULL) \<and>
     bwd m (Head h) = Some (last_cell (Head h) xs)"
proof (cases "fwd m (Head h)")
  case None
  then show ?thesis by (cases xs) (auto simp: stailq_def)
next
  case (Some p)
  then show ?thesis by (simp add: stailq_def lseg_fwds [where c = "Head h"] chain_def)
qed

lemma remove_stailq:
  assumes "stailq m h (xs @ x # ys)"
  shows "\<exists>m'. STAILQ_REMOVE m h x = Some m' \<and> stailq m' h (xs @ ys) \<and>
    same_outside (cells_of h (xs @ ys)) m m'"
proof (cases xs rule: rev_cases)
  case Nil
  then have "STAILQ_REMOVE m h x = STAILQ_REMOVE_HEAD m h"
    using assms by (simp add: STAILQ_REMOVE_def STAILQ_FIRST_def stailq_def)
  then show ?thesis using remove_head_stailq [of m h x ys] assms Nil by simp
next
  case (snoc us y)
  have dist: "distinct (us @ y # x # ys)" using stailq_distinct [OF assms] snoc by simp
  obtain p where p: "fwd m (Head h) = Some p" "lseg (next_links m) p (us @ [y]) x"
    using assms snoc by (auto simp: stailq_lseg lseg_append split: option.splits)
  have "p \<noteq> x" using p(2) dist by (cases us) auto
  moreover have "slist_prev (next_links m) x p = Some y"
    using dist by (intro slist_prev_lseg [OF p(2)]) auto
  ultimately have "STAILQ_REMOVE m h x = STAILQ_REMOVE_AFTER m h y"
    using p(1) by (simp add: STAILQ_REMOVE_def STAILQ_FIRST_def)
  then show ?thesis using remove_after_stailq [of m h us y x ys] assms snoc by simp
qed

lemma reverse_loop_stailq:
  assumes "lseg (next_links m) p xs NULL" and "lseg (next_links m) q ys NULL" and "set xs \<inter> set ys = {}"
  shows "\<exists>f r. stailq_reverse_loop m p q = Some (m\<lparr>fwd := f\<rparr>, r) \<and>
    lseg (\<lambda>e. f (Elm e)) r (rev xs @ ys) NULL \<and> dom f = dom (fwd m) \<and>
    (\<forall>c. c \<notin> Elm ` set xs \<longrightarrow> f c = fwd m c)"
  using assms
proof (induction xs arbitrary: m p q ys)
  case Nil
  then show ?case by (subst stailq_reverse_loop.simps) (auto intro!: exI [of _ "fwd m"])
next
  case (Cons x xs)
  have dist: "x \<notin> set xs" using lseg_distinct [OF Cons.prems(1)] by simp
  obtain n where n: "p = x" "x \<noteq> NULL" "fwd m (Elm x) = Some n" "lseg (next_links m) n xs NULL"
    using Cons.prems(1) by (auto split: option.splits)
  let ?m = "m\<lparr>fwd := (fwd m)(Elm x \<mapsto> q)\<rparr>"
  have links: "next_links ?m = (next_links m)(x \<mapsto> q)" by auto
  have "lseg (next_links ?m) n xs NULL" "lseg (next_links ?m) x (x # ys) NULL" "set xs \<inter> set (x # ys) = {}"
    using n Cons.prems(2,3) dist unfolding links by auto
  from Cons.IH [OF this] obtain f r where f: "stailq_reverse_loop ?m n x = Some (?m\<lparr>fwd := f\<rparr>, r)"
      "lseg (\<lambda>e. f (Elm e)) r (rev xs @ x # ys) NULL" "dom f = dom (fwd ?m)"
      "\<And>c. c \<notin> Elm ` set xs \<Longrightarrow> f c = fwd ?m c"
    by blast
  have "stailq_reverse_loop m p q = Some (m\<lparr>fwd := f\<rparr>, r)"
    using n f(1) by (subst stailq_reverse_loop.simps) (simp add: STAILQ_NEXT_def put_def)
  moreover have "dom f = dom (fwd m)" using f(3) n(3) by auto
  ultimately show ?case using f(2,4) by (intro exI [of _ f] exI [of _ r]) auto
qed

lemma reverse_stailq:
  assumes "stailq m h xs"
  shows "\<exists>m'. STAILQ_REVERSE A m h = Some m' \<and> stailq m' h (rev xs) \<and> same_outside (cells_of h xs) m m'"
proof (cases xs)
  case Nil
  with assms show ?thesis by (auto simp: STAILQ_REVERSE_def stailq_simps)
next
  case (Cons x ys)
  then have x: "fwd m (Head h) = Some x" "x \<noteq> NULL" using assms by (auto simp: stailq_def)
  have "lseg (next_links m) x xs NULL" using assms x(1) by (auto simp: stailq_lseg)
  from reverse_loop_stailq [OF this, of NULL "[]"] obtain f r
    where f: "stailq_reverse_loop m x NULL = Some (m\<lparr>fwd := f\<rparr>, r)"
      "lseg (\<lambda>e. f (Elm e)) r (rev xs) NULL" "dom f = dom (fwd m)" "\<And>c. c \<notin> Elm ` set xs \<Longrightarrow> f c = fwd m c"
    by auto
  let ?m = "m\<lparr>fwd := f(Head h \<mapsto> r), bwd := (bwd m)(Head h \<mapsto> Elm x)\<rparr>"
  have "f (Head h) = Some x" using f(4) [of "Head h"] x(1) by auto
  moreover have "bwd m (Head h) \<noteq> None" using assms by (simp add: stailq_def)
  ultimately have "STAILQ_REVERSE A m h = Some ?m"
    using x f(1) by (auto simp: STAILQ_REVERSE_def stailq_simps)
  moreover have "stailq ?m h (rev xs)" using f(2) by (auto simp: stailq_lseg Cons)
  moreover have "same_outside (cells_of h xs) m ?m"
    using f(3,4) x(1) \<open>bwd m (Head h) \<noteq> None\<close> by (auto simp: same_outside_def)
  ultimately show ?thesis by blast
qed

lemma init_stailq:
  assumes "fwd m (Head h) \<noteq> None" and "bwd m (Head h) \<noteq> None"
  shows "\<exists>m'. STAILQ_INIT m h = Some m' \<and> stailq m' h [] \<and> same_outside {Head h} m m'"
  using assms by (auto simp: STAILQ_INIT_def stailq_simps)

lemma check_tail_stailq: "stailq m h xs \<Longrightarrow> QMD_STAILQ_CHECK_TAIL A m h = Some ()"
  by (cases xs rule: rev_cases) (auto simp: stailq_simps)

lemma split_after_stailq:
  assumes "stailq m h (xs @ x # ys)" and "fwd m (Head r) \<noteq> None" and "bwd m (Head r) \<noteq> None" and "r \<noteq> h"
  shows "\<exists>m'. STAILQ_SPLIT_AFTER A m h x r = Some m' \<and> stailq m' h (xs @ [x]) \<and> stailq m' r ys \<and>
    same_outside (insert (Head r) (cells_of h (xs @ x # ys))) m m'"
proof -
  have checks: "QMD_STAILQ_CHECK_TAIL A m h = Some ()" "STAILQ_ASSERT_NONEMPTY A m h = Some ()"
    using check_tail_stailq [OF assms(1)] assms(1) by (cases xs; simp add: stailq_simps)+
  show ?thesis
    using assms stailq_distinct [OF assms(1)]
    by (cases ys) (auto simp: STAILQ_SPLIT_AFTER_def checks STAILQ_INIT_def STAILQ_NEXT_def put_def
        putb_def stailq_def same_outside_def)
qed

lemma concat_stailq:
  assumes "stailq m h xs" and "stailq m k ys" and "h \<noteq> k" and "set xs \<inter> set ys = {}"
  shows "\<exists>m'. STAILQ_CONCAT A m h k = Some m' \<and> stailq m' h (xs @ ys) \<and> stailq m' k [] \<and>
    same_outside (cells_of h xs \<union> cells_of k ys) m m'"
  using assms stailq_distinct [OF assms(1)] stailq_distinct [OF assms(2)]
  by (cases xs rule: rev_cases; cases ys)
    (auto simp: STAILQ_CONCAT_def STAILQ_INIT_def stailq_simps)

lemma swap_stailq:
  assumes "stailq m h xs" and "stailq m k ys" and "h \<noteq> k"
  shows "\<exists>m'. STAILQ_SWAP m h k = Some m' \<and> stailq m' h ys \<and> stailq m' k xs \<and>
    same_outside {Head h, Head k} m m'"
  using assms by (cases xs; cases ys) (auto simp: STAILQ_SWAP_def stailq_fix_head_def stailq_simps)

lemma last_stailq: "stailq m h xs \<Longrightarrow> STAILQ_LAST A m h = Some (if xs = [] then NULL else last xs)"
  by (cases xs rule: rev_cases; cases "butlast xs") (auto simp: STAILQ_LAST_def stailq_simps)

section \<open>The contract\<close>

abbreviation next_elms :: "qmem \<Rightarrow> ptr set" where
  "next_elms m \<equiv> {e. fwd m (Elm e) \<noteq> None}"

lemma next_elms_same: "same_outside S m m' \<Longrightarrow> next_elms m' = next_elms m"
  by (simp add: same_outside_live)

interpretation stq: tail_queue "\<lambda>m xs. stailq m h xs" next_elms "\<lambda>m. the (STAILQ_FIRST m h)" STAILQ_NEXT
  "\<lambda>m x. STAILQ_INSERT_HEAD m h x" "\<lambda>m x. STAILQ_REMOVE m h x"
  "\<lambda>m x. m\<lparr>fwd := (fwd m)(Elm x \<mapsto> NULL)\<rparr>" "\<lambda>m x. m\<lparr>fwd := (fwd m)(Elm x := None)\<rparr>"
  "\<lambda>m. STAILQ_FIRST m h" "\<lambda>m x. STAILQ_INSERT_TAIL A m h x" for A h
proof (unfold_locales, goal_cases)
  case (1 s xs)
  then show ?case by (rule stailq_distinct)
next
  case (2 s xs x)
  then show ?case using stailq_live by auto
next
  case (3 s xs)
  then show ?case by (simp add: STAILQ_FIRST_def stailq_first)
next
  case (4 s xs x ys)
  then show ?case using stailq_live [OF 4, of x] by (simp add: STAILQ_NEXT_def stailq_next)
next
  case (5 s xs x)
  then show ?case using insert_head_stailq [of s h xs x] next_elms_same by auto
next
  case (6 s xs x)
  then obtain ys zs where xs: "xs = ys @ x # zs" by (metis split_list)
  then have "remove1 x xs = ys @ zs" using stailq_distinct [OF 6(1)] by (simp add: remove1_append)
  then show ?case using remove_stailq [of s h ys x zs] 6(1) xs next_elms_same by auto
next
  case (7 s xs x)
  then have "x \<notin> set xs" using stailq_live [OF 7(1), of x] by auto
  with 7 show ?case by (auto simp: stailq_def)
next
  case (8 s xs x)
  then show ?case by (auto simp: stailq_def)
next
  case (9 s xs)
  then show ?case by (simp add: STAILQ_FIRST_def stailq_first)
next
  case (10 s xs x)
  then show ?case using insert_tail_stailq [of s h xs x A] next_elms_same by auto
qed

lemma foreach_stailq:
  assumes "stailq (mem s) h xs" and "\<And>x s s'. body x s = Some s' \<Longrightarrow> mem s' = mem s"
  shows "STAILQ_FOREACH mem body h s = visit body xs s" and "STAILQ_FOREACH_SAFE mem body h s = visit body xs s"
  using stq.foreach_rep [where get = mem and body = body, OF assms] stailq_first [OF assms(1)]
  by (simp_all add: STAILQ_FOREACH_def STAILQ_FOREACH_SAFE_def STAILQ_FIRST_def)

section \<open>Properties\<close>

definition sample_stailq :: qmem where
  "sample_stailq =
     \<lparr>fwd = [Head 1 \<mapsto> 5, Elm 5 \<mapsto> 7, Elm 7 \<mapsto> 2, Elm 2 \<mapsto> 0, Elm 9 \<mapsto> 0, Head 3 \<mapsto> 0, Elm 8 \<mapsto> 0],
      bwd = [Head 1 \<mapsto> Elm 2, Head 3 \<mapsto> Head 3]\<rparr>"

lemma sample_stailqs: "stailq sample_stailq 1 [5, 7, 2]" "stailq sample_stailq 3 []"
  by (simp_all add: stailq_def sample_stailq_def)



text \<open>
  First in, first out, as for \<open>TAILQ\<close>.
\<close>

lemma STAILQ_fifo:
  assumes "stailq m h []" and "\<forall>y \<in> set ys. y \<noteq> NULL \<and> fwd m (Elm y) \<noteq> None" and "distinct ys"
  shows "\<exists>m1 m2. visit (\<lambda>x m. STAILQ_INSERT_TAIL A m h x) ys m = Some m1 \<and>
    drain (\<lambda>m. STAILQ_FIRST m h) (\<lambda>m x. STAILQ_REMOVE m h x) (length ys) m1 = Some (ys, m2) \<and>
    stailq m2 h []"
  by (intro stq.fifo [OF assms(1) _ assms(3)]) (use assms(2) in auto)

end
