(* ===== verification/Queue_List.thy ===== *)
theory Queue_List
  imports Queue_Cells
begin

text \<open>
  The doubly linked lists of \<open>server/queue.h\<close> (the \<open>LIST\<close> macros), with the debug assertions under
  the flag \<open>A\<close> as in \<open>Tailq\<close>.  An element knows the address of the pointer that refers to it, so it
  can be removed, and another inserted before it, without the head.
\<close>

section \<open>Operations\<close>

definition LIST_FIRST :: "qmem \<Rightarrow> ptr \<Rightarrow> ptr option" where
  "LIST_FIRST m head = get m (Head head)"

definition LIST_NEXT :: "qmem \<Rightarrow> ptr \<Rightarrow> ptr option" where
  "LIST_NEXT m elm = get m (Elm elm)"

definition LIST_EMPTY :: "qmem \<Rightarrow> ptr \<Rightarrow> bool option" where
  "LIST_EMPTY m head = do { f \<leftarrow> LIST_FIRST m head; Some (f = NULL) }"

definition QMD_LIST_CHECK_HEAD :: "bool \<Rightarrow> qmem \<Rightarrow> ptr \<Rightarrow> unit option" where
  "QMD_LIST_CHECK_HEAD A m head = QMD_ASSERT A (do {
     f \<leftarrow> LIST_FIRST m head;
     if f = NULL then Some True else do { p \<leftarrow> getb m (Elm f); Some (p = Head head) }
   })"

definition QMD_LIST_CHECK_NEXT :: "bool \<Rightarrow> qmem \<Rightarrow> ptr \<Rightarrow> unit option" where
  "QMD_LIST_CHECK_NEXT A m elm = QMD_ASSERT A (do {
     n \<leftarrow> LIST_NEXT m elm;
     if n = NULL then Some True else do { p \<leftarrow> getb m (Elm n); Some (p = Elm elm) }
   })"

definition QMD_LIST_CHECK_PREV :: "bool \<Rightarrow> qmem \<Rightarrow> ptr \<Rightarrow> unit option" where
  "QMD_LIST_CHECK_PREV A m elm = QMD_ASSERT A (do {
     p \<leftarrow> getb m (Elm elm);
     v \<leftarrow> get m p;
     Some (v = elm)
   })"

definition LIST_ASSERT_NONEMPTY :: "bool \<Rightarrow> qmem \<Rightarrow> ptr \<Rightarrow> unit option" where
  "LIST_ASSERT_NONEMPTY A m head = QMD_ASSERT A (map_option Not (LIST_EMPTY m head))"

definition LIST_INIT :: "qmem \<Rightarrow> ptr \<Rightarrow> qmem option" where
  "LIST_INIT m head = put m (Head head) NULL"

text \<open>The loop that looks for the last element is the one of \<open>SLIST_CONCAT\<close>.\<close>

definition LIST_CONCAT :: "qmem \<Rightarrow> ptr \<Rightarrow> ptr \<Rightarrow> qmem option" where
  "LIST_CONCAT m head1 head2 = do {
     Curelm \<leftarrow> LIST_FIRST m head1;
     f2 \<leftarrow> LIST_FIRST m head2;
     if Curelm = NULL then do {
       m1 \<leftarrow> put m (Head head1) f2;
       if f2 \<noteq> NULL then do {
         m2 \<leftarrow> putb m1 (Elm f2) (Head head1);
         LIST_INIT m2 head2
       }
       else Some m1
     }
     else if f2 \<noteq> NULL then do {
       last \<leftarrow> slist_last (\<lambda>e. fwd m (Elm e)) Curelm;
       m1 \<leftarrow> put m (Elm last) f2;
       m2 \<leftarrow> putb m1 (Elm f2) (Elm last);
       LIST_INIT m2 head2
     }
     else Some m
   }"

definition LIST_INSERT_AFTER :: "bool \<Rightarrow> qmem \<Rightarrow> ptr \<Rightarrow> ptr \<Rightarrow> qmem option" where
  "LIST_INSERT_AFTER A m listelm elm = do {
     _ \<leftarrow> QMD_LIST_CHECK_NEXT A m listelm;
     n \<leftarrow> LIST_NEXT m listelm;
     m1 \<leftarrow> put m (Elm elm) n;
     m2 \<leftarrow> (if n \<noteq> NULL then do {
         n' \<leftarrow> LIST_NEXT m1 listelm;
         putb m1 (Elm n') (Elm elm)
       } else Some m1);
     m3 \<leftarrow> put m2 (Elm listelm) elm;
     putb m3 (Elm elm) (Elm listelm)
   }"

definition LIST_INSERT_BEFORE :: "bool \<Rightarrow> qmem \<Rightarrow> ptr \<Rightarrow> ptr \<Rightarrow> qmem option" where
  "LIST_INSERT_BEFORE A m listelm elm = do {
     _ \<leftarrow> QMD_LIST_CHECK_PREV A m listelm;
     p \<leftarrow> getb m (Elm listelm);
     m1 \<leftarrow> putb m (Elm elm) p;
     m2 \<leftarrow> put m1 (Elm elm) listelm;
     p' \<leftarrow> getb m2 (Elm listelm);
     m3 \<leftarrow> put m2 p' elm;
     putb m3 (Elm listelm) (Elm elm)
   }"

definition LIST_INSERT_HEAD :: "bool \<Rightarrow> qmem \<Rightarrow> ptr \<Rightarrow> ptr \<Rightarrow> qmem option" where
  "LIST_INSERT_HEAD A m head elm = do {
     _ \<leftarrow> QMD_LIST_CHECK_HEAD A m head;
     f \<leftarrow> LIST_FIRST m head;
     m1 \<leftarrow> put m (Elm elm) f;
     m2 \<leftarrow> (if f \<noteq> NULL then do {
         f' \<leftarrow> LIST_FIRST m1 head;
         putb m1 (Elm f') (Elm elm)
       } else Some m1);
     m3 \<leftarrow> put m2 (Head head) elm;
     putb m3 (Elm elm) (Head head)
   }"

definition LIST_PREV :: "qmem \<Rightarrow> ptr \<Rightarrow> ptr \<Rightarrow> ptr option" where
  "LIST_PREV m elm head = do {
     p \<leftarrow> getb m (Elm elm);
     if p = Head head then Some NULL else containerof p
   }"

definition LIST_REMOVE :: "bool \<Rightarrow> qmem \<Rightarrow> ptr \<Rightarrow> qmem option" where
  "LIST_REMOVE A m elm = do {
     _ \<leftarrow> QMD_LIST_CHECK_NEXT A m elm;
     _ \<leftarrow> QMD_LIST_CHECK_PREV A m elm;
     n \<leftarrow> LIST_NEXT m elm;
     p \<leftarrow> getb m (Elm elm);
     m1 \<leftarrow> (if n \<noteq> NULL then putb m (Elm n) p else Some m);
     p' \<leftarrow> getb m1 (Elm elm);
     n' \<leftarrow> LIST_NEXT m1 elm;
     put m1 p' n'
   }"

definition LIST_REMOVE_HEAD :: "bool \<Rightarrow> qmem \<Rightarrow> ptr \<Rightarrow> qmem option" where
  "LIST_REMOVE_HEAD A m head = do { f \<leftarrow> LIST_FIRST m head; LIST_REMOVE A m f }"

definition LIST_REPLACE :: "bool \<Rightarrow> qmem \<Rightarrow> ptr \<Rightarrow> ptr \<Rightarrow> qmem option" where
  "LIST_REPLACE A m elm elm2 = do {
     _ \<leftarrow> QMD_LIST_CHECK_NEXT A m elm;
     _ \<leftarrow> QMD_LIST_CHECK_PREV A m elm;
     n \<leftarrow> LIST_NEXT m elm;
     m1 \<leftarrow> put m (Elm elm2) n;
     n2 \<leftarrow> LIST_NEXT m1 elm2;
     m2 \<leftarrow> (if n2 \<noteq> NULL then putb m1 (Elm n2) (Elm elm2) else Some m1);
     p \<leftarrow> getb m2 (Elm elm);
     m3 \<leftarrow> putb m2 (Elm elm2) p;
     p2 \<leftarrow> getb m3 (Elm elm2);
     put m3 p2 elm2
   }"

definition LIST_SPLIT_AFTER :: "bool \<Rightarrow> qmem \<Rightarrow> ptr \<Rightarrow> ptr \<Rightarrow> ptr \<Rightarrow> qmem option" where
  "LIST_SPLIT_AFTER A m head elm rest = do {
     _ \<leftarrow> LIST_ASSERT_NONEMPTY A m head;
     n \<leftarrow> LIST_NEXT m elm;
     if n = NULL then LIST_INIT m rest
     else do {
       m1 \<leftarrow> put m (Head rest) n;
       n' \<leftarrow> LIST_NEXT m1 elm;
       m2 \<leftarrow> putb m1 (Elm n') (Head rest);
       put m2 (Elm elm) NULL
     }
   }"

text \<open>The end of \<open>LIST_SWAP\<close> for one head.\<close>

definition list_fix_head :: "qmem \<Rightarrow> ptr \<Rightarrow> qmem option" where
  "list_fix_head m head = do {
     swap_tmp \<leftarrow> LIST_FIRST m head;
     if swap_tmp \<noteq> NULL then putb m (Elm swap_tmp) (Head head) else Some m
   }"

definition LIST_SWAP :: "qmem \<Rightarrow> ptr \<Rightarrow> ptr \<Rightarrow> qmem option" where
  "LIST_SWAP m head1 head2 = do {
     swap_tmp \<leftarrow> LIST_FIRST m head1;
     f2 \<leftarrow> LIST_FIRST m head2;
     m1 \<leftarrow> put m (Head head1) f2;
     m2 \<leftarrow> put m1 (Head head2) swap_tmp;
     m3 \<leftarrow> list_fix_head m2 head1;
     list_fix_head m3 head2
   }"

definition LIST_FOREACH ::
  "('s \<Rightarrow> qmem) \<Rightarrow> (ptr \<Rightarrow> 's \<Rightarrow> 's option) \<Rightarrow> ptr \<Rightarrow> 's \<Rightarrow> 's option"
where
  "LIST_FOREACH mem body head s = do {
     var \<leftarrow> LIST_FIRST (mem s) head;
     SLIST_FOREACH (\<lambda>s. LIST_NEXT (mem s)) body var s
   }"

definition LIST_FOREACH_SAFE ::
  "('s \<Rightarrow> qmem) \<Rightarrow> (ptr \<Rightarrow> 's \<Rightarrow> 's option) \<Rightarrow> ptr \<Rightarrow> 's \<Rightarrow> 's option"
where
  "LIST_FOREACH_SAFE mem body head s = do {
     var \<leftarrow> LIST_FIRST (mem s) head;
     SLIST_FOREACH_SAFE (\<lambda>s. LIST_NEXT (mem s)) body var s
   }"

section \<open>The list of a head\<close>

definition blist :: "qmem \<Rightarrow> ptr \<Rightarrow> ptr list \<Rightarrow> bool" where
  "blist m head xs \<longleftrightarrow> chain (fwd m) (Head head) xs \<and> bwds (bwd m) (Head head) xs"

lemmas blist_simps = LIST_EMPTY_def LIST_FIRST_def LIST_NEXT_def QMD_LIST_CHECK_HEAD_def
  QMD_LIST_CHECK_NEXT_def QMD_LIST_CHECK_PREV_def LIST_ASSERT_NONEMPTY_def LIST_INIT_def put_def
  putb_def blist_def spare_def same_outside_def

lemma blist_distinct: "blist m h xs \<Longrightarrow> distinct xs"
  by (auto simp: blist_def intro: chain_distinct)

lemma blist_spare: "blist m h xs \<Longrightarrow> x \<in> set xs \<Longrightarrow> spare m x"
  unfolding blist_def spare_def
  by (metis chain_fwds chain_live bwds_live fwds_nonnull)

lemma blist_first: "blist m h xs \<Longrightarrow> fwd m (Head h) = Some (head_ptr xs)"
  by (cases xs) (auto simp: blist_def)

lemma blist_next: "blist m h (xs @ x # ys) \<Longrightarrow> fwd m (Elm x) = Some (head_ptr ys)"
  by (cases ys) (auto simp: blist_def)

lemma insert_head_blist:
  assumes "blist m h xs" and "spare m x" and "x \<notin> set xs"
  shows "\<exists>m'. LIST_INSERT_HEAD A m h x = Some m' \<and> blist m' h (x # xs) \<and>
    same_outside (cells_of h (x # xs)) m m'"
  using assms blist_distinct [OF assms(1)]
  by (cases xs) (auto simp: LIST_INSERT_HEAD_def blist_simps)

lemma insert_after_blist:
  assumes "blist m h (xs @ x # ys)" and "spare m y" and "y \<notin> set (xs @ x # ys)"
  shows "\<exists>m'. LIST_INSERT_AFTER A m x y = Some m' \<and> blist m' h (xs @ x # y # ys) \<and>
    same_outside (cells_of h (y # xs @ x # ys)) m m'"
  using assms blist_distinct [OF assms(1)]
  by (cases ys) (auto simp: LIST_INSERT_AFTER_def blist_simps)

lemma insert_before_blist:
  assumes "blist m h (xs @ x # ys)" and "spare m y" and "y \<notin> set (xs @ x # ys)"
  shows "\<exists>m'. LIST_INSERT_BEFORE A m x y = Some m' \<and> blist m' h (xs @ y # x # ys) \<and>
    same_outside (cells_of h (y # xs @ x # ys)) m m'"
  using assms blist_distinct [OF assms(1)]
  by (cases xs rule: rev_cases) (auto simp: LIST_INSERT_BEFORE_def blist_simps)

lemma remove_blist:
  assumes "blist m h (xs @ x # ys)"
  shows "\<exists>m'. LIST_REMOVE A m x = Some m' \<and> blist m' h (xs @ ys) \<and>
    same_outside (cells_of h (xs @ ys)) m m'"
  using assms blist_distinct [OF assms(1)]
  by (cases xs rule: rev_cases; cases ys) (auto simp: LIST_REMOVE_def blist_simps)

lemma remove_head_blist:
  assumes "blist m h (x # xs)"
  shows "\<exists>m'. LIST_REMOVE_HEAD A m h = Some m' \<and> blist m' h xs \<and> same_outside (cells_of h xs) m m'"
  using remove_blist [of m h "[]" x xs] blist_first [OF assms] assms
  by (simp add: LIST_REMOVE_HEAD_def LIST_FIRST_def)

lemma init_blist:
  assumes "blist m h xs"
  shows "\<exists>m'. LIST_INIT m h = Some m' \<and> blist m' h [] \<and> same_outside {Head h} m m'"
  using blist_first [OF assms] by (auto simp: blist_simps)

lemma replace_blist:
  assumes "blist m h (xs @ x # ys)" and "spare m y" and "y \<notin> set (xs @ x # ys)"
  shows "\<exists>m'. LIST_REPLACE A m x y = Some m' \<and> blist m' h (xs @ y # ys) \<and>
    same_outside (cells_of h (xs @ y # ys)) m m'"
  using assms blist_distinct [OF assms(1)]
  by (cases xs rule: rev_cases; cases ys) (auto simp: LIST_REPLACE_def blist_simps)

lemma split_after_blist:
  assumes "blist m h (xs @ x # ys)" and "fwd m (Head r) \<noteq> None" and "r \<noteq> h"
  shows "\<exists>m'. LIST_SPLIT_AFTER A m h x r = Some m' \<and> blist m' h (xs @ [x]) \<and> blist m' r ys \<and>
    same_outside (insert (Head r) (cells_of h (xs @ x # ys))) m m'"
  using assms blist_distinct [OF assms(1)]
  by (cases xs; cases ys) (auto simp: LIST_SPLIT_AFTER_def blist_simps)

lemma swap_blist:
  assumes "blist m h xs" and "blist m k ys" and "h \<noteq> k" and "set xs \<inter> set ys = {}"
  shows "\<exists>m'. LIST_SWAP m h k = Some m' \<and> blist m' h ys \<and> blist m' k xs \<and>
    same_outside (cells_of h xs \<union> cells_of k ys) m m'"
  using assms blist_distinct [OF assms(1)] blist_distinct [OF assms(2)]
  by (cases xs; cases ys) (auto simp: LIST_SWAP_def list_fix_head_def blist_simps)

lemma prev_blist:
  "blist m h (xs @ x # ys) \<Longrightarrow> LIST_PREV m x h = Some (if xs = [] then NULL else last xs)"
  by (cases xs rule: rev_cases) (auto simp: LIST_PREV_def blist_simps)

lemma concat_blist:
  assumes "blist m h xs" and "blist m k ys" and "h \<noteq> k" and "set xs \<inter> set ys = {}"
  shows "\<exists>m'. LIST_CONCAT m h k = Some m' \<and> blist m' h (xs @ ys) \<and> blist m' k [] \<and>
    same_outside (cells_of h xs \<union> cells_of k ys) m m'"
proof (cases xs rule: rev_cases)
  case Nil
  with assms blist_distinct [OF assms(2)] show ?thesis
    by (cases ys) (auto simp: LIST_CONCAT_def blist_simps)
next
  case (snoc us u)
  obtain p where p: "fwd m (Head h) = Some p" "p \<noteq> NULL"
    using assms(1) blist_first [OF assms(1)] blist_spare [OF assms(1), of p] snoc
    by (cases us) (auto simp: blist_def)
  have "lseg (\<lambda>e. fwd m (Elm e)) p (us @ [u]) NULL"
    using assms(1) p(1) by (simp add: lseg_fwds [where c = "Head h"] blist_def snoc)
  then have last: "slist_last (\<lambda>e. fwd m (Elm e)) p = Some u" by (rule slist_last_lseg)
  show ?thesis
    using assms blist_distinct [OF assms(1)] blist_distinct [OF assms(2)] p last
    by (cases ys) (auto simp: LIST_CONCAT_def blist_simps snoc)
qed

section \<open>The contract\<close>

text \<open>
  Here removing an element takes no head, so the contract holds for each head with the same
  operation.
\<close>

lemma blist_alloc [simp]: "x \<notin> set xs \<Longrightarrow> blist (alloc_elm m x) h xs = blist m h xs"
  by (simp add: blist_def alloc_elm_def)

lemma blist_free [simp]: "x \<notin> set xs \<Longrightarrow> blist (free_elm m x) h xs = blist m h xs"
  by (simp add: blist_def free_elm_def)

interpretation bl: linked_list "\<lambda>m xs. blist m h xs" live_elms "\<lambda>m. the (LIST_FIRST m h)" LIST_NEXT
  "\<lambda>m x. LIST_INSERT_HEAD A m h x" "\<lambda>m x. LIST_REMOVE A m x" alloc_elm free_elm for A h
proof (unfold_locales, goal_cases)
  case (1 s xs)
  then show ?case by (rule blist_distinct)
next
  case (2 s xs x)
  then show ?case using blist_spare by (auto simp: spare_live)
next
  case (3 s xs)
  then show ?case by (simp add: LIST_FIRST_def blist_first)
next
  case (4 s xs x ys)
  then show ?case using blist_spare [OF 4, of x] by (simp add: LIST_NEXT_def spare_def blist_next)
next
  case (5 s xs x)
  then show ?case using insert_head_blist [of s h xs x A] by (auto simp: spare_live live_elms_same)
next
  case (6 s xs x)
  then obtain ys zs where xs: "xs = ys @ x # zs" by (metis split_list)
  then have "remove1 x xs = ys @ zs" using blist_distinct [OF 6(1)] by (simp add: remove1_append)
  then show ?case using remove_blist [of s h ys x zs A] 6(1) xs by (auto simp: live_elms_same)
next
  case (7 s xs x)
  then have "x \<notin> set xs" using blist_spare [OF 7(1), of x] by (auto simp: spare_live)
  with 7 show ?case by simp
next
  case (8 s xs x)
  then show ?case by simp
qed

lemma foreach_blist:
  assumes "blist (mem s) h xs" and "\<And>x s s'. body x s = Some s' \<Longrightarrow> mem s' = mem s"
  shows "LIST_FOREACH mem body h s = visit body xs s" and "LIST_FOREACH_SAFE mem body h s = visit body xs s"
  using bl.foreach_rep [where get = mem and body = body, OF assms] blist_first [OF assms(1)]
  by (simp_all add: LIST_FOREACH_def LIST_FOREACH_SAFE_def LIST_FIRST_def)

section \<open>Properties\<close>

definition sample_blist :: qmem where
  "sample_blist =
     \<lparr>fwd = [Head 1 \<mapsto> 5, Elm 5 \<mapsto> 7, Elm 7 \<mapsto> 2, Elm 2 \<mapsto> 0, Elm 9 \<mapsto> 0, Head 3 \<mapsto> 0],
      bwd = [Elm 5 \<mapsto> Head 1, Elm 7 \<mapsto> Elm 5, Elm 2 \<mapsto> Elm 7, Elm 9 \<mapsto> Elm 9]\<rparr>"

lemma sample_blists: "blist sample_blist 1 [5, 7, 2]" "blist sample_blist 3 []" "spare sample_blist 9"
  by (simp_all add: blist_def spare_def sample_blist_def)



end
