(* ===== verification/Queue_Variants.thy ===== *)
theory Queue_Variants
  imports Tailq Stailq Queue_List
begin

text \<open>
  The variants of the operations of \<open>server/queue.h\<close>: traversals that start at a given element
  (\<open>_FOREACH_FROM\<close>), traversal and removal through the address of the field in front of an element
  (\<open>_PREVPTR\<close>, for \<open>SLIST\<close>), and the assertions that a list is empty.  \<open>from_elm\<close> is the part of a list a
  traversal from an element visits.
\<close>

section \<open>Traversals from an element\<close>

definition SLIST_FOREACH_FROM ::
  "('s \<Rightarrow> slist_head \<times> links) \<Rightarrow> (ptr \<Rightarrow> 's \<Rightarrow> 's option) \<Rightarrow> ptr \<Rightarrow> 's \<Rightarrow> 's option"
where
  "SLIST_FOREACH_FROM mem body var s =
     SLIST_FOREACH (\<lambda>s. SLIST_NEXT (snd (mem s))) body
       (if var \<noteq> NULL then var else SLIST_FIRST (fst (mem s))) s"

definition SLIST_FOREACH_FROM_SAFE ::
  "('s \<Rightarrow> slist_head \<times> links) \<Rightarrow> (ptr \<Rightarrow> 's \<Rightarrow> 's option) \<Rightarrow> ptr \<Rightarrow> 's \<Rightarrow> 's option"
where
  "SLIST_FOREACH_FROM_SAFE mem body var s =
     SLIST_FOREACH_SAFE (\<lambda>s. SLIST_NEXT (snd (mem s))) body
       (if var \<noteq> NULL then var else SLIST_FIRST (fst (mem s))) s"

definition STAILQ_FOREACH_FROM ::
  "('s \<Rightarrow> qmem) \<Rightarrow> (ptr \<Rightarrow> 's \<Rightarrow> 's option) \<Rightarrow> ptr \<Rightarrow> ptr \<Rightarrow> 's \<Rightarrow> 's option"
where
  "STAILQ_FOREACH_FROM mem body head var s = do {
     v \<leftarrow> (if var \<noteq> NULL then Some var else STAILQ_FIRST (mem s) head);
     SLIST_FOREACH (\<lambda>s. STAILQ_NEXT (mem s)) body v s
   }"

definition STAILQ_FOREACH_FROM_SAFE ::
  "('s \<Rightarrow> qmem) \<Rightarrow> (ptr \<Rightarrow> 's \<Rightarrow> 's option) \<Rightarrow> ptr \<Rightarrow> ptr \<Rightarrow> 's \<Rightarrow> 's option"
where
  "STAILQ_FOREACH_FROM_SAFE mem body head var s = do {
     v \<leftarrow> (if var \<noteq> NULL then Some var else STAILQ_FIRST (mem s) head);
     SLIST_FOREACH_SAFE (\<lambda>s. STAILQ_NEXT (mem s)) body v s
   }"

definition LIST_FOREACH_FROM ::
  "('s \<Rightarrow> qmem) \<Rightarrow> (ptr \<Rightarrow> 's \<Rightarrow> 's option) \<Rightarrow> ptr \<Rightarrow> ptr \<Rightarrow> 's \<Rightarrow> 's option"
where
  "LIST_FOREACH_FROM mem body head var s = do {
     v \<leftarrow> (if var \<noteq> NULL then Some var else LIST_FIRST (mem s) head);
     SLIST_FOREACH (\<lambda>s. LIST_NEXT (mem s)) body v s
   }"

definition LIST_FOREACH_FROM_SAFE ::
  "('s \<Rightarrow> qmem) \<Rightarrow> (ptr \<Rightarrow> 's \<Rightarrow> 's option) \<Rightarrow> ptr \<Rightarrow> ptr \<Rightarrow> 's \<Rightarrow> 's option"
where
  "LIST_FOREACH_FROM_SAFE mem body head var s = do {
     v \<leftarrow> (if var \<noteq> NULL then Some var else LIST_FIRST (mem s) head);
     SLIST_FOREACH_SAFE (\<lambda>s. LIST_NEXT (mem s)) body v s
   }"

definition TAILQ_FOREACH_FROM ::
  "('s \<Rightarrow> qmem) \<Rightarrow> (ptr \<Rightarrow> 's \<Rightarrow> 's option) \<Rightarrow> ptr \<Rightarrow> ptr \<Rightarrow> 's \<Rightarrow> 's option"
where
  "TAILQ_FOREACH_FROM mem body head var s = do {
     v \<leftarrow> (if var \<noteq> NULL then Some var else TAILQ_FIRST (mem s) head);
     SLIST_FOREACH (\<lambda>s. TAILQ_NEXT (mem s)) body v s
   }"

definition TAILQ_FOREACH_FROM_SAFE ::
  "('s \<Rightarrow> qmem) \<Rightarrow> (ptr \<Rightarrow> 's \<Rightarrow> 's option) \<Rightarrow> ptr \<Rightarrow> ptr \<Rightarrow> 's \<Rightarrow> 's option"
where
  "TAILQ_FOREACH_FROM_SAFE mem body head var s = do {
     v \<leftarrow> (if var \<noteq> NULL then Some var else TAILQ_FIRST (mem s) head);
     SLIST_FOREACH_SAFE (\<lambda>s. TAILQ_NEXT (mem s)) body v s
   }"

definition TAILQ_FOREACH_REVERSE_FROM ::
  "('s \<Rightarrow> qmem) \<Rightarrow> (ptr \<Rightarrow> 's \<Rightarrow> 's option) \<Rightarrow> ptr \<Rightarrow> ptr \<Rightarrow> 's \<Rightarrow> 's option"
where
  "TAILQ_FOREACH_REVERSE_FROM mem body head var s = do {
     v \<leftarrow> (if var \<noteq> NULL then Some var else TAILQ_LAST (mem s) head);
     SLIST_FOREACH (\<lambda>s. TAILQ_PREV (mem s)) body v s
   }"

definition TAILQ_FOREACH_REVERSE_FROM_SAFE ::
  "('s \<Rightarrow> qmem) \<Rightarrow> (ptr \<Rightarrow> 's \<Rightarrow> 's option) \<Rightarrow> ptr \<Rightarrow> ptr \<Rightarrow> 's \<Rightarrow> 's option"
where
  "TAILQ_FOREACH_REVERSE_FROM_SAFE mem body head var s = do {
     v \<leftarrow> (if var \<noteq> NULL then Some var else TAILQ_LAST (mem s) head);
     SLIST_FOREACH_SAFE (\<lambda>s. TAILQ_PREV (mem s)) body v s
   }"

section \<open>Through the previous field\<close>

text \<open>
  For these macros the \<open>SLIST\<close> is in the memory of cells: its head and entries have a first field only.
  The loop hands its body the element and the address of the field that refers to it.
\<close>

definition QMD_SLIST_CHECK_PREVPTR :: "bool \<Rightarrow> qmem \<Rightarrow> cell \<Rightarrow> ptr \<Rightarrow> unit option" where
  "QMD_SLIST_CHECK_PREVPTR A m prevp elm = QMD_ASSERT A (do { v \<leftarrow> get m prevp; Some (v = elm) })"

definition SLIST_REMOVE_PREVPTR :: "bool \<Rightarrow> qmem \<Rightarrow> cell \<Rightarrow> ptr \<Rightarrow> qmem option" where
  "SLIST_REMOVE_PREVPTR A m prevp elm = do {
     _ \<leftarrow> QMD_SLIST_CHECK_PREVPTR A m prevp elm;
     n \<leftarrow> get m (Elm elm);
     put m prevp n
   }"

partial_function (option) slist_prevptr_loop ::
  "('s \<Rightarrow> qmem) \<Rightarrow> (ptr \<Rightarrow> cell \<Rightarrow> 's \<Rightarrow> 's option) \<Rightarrow> cell \<Rightarrow> 's \<Rightarrow> 's option"
where
  "slist_prevptr_loop mem body varp s = do {
     var \<leftarrow> get (mem s) varp;
     if var = NULL then Some s
     else do {
       s' \<leftarrow> body var varp s;
       slist_prevptr_loop mem body (Elm var) s'
     }
   }"

declare slist_prevptr_loop.simps [code]

definition SLIST_FOREACH_PREVPTR ::
  "('s \<Rightarrow> qmem) \<Rightarrow> (ptr \<Rightarrow> cell \<Rightarrow> 's \<Rightarrow> 's option) \<Rightarrow> ptr \<Rightarrow> 's \<Rightarrow> 's option"
where
  "SLIST_FOREACH_PREVPTR mem body head s = slist_prevptr_loop mem body (Head head) s"

section \<open>Assertions\<close>

definition SLIST_ASSERT_EMPTY :: "bool \<Rightarrow> slist_head \<Rightarrow> unit option" where
  "SLIST_ASSERT_EMPTY A head = QMD_ASSERT A (Some (SLIST_EMPTY head))"

definition STAILQ_ASSERT_EMPTY :: "bool \<Rightarrow> qmem \<Rightarrow> ptr \<Rightarrow> unit option" where
  "STAILQ_ASSERT_EMPTY A m head = QMD_ASSERT A (STAILQ_EMPTY A m head)"

definition LIST_ASSERT_EMPTY :: "bool \<Rightarrow> qmem \<Rightarrow> ptr \<Rightarrow> unit option" where
  "LIST_ASSERT_EMPTY A m head = QMD_ASSERT A (LIST_EMPTY m head)"

definition TAILQ_ASSERT_EMPTY :: "bool \<Rightarrow> qmem \<Rightarrow> ptr \<Rightarrow> unit option" where
  "TAILQ_ASSERT_EMPTY A m head = QMD_ASSERT A (TAILQ_EMPTY m head)"

text \<open>On well-formed lists each holds exactly of the empty list, or fails to matter.\<close>

lemma QMD_ASSERT_iff: "QMD_ASSERT A (Some b) = Some () \<longleftrightarrow> (A \<longrightarrow> b)"
  by (simp add: QMD_ASSERT_def)

lemma assert_empty_iff:
  "slist head l xs \<Longrightarrow> SLIST_ASSERT_EMPTY A head = Some () \<longleftrightarrow> (A \<longrightarrow> xs = [])"
  "slist head l xs \<Longrightarrow> SLIST_ASSERT_NONEMPTY A head = Some () \<longleftrightarrow> (A \<longrightarrow> xs \<noteq> [])"
  "stailq m h xs \<Longrightarrow> STAILQ_ASSERT_EMPTY A m h = Some () \<longleftrightarrow> (A \<longrightarrow> xs = [])"
  "blist m h xs \<Longrightarrow> LIST_ASSERT_EMPTY A m h = Some () \<longleftrightarrow> (A \<longrightarrow> xs = [])"
  "tailq m h xs \<Longrightarrow> TAILQ_ASSERT_EMPTY A m h = Some () \<longleftrightarrow> (A \<longrightarrow> xs = [])"
  by (cases xs; auto simp: SLIST_ASSERT_EMPTY_def SLIST_ASSERT_NONEMPTY_def STAILQ_ASSERT_EMPTY_def
      LIST_ASSERT_EMPTY_def TAILQ_ASSERT_EMPTY_def SLIST_EMPTY_def QMD_ASSERT_iff slist_def stailq_simps
      stailq_def blist_simps tailq_simps get_def getb_def)+

section \<open>What the traversals visit\<close>

definition from_elm :: "ptr \<Rightarrow> ptr list \<Rightarrow> ptr list" where
  "from_elm var xs = (if var = NULL then xs else dropWhile (\<lambda>x. x \<noteq> var) xs)"

lemma from_elm_split:
  assumes "var = NULL \<or> var \<in> set xs" and "NULL \<notin> set xs"
  obtains ys where "xs = ys @ from_elm var xs" "head_ptr (from_elm var xs) = (if var \<noteq> NULL then var else head_ptr xs)"
proof (cases "var = NULL")
  case True
  then show ?thesis by (intro that [of "[]"]) (simp_all add: from_elm_def)
next
  case False
  let ?d = "dropWhile (\<lambda>x. x \<noteq> var) xs"
  have "?d \<noteq> []" using assms(1) False by auto
  then obtain z zs where "?d = z # zs" by (cases ?d) auto
  moreover from this have "z = var" using hd_dropWhile [OF \<open>?d \<noteq> []\<close>] by simp
  moreover have "xs = takeWhile (\<lambda>x. x \<noteq> var) xs @ ?d" by (rule takeWhile_dropWhile_id [symmetric])
  ultimately show ?thesis
    using False by (intro that [of "takeWhile (\<lambda>x. x \<noteq> var) xs"]) (simp_all add: from_elm_def)
qed

text \<open>
  A body that leaves the lists alone, and links \<open>nx\<close> that follow a list: a loop from a suffix of the
  list visits that suffix.
\<close>

definition keeps :: "('s \<Rightarrow> 'm) \<Rightarrow> (ptr \<Rightarrow> 's \<Rightarrow> 's option) \<Rightarrow> bool" where
  "keeps mem body \<longleftrightarrow> (\<forall>x s s'. body x s = Some s' \<longrightarrow> mem s' = mem s)"

definition follows :: "(ptr \<Rightarrow> ptr option) \<Rightarrow> ptr list \<Rightarrow> bool" where
  "follows nx xs \<longleftrightarrow> (\<forall>ys x zs. xs = ys @ x # zs \<longrightarrow> x \<noteq> NULL \<and> nx x = Some (head_ptr zs))"

lemma keeps_comp: "keeps mem body \<Longrightarrow> keeps (\<lambda>s. f (mem s)) body"
  unfolding keeps_def by metis

lemma follows_suffix: "follows nx (ys @ xs) \<Longrightarrow> follows nx xs"
  unfolding follows_def by (metis append.assoc)

lemma foreach_from:
  assumes keep: "keeps nx body" and follow: "follows (nx s) xs" and var: "var = NULL \<or> var \<in> set xs"
  defines "v \<equiv> if var \<noteq> NULL then var else head_ptr xs"
  shows "SLIST_FOREACH nx body v s = visit body (from_elm var xs) s"
    and "SLIST_FOREACH_SAFE nx body v s = visit body (from_elm var xs) s"
proof -
  have "NULL \<notin> set xs" using follow unfolding follows_def by (metis split_list)
  from from_elm_split [OF var this] obtain ys where ys: "xs = ys @ from_elm var xs" "head_ptr (from_elm var xs) = v"
    unfolding v_def by blast
  have "follows (nx s) (from_elm var xs)" using follow ys(1) follows_suffix by metis
  with keep ys(2) show "SLIST_FOREACH nx body v s = visit body (from_elm var xs) s"
    "SLIST_FOREACH_SAFE nx body v s = visit body (from_elm var xs) s"
    using foreach_visit [of body nx "from_elm var xs" s] by (simp_all add: keeps_def follows_def)
qed

context linked_list
begin

lemma foreach_from_rep:
  assumes "rep (mem s) xs" and "keeps mem body" and "var = NULL \<or> var \<in> set xs"
  shows "SLIST_FOREACH (\<lambda>s. nxt (mem s)) body (if var \<noteq> NULL then var else head_ptr xs) s =
      visit body (from_elm var xs) s"
    and "SLIST_FOREACH_SAFE (\<lambda>s. nxt (mem s)) body (if var \<noteq> NULL then var else head_ptr xs) s =
      visit body (from_elm var xs) s"
proof -
  have follow: "follows (nxt (mem s)) xs"
    using assms(1) rep_cells [OF assms(1)] rep_next unfolding follows_def by auto
  note foreach_from [OF keeps_comp [OF assms(2), of nxt] follow assms(3)]
  then show "SLIST_FOREACH (\<lambda>s. nxt (mem s)) body (if var \<noteq> NULL then var else head_ptr xs) s =
      visit body (from_elm var xs) s"
    "SLIST_FOREACH_SAFE (\<lambda>s. nxt (mem s)) body (if var \<noteq> NULL then var else head_ptr xs) s =
      visit body (from_elm var xs) s" .
qed

end

lemma slist_foreach_from:
  assumes "slist (fst (mem s)) (snd (mem s)) xs" and "keeps mem body" and "var = NULL \<or> var \<in> set xs"
  shows "SLIST_FOREACH_FROM mem body var s = visit body (from_elm var xs) s"
    and "SLIST_FOREACH_FROM_SAFE mem body var s = visit body (from_elm var xs) s"
  using sl.foreach_from_rep [of mem s xs body var] assms slist_first [OF assms(1)]
  by (auto simp: SLIST_FOREACH_FROM_def SLIST_FOREACH_FROM_SAFE_def case_prod_unfold)

lemma stailq_foreach_from:
  assumes "stailq (mem s) h xs" and "keeps mem body" and "var = NULL \<or> var \<in> set xs"
  shows "STAILQ_FOREACH_FROM mem body h var s = visit body (from_elm var xs) s"
    and "STAILQ_FOREACH_FROM_SAFE mem body h var s = visit body (from_elm var xs) s"
  using stq.foreach_from_rep [OF assms] stailq_first [OF assms(1)]
  by (auto simp: STAILQ_FOREACH_FROM_def STAILQ_FOREACH_FROM_SAFE_def STAILQ_FIRST_def split: if_splits)

lemma blist_foreach_from:
  assumes "blist (mem s) h xs" and "keeps mem body" and "var = NULL \<or> var \<in> set xs"
  shows "LIST_FOREACH_FROM mem body h var s = visit body (from_elm var xs) s"
    and "LIST_FOREACH_FROM_SAFE mem body h var s = visit body (from_elm var xs) s"
  using bl.foreach_from_rep [OF assms] blist_first [OF assms(1)]
  by (auto simp: LIST_FOREACH_FROM_def LIST_FOREACH_FROM_SAFE_def LIST_FIRST_def split: if_splits)

lemma tailq_foreach_from:
  assumes "tailq (mem s) h xs" and "keeps mem body" and "var = NULL \<or> var \<in> set xs"
  shows "TAILQ_FOREACH_FROM mem body h var s = visit body (from_elm var xs) s"
    and "TAILQ_FOREACH_FROM_SAFE mem body h var s = visit body (from_elm var xs) s"
  using tq.foreach_from_rep [OF assms] tailq_first [OF assms(1)]
  by (auto simp: TAILQ_FOREACH_FROM_def TAILQ_FOREACH_FROM_SAFE_def TAILQ_FIRST_def split: if_splits)

lemma tailq_foreach_reverse_from:
  assumes "tailq (mem s) h xs" and "keeps mem body" and "var = NULL \<or> var \<in> set xs"
  shows "TAILQ_FOREACH_REVERSE_FROM mem body h var s = visit body (from_elm var (rev xs)) s"
    and "TAILQ_FOREACH_REVERSE_FROM_SAFE mem body h var s = visit body (from_elm var (rev xs)) s"
proof -
  have follow: "follows (TAILQ_PREV (mem s)) (rev xs)"
    using tailq_backwards [OF assms(1)] by (simp add: follows_def)
  have var: "var = NULL \<or> var \<in> set (rev xs)" using assms(3) by simp
  note foreach_from [OF keeps_comp [OF assms(2), of TAILQ_PREV] follow var]
  then show "TAILQ_FOREACH_REVERSE_FROM mem body h var s = visit body (from_elm var (rev xs)) s"
    "TAILQ_FOREACH_REVERSE_FROM_SAFE mem body h var s = visit body (from_elm var (rev xs)) s"
    using tailq_last_rev [OF assms(1)]
    by (auto simp: TAILQ_FOREACH_REVERSE_FROM_def TAILQ_FOREACH_REVERSE_FROM_SAFE_def split: if_splits)
qed

text \<open>
  The loop with the previous field visits the elements in order, each with the address of the field
  that refers to it; through that address an element is removed at once, without a search.
\<close>

fun visit_cells :: "(ptr \<Rightarrow> cell \<Rightarrow> 's \<Rightarrow> 's option) \<Rightarrow> cell \<Rightarrow> ptr list \<Rightarrow> 's \<Rightarrow> 's option" where
  "visit_cells body c [] s = Some s"
| "visit_cells body c (x # xs) s = do { s' \<leftarrow> body x c s; visit_cells body (Elm x) xs s' }"

lemma prevptr_loop_visits:
  assumes "chain (fwd (mem s)) c xs" and "c \<noteq> Elm NULL"
    and "\<And>x c s s'. body x c s = Some s' \<Longrightarrow> mem s' = mem s"
  shows "slist_prevptr_loop mem body c s = visit_cells body c xs s"
  using assms(1,2)
proof (induction xs arbitrary: c s)
  case Nil
  then show ?case by (subst slist_prevptr_loop.simps) (simp add: get_def)
next
  case (Cons x xs)
  then have "body x c s = Some s' \<Longrightarrow> slist_prevptr_loop mem body (Elm x) s' = visit_cells body (Elm x) xs s'" for s'
    using assms(3) by (intro Cons.IH) auto
  with Cons.prems show ?case
    by (subst slist_prevptr_loop.simps) (cases "body x c s"; simp add: get_def)
qed

lemma remove_prevptr_chain:
  assumes "chain (fwd m) (Head h) (xs @ x # ys)"
  shows "\<exists>m'. SLIST_REMOVE_PREVPTR A m (last_cell (Head h) xs) x = Some m' \<and>
    chain (fwd m') (Head h) (xs @ ys) \<and> same_outside (cells_of h xs) m m'"
proof -
  have "distinct (xs @ x # ys)" by (rule chain_distinct [OF assms])
  with assms show ?thesis
    by (cases xs rule: rev_cases; cases ys) (auto simp: SLIST_REMOVE_PREVPTR_def QMD_SLIST_CHECK_PREVPTR_def put_def get_def same_outside_def)
qed

end
