(* ===== verification/Queue_Debug.thy ===== *)
theory Queue_Debug
  imports Server Queue_Variants
begin

text \<open>
  The debug modes of \<open>server/queue.h\<close>.  With \<open>QUEUE_MACRO_DEBUG_TRASH\<close> the links of an element that is taken
  out are overwritten by \<open>(void *)-1\<close>; with \<open>QUEUE_MACRO_DEBUG_TRACE\<close> heads and elements of tail queues
  record the last two places that altered them.  The theory shows that a program that uses its
  queues properly does not notice these modes, and the server's reaping in particular.
\<close>

section \<open>Trashed links\<close>

definition TRASHED :: ptr where
  "TRASHED = 2 ^ 64 - 1"

text \<open>
  \<open>QMD_SAVELINK\<close> takes the address of the removed element's link before the links change, \<open>TRASHIT\<close> writes
  through it afterwards.
\<close>

definition TRASHIT :: "links \<Rightarrow> ptr \<Rightarrow> links option" where
  "TRASHIT l oldnext = set_next l oldnext TRASHED"

definition QMD_IS_TRASHED :: "ptr \<Rightarrow> bool" where
  "QMD_IS_TRASHED p \<longleftrightarrow> p = TRASHED"

definition SLIST_REMOVE_AFTER_trash :: "links \<Rightarrow> ptr \<Rightarrow> links option" where
  "SLIST_REMOVE_AFTER_trash l elm = do {
     oldnext \<leftarrow> SLIST_NEXT l elm;
     l1 \<leftarrow> SLIST_REMOVE_AFTER l elm;
     TRASHIT l1 oldnext
   }"

definition SLIST_REMOVE_HEAD_trash :: "slist_head \<Rightarrow> links \<Rightarrow> (slist_head \<times> links) option" where
  "SLIST_REMOVE_HEAD_trash head l = (let oldnext = SLIST_FIRST head in do {
     head' \<leftarrow> SLIST_REMOVE_HEAD head l;
     l' \<leftarrow> TRASHIT l oldnext;
     Some (head', l')
   })"

definition SLIST_REMOVE_trash :: "slist_head \<Rightarrow> links \<Rightarrow> ptr \<Rightarrow> (slist_head \<times> links) option" where
  "SLIST_REMOVE_trash head l elm =
     (if SLIST_FIRST head = elm then SLIST_REMOVE_HEAD_trash head l
      else do {
        prev \<leftarrow> slist_prev l elm (SLIST_FIRST head);
        l' \<leftarrow> SLIST_REMOVE_AFTER_trash l prev;
        Some (head, l')
      })"

text \<open>In the other queues the element's two fields are trashed, in \<open>STAILQ\<close> its only one.\<close>

definition TRASHIT_next :: "qmem \<Rightarrow> ptr \<Rightarrow> qmem option" where
  "TRASHIT_next m elm = put m (Elm elm) TRASHED"

definition TRASHIT_prev :: "qmem \<Rightarrow> ptr \<Rightarrow> qmem option" where
  "TRASHIT_prev m elm = putb m (Elm elm) (Elm TRASHED)"

definition SLIST_REMOVE_PREVPTR_trash :: "bool \<Rightarrow> qmem \<Rightarrow> cell \<Rightarrow> ptr \<Rightarrow> qmem option" where
  "SLIST_REMOVE_PREVPTR_trash A m prevp elm = do { m1 \<leftarrow> SLIST_REMOVE_PREVPTR A m prevp elm; TRASHIT_next m1 elm }"

definition STAILQ_REMOVE_trash :: "qmem \<Rightarrow> ptr \<Rightarrow> ptr \<Rightarrow> qmem option" where
  "STAILQ_REMOVE_trash m head elm = do { m1 \<leftarrow> STAILQ_REMOVE m head elm; TRASHIT_next m1 elm }"

definition LIST_REMOVE_trash :: "bool \<Rightarrow> qmem \<Rightarrow> ptr \<Rightarrow> qmem option" where
  "LIST_REMOVE_trash A m elm = do {
     m1 \<leftarrow> LIST_REMOVE A m elm;
     m2 \<leftarrow> TRASHIT_next m1 elm;
     TRASHIT_prev m2 elm
   }"

definition LIST_REPLACE_trash :: "bool \<Rightarrow> qmem \<Rightarrow> ptr \<Rightarrow> ptr \<Rightarrow> qmem option" where
  "LIST_REPLACE_trash A m elm elm2 = do {
     m1 \<leftarrow> LIST_REPLACE A m elm elm2;
     m2 \<leftarrow> TRASHIT_next m1 elm;
     TRASHIT_prev m2 elm
   }"

definition TAILQ_REMOVE_trash :: "bool \<Rightarrow> qmem \<Rightarrow> ptr \<Rightarrow> ptr \<Rightarrow> qmem option" where
  "TAILQ_REMOVE_trash A m head elm = do {
     m1 \<leftarrow> TAILQ_REMOVE A m head elm;
     m2 \<leftarrow> TRASHIT_next m1 elm;
     TRASHIT_prev m2 elm
   }"

definition TAILQ_REPLACE_trash :: "bool \<Rightarrow> qmem \<Rightarrow> ptr \<Rightarrow> ptr \<Rightarrow> ptr \<Rightarrow> qmem option" where
  "TAILQ_REPLACE_trash A m head elm elm2 = do {
     m1 \<leftarrow> TAILQ_REPLACE A m head elm elm2;
     m2 \<leftarrow> TRASHIT_next m1 elm;
     TRASHIT_prev m2 elm
   }"

section \<open>The server with trashed links\<close>

text \<open>\<open>reap_threads\<close> compiled with \<open>QUEUE_MACRO_DEBUG_TRASH\<close>.\<close>

definition slist_remove_node_trash :: "ptr \<Rightarrow> server \<Rightarrow> server option" where
  "slist_remove_node_trash p s = do {
     (head', l') \<leftarrow> SLIST_REMOVE_trash (conn_node_head s) (node_links s) p;
     Some (s\<lparr>conn_node_head := head', node_links := l'\<rparr>)
   }"

definition reap_body_trash :: "ptr \<Rightarrow> server \<times> int \<Rightarrow> (server \<times> int) option" where
  "reap_body_trash cur_node = (\<lambda>(s, reaped_count). do {
     n \<leftarrow> conn_nodes s cur_node;
     if finished n then do {
       tid \<leftarrow> thread_id n;
       s1 \<leftarrow> pthread_join tid s;
       s2 \<leftarrow> slist_remove_node_trash cur_node s1;
       s3 \<leftarrow> free_node cur_node s2;
       Some (s3, reaped_count + 1)
     }
     else Some (s, reaped_count)
   })"

definition reap_threads_trash :: "server \<Rightarrow> (server \<times> int) option" where
  "reap_threads_trash s =
     SLIST_FOREACH_SAFE (\<lambda>(s, c). SLIST_NEXT (node_links s)) reap_body_trash
       (SLIST_FIRST (conn_node_head s)) (s, 0)"

lemma slist_prev_next: "slist_prev l elm p = Some q \<Longrightarrow> SLIST_NEXT l q = Some elm"
  by (rule slist_prev.raw_induct [where P = "\<lambda>l elm p q. SLIST_NEXT l q = Some elm"])
    (auto split: Option.bind_splits if_splits)

text \<open>Trashing changes nothing but the link of the removed element.\<close>

lemma SLIST_REMOVE_trash_eq:
  "SLIST_REMOVE_trash head l elm = map_option (\<lambda>(head', l'). (head', l'(elm \<mapsto> TRASHED))) (SLIST_REMOVE head l elm)"
proof (cases "SLIST_FIRST head = elm")
  case True
  then show ?thesis
    by (cases "SLIST_NEXT l elm")
      (auto simp: SLIST_REMOVE_trash_def SLIST_REMOVE_def SLIST_REMOVE_HEAD_trash_def SLIST_REMOVE_HEAD_def
        TRASHIT_def set_next_def)
next
  case first: False
  show ?thesis
  proof (cases "slist_prev l elm (SLIST_FIRST head)")
    case None
    with first show ?thesis by (simp add: SLIST_REMOVE_trash_def SLIST_REMOVE_def)
  next
    case (Some q)
    note nx = slist_prev_next [OF Some]
    show ?thesis
    proof (cases "SLIST_NEXT l elm")
      case None
      with first Some nx show ?thesis
        by (simp add: SLIST_REMOVE_trash_def SLIST_REMOVE_def SLIST_REMOVE_AFTER_trash_def SLIST_REMOVE_AFTER_def)
    next
      case (Some n)
      then have "elm \<noteq> NULL" "SLIST_NEXT (l(q \<mapsto> n)) elm \<noteq> None" by (auto simp: SLIST_NEXT_def split: if_splits)
      with first \<open>slist_prev l elm (SLIST_FIRST head) = Some q\<close> nx Some show ?thesis
        by (auto simp: SLIST_REMOVE_trash_def SLIST_REMOVE_def SLIST_REMOVE_AFTER_trash_def SLIST_REMOVE_AFTER_def
            TRASHIT_def set_next_def)
    qed
  qed
qed

lemma remove_free_trash:
  "do { s1 \<leftarrow> slist_remove_node_trash p s; free_node p s1 } = do { s1 \<leftarrow> slist_remove_node p s; free_node p s1 }"
  by (cases "SLIST_REMOVE (conn_node_head s) (node_links s) p")
    (auto simp: slist_remove_node_trash_def slist_remove_node_def SLIST_REMOVE_trash_eq free_node_def)

lemma reap_body_trash_eq: "reap_body_trash = reap_body"
proof (intro ext, clarify)
  fix p s c
  have eq: "do { s2 \<leftarrow> slist_remove_node_trash p s1; s3 \<leftarrow> free_node p s2; Some (s3, c + 1) } =
      do { s2 \<leftarrow> slist_remove_node p s1; s3 \<leftarrow> free_node p s2; Some (s3, c + 1) }" for s1 and c :: int
    using arg_cong [OF remove_free_trash [of p s1], of "\<lambda>x. do { s3 \<leftarrow> x; Some (s3, c + 1) }"] by simp
  show "reap_body_trash p (s, c) = reap_body p (s, c)" by (simp only: reap_body_trash_def reap_body_def prod.case eq)
qed


section \<open>Queues with trashed links\<close>

definition trashed :: "qmem \<Rightarrow> ptr \<Rightarrow> bool" where
  "trashed m x \<longleftrightarrow> fwd m (Elm x) = Some TRASHED \<and> bwd m (Elm x) = Some (Elm TRASHED)"

text \<open>Trashing an element that an operation has taken out, in a queue that is not the element's.\<close>

lemma trash_taken_out:
  assumes "spare m x" and "same_outside S m m1"
  shows "\<exists>m2. do { m' \<leftarrow> TRASHIT_next m1 x; TRASHIT_prev m' x } = Some m2 \<and> trashed m2 x \<and>
    (\<forall>h ws. x \<notin> set ws \<longrightarrow> blist m2 h ws = blist m1 h ws \<and> tailq m2 h ws = tailq m1 h ws)"
proof -
  have "x \<noteq> NULL" "fwd m1 (Elm x) \<noteq> None" "bwd m1 (Elm x) \<noteq> None"
    using assms(1) same_outside_live [OF assms(2), of "Elm x"] by (auto simp: spare_def)
  then show ?thesis
    by (intro exI [of _ "m1\<lparr>fwd := (fwd m1)(Elm x \<mapsto> TRASHED), bwd := (bwd m1)(Elm x \<mapsto> Elm TRASHED)\<rparr>"])
      (auto simp: TRASHIT_next_def TRASHIT_prev_def put_def putb_def trashed_def blist_def tailq_def)
qed

lemma LIST_trash:
  assumes "blist m h (xs @ x # ys)" and "spare m y" and "y \<notin> set (xs @ x # ys)"
  shows "\<exists>m'. LIST_REMOVE_trash A m x = Some m' \<and> blist m' h (xs @ ys) \<and> trashed m' x"
    and "\<exists>m'. LIST_REPLACE_trash A m x y = Some m' \<and> blist m' h (xs @ y # ys) \<and> trashed m' x"
proof -
  have x: "spare m x" "x \<notin> set (xs @ ys)" "x \<noteq> y"
    using blist_spare [OF assms(1), of x] blist_distinct [OF assms(1)] assms(3) by auto
  obtain m1 where m1: "LIST_REMOVE A m x = Some m1" "blist m1 h (xs @ ys)" "same_outside (cells_of h (xs @ ys)) m m1"
    using remove_blist [OF assms(1)] by blast
  from trash_taken_out [OF x(1) m1(3)] m1(1,2) x(2)
  show "\<exists>m'. LIST_REMOVE_trash A m x = Some m' \<and> blist m' h (xs @ ys) \<and> trashed m' x"
    by (auto simp: LIST_REMOVE_trash_def)
  obtain m2 where m2: "LIST_REPLACE A m x y = Some m2" "blist m2 h (xs @ y # ys)"
      "same_outside (cells_of h (xs @ y # ys)) m m2"
    using replace_blist [OF assms] by blast
  from trash_taken_out [OF x(1) m2(3)] m2(1,2) x(2,3)
  show "\<exists>m'. LIST_REPLACE_trash A m x y = Some m' \<and> blist m' h (xs @ y # ys) \<and> trashed m' x"
    by (auto simp: LIST_REPLACE_trash_def)
qed

lemma TAILQ_trash:
  assumes "tailq m h (xs @ x # ys)" and "spare m y" and "y \<notin> set (xs @ x # ys)"
  shows "\<exists>m'. TAILQ_REMOVE_trash A m h x = Some m' \<and> tailq m' h (xs @ ys) \<and> trashed m' x"
    and "\<exists>m'. TAILQ_REPLACE_trash A m h x y = Some m' \<and> tailq m' h (xs @ y # ys) \<and> trashed m' x"
proof -
  have x: "spare m x" "x \<notin> set (xs @ ys)" "x \<noteq> y"
    using tailq_spare [OF assms(1), of x] tailq_distinct [OF assms(1)] assms(3) by auto
  obtain m1 where m1: "TAILQ_REMOVE A m h x = Some m1" "tailq m1 h (xs @ ys)" "same_outside (cells_of h (xs @ ys)) m m1"
    using remove_tailq [OF assms(1)] by blast
  from trash_taken_out [OF x(1) m1(3)] m1(1,2) x(2)
  show "\<exists>m'. TAILQ_REMOVE_trash A m h x = Some m' \<and> tailq m' h (xs @ ys) \<and> trashed m' x"
    by (auto simp: TAILQ_REMOVE_trash_def)
  obtain m2 where m2: "TAILQ_REPLACE A m h x y = Some m2" "tailq m2 h (xs @ y # ys)"
      "same_outside (cells_of h (xs @ y # ys)) m m2"
    using replace_tailq [OF assms] by blast
  from trash_taken_out [OF x(1) m2(3)] m2(1,2) x(2,3)
  show "\<exists>m'. TAILQ_REPLACE_trash A m h x y = Some m' \<and> tailq m' h (xs @ y # ys) \<and> trashed m' x"
    by (auto simp: TAILQ_REPLACE_trash_def)
qed

lemma TRASHIT_next_chain:
  assumes "chain (fwd m) (Head h) (xs @ x # ys)" and "same_outside S m m1" and "chain (fwd m1) (Head h) (xs @ ys)"
  shows "\<exists>m2. TRASHIT_next m1 x = Some m2 \<and> chain (fwd m2) (Head h) (xs @ ys) \<and> bwd m2 = bwd m1 \<and>
    fwd m2 (Elm x) = Some TRASHED"
proof -
  have "x \<noteq> NULL" "fwd m1 (Elm x) \<noteq> None" "x \<notin> set (xs @ ys)"
    using fwds_nonnull [OF chain_fwds [OF assms(1)], of x] chain_live [OF assms(1), of x]
      same_outside_live(1) [OF assms(2), of "Elm x"] chain_distinct [OF assms(1)]
    by auto
  with assms(3) show ?thesis by (auto simp: TRASHIT_next_def put_def)
qed

lemma STAILQ_trash:
  assumes "stailq m h (xs @ x # ys)"
  shows "\<exists>m'. STAILQ_REMOVE_trash m h x = Some m' \<and> stailq m' h (xs @ ys) \<and> fwd m' (Elm x) = Some TRASHED"
proof -
  obtain m1 where m1: "STAILQ_REMOVE m h x = Some m1" "stailq m1 h (xs @ ys)" "same_outside (cells_of h (xs @ ys)) m m1"
    using remove_stailq [OF assms] by blast
  with TRASHIT_next_chain [of m h xs x ys, OF _ m1(3)] assms show ?thesis
    by (auto simp: STAILQ_REMOVE_trash_def stailq_def)
qed

lemma PREVPTR_trash:
  assumes "chain (fwd m) (Head h) (xs @ x # ys)"
  shows "\<exists>m'. SLIST_REMOVE_PREVPTR_trash A m (last_cell (Head h) xs) x = Some m' \<and> chain (fwd m') (Head h) (xs @ ys) \<and>
    fwd m' (Elm x) = Some TRASHED"
proof -
  obtain m1 where m1: "SLIST_REMOVE_PREVPTR A m (last_cell (Head h) xs) x = Some m1" "chain (fwd m1) (Head h) (xs @ ys)"
      "same_outside (cells_of h xs) m m1"
    using remove_prevptr_chain [OF assms] by blast
  with TRASHIT_next_chain [OF assms m1(3,2)] show ?thesis by (auto simp: SLIST_REMOVE_PREVPTR_trash_def)
qed

section \<open>Traces\<close>

text \<open>
  \<open>struct qm_trace\<close>: the last two places, as line and file, that altered a head or an entry; a place that
  is not there is \<open>(0, None)\<close>.  What a macro traces is given as the list of structures, in order; a
  macro is at one place, that of its use.
\<close>

record qm_trace =
  lastline :: nat
  prevline :: nat
  lastfile :: "string option"
  prevfile :: "string option"

definition QMD_TRACE :: "nat \<Rightarrow> string \<Rightarrow> qm_trace \<Rightarrow> qm_trace" where
  "QMD_TRACE line file t =
     (let t1 = t\<lparr>prevline := lastline t\<rparr>;
          t2 = t1\<lparr>prevfile := lastfile t1\<rparr>;
          t3 = t2\<lparr>lastline := line\<rparr> in
      t3\<lparr>lastfile := Some file\<rparr>)"

definition TRACEBUF_INITIALIZER :: "nat \<Rightarrow> string \<Rightarrow> qm_trace" where
  "TRACEBUF_INITIALIZER line file = \<lparr>lastline = line, prevline = 0, lastfile = Some file, prevfile = None\<rparr>"

text \<open>
  What each macro of the tail queues traces, read off the memory \<open>m\<close> before it.  \<open>TAILQ_CONCAT\<close> and
  \<open>TAILQ_SPLIT_AFTER\<close> trace through \<open>TAILQ_INIT\<close> too; \<open>TAILQ_SWAP\<close> traces nothing.
\<close>

definition TAILQ_INIT_traces :: "ptr \<Rightarrow> cell list" where
  "TAILQ_INIT_traces head = [Head head]"

definition TAILQ_CONCAT_traces :: "qmem \<Rightarrow> ptr \<Rightarrow> ptr \<Rightarrow> cell list" where
  "TAILQ_CONCAT_traces m head1 head2 =
     (if TAILQ_EMPTY m head2 = Some False then TAILQ_INIT_traces head2 @ [Head head1, Head head2] else [])"

definition TAILQ_INSERT_AFTER_traces :: "qmem \<Rightarrow> ptr \<Rightarrow> ptr \<Rightarrow> ptr \<Rightarrow> cell list" where
  "TAILQ_INSERT_AFTER_traces m head listelm elm =
     (if TAILQ_NEXT m listelm = Some NULL then [Head head] else []) @ [Elm elm, Elm listelm]"

definition TAILQ_INSERT_BEFORE_traces :: "ptr \<Rightarrow> ptr \<Rightarrow> cell list" where
  "TAILQ_INSERT_BEFORE_traces listelm elm = [Elm elm, Elm listelm]"

definition TAILQ_INSERT_HEAD_traces :: "ptr \<Rightarrow> ptr \<Rightarrow> cell list" where
  "TAILQ_INSERT_HEAD_traces head elm = [Head head, Elm elm]"

definition TAILQ_INSERT_TAIL_traces :: "ptr \<Rightarrow> ptr \<Rightarrow> cell list" where
  "TAILQ_INSERT_TAIL_traces head elm = [Head head, Elm elm]"

definition TAILQ_REMOVE_traces :: "qmem \<Rightarrow> ptr \<Rightarrow> ptr \<Rightarrow> cell list" where
  "TAILQ_REMOVE_traces m head elm = (if TAILQ_NEXT m elm = Some NULL then [Head head] else []) @ [Elm elm]"

definition TAILQ_REPLACE_traces :: "ptr \<Rightarrow> cell list" where
  "TAILQ_REPLACE_traces elm = [Elm elm]"

definition TAILQ_SPLIT_AFTER_traces :: "qmem \<Rightarrow> ptr \<Rightarrow> ptr \<Rightarrow> cell list" where
  "TAILQ_SPLIT_AFTER_traces m elm rest =
     (if TAILQ_NEXT m elm = Some NULL then TAILQ_INIT_traces rest else [])"

datatype tailq_op =
    Op_init ptr
  | Op_concat ptr ptr
  | Op_insert_after ptr ptr ptr
  | Op_insert_before ptr ptr
  | Op_insert_head ptr ptr
  | Op_insert_tail ptr ptr
  | Op_remove ptr ptr
  | Op_replace ptr ptr ptr
  | Op_split_after ptr ptr ptr
  | Op_swap ptr ptr

text \<open>The macro, and the heads and entries it traces.\<close>

fun run_op :: "bool \<Rightarrow> tailq_op \<Rightarrow> qmem \<Rightarrow> qmem option" where
  "run_op A (Op_init head) m = TAILQ_INIT m head"
| "run_op A (Op_concat head1 head2) m = TAILQ_CONCAT m head1 head2"
| "run_op A (Op_insert_after head listelm elm) m = TAILQ_INSERT_AFTER A m head listelm elm"
| "run_op A (Op_insert_before listelm elm) m = TAILQ_INSERT_BEFORE A m listelm elm"
| "run_op A (Op_insert_head head elm) m = TAILQ_INSERT_HEAD A m head elm"
| "run_op A (Op_insert_tail head elm) m = TAILQ_INSERT_TAIL A m head elm"
| "run_op A (Op_remove head elm) m = TAILQ_REMOVE A m head elm"
| "run_op A (Op_replace head elm elm2) m = TAILQ_REPLACE A m head elm elm2"
| "run_op A (Op_split_after head elm rest) m = TAILQ_SPLIT_AFTER A m head elm rest"
| "run_op A (Op_swap head1 head2) m = TAILQ_SWAP m head1 head2"

fun traced_cells :: "tailq_op \<Rightarrow> qmem \<Rightarrow> cell list" where
  "traced_cells (Op_init head) m = TAILQ_INIT_traces head"
| "traced_cells (Op_concat head1 head2) m = TAILQ_CONCAT_traces m head1 head2"
| "traced_cells (Op_insert_after head listelm elm) m = TAILQ_INSERT_AFTER_traces m head listelm elm"
| "traced_cells (Op_insert_before listelm elm) m = TAILQ_INSERT_BEFORE_traces listelm elm"
| "traced_cells (Op_insert_head head elm) m = TAILQ_INSERT_HEAD_traces head elm"
| "traced_cells (Op_insert_tail head elm) m = TAILQ_INSERT_TAIL_traces head elm"
| "traced_cells (Op_remove head elm) m = TAILQ_REMOVE_traces m head elm"
| "traced_cells (Op_replace head elm elm2) m = TAILQ_REPLACE_traces elm"
| "traced_cells (Op_split_after head elm rest) m = TAILQ_SPLIT_AFTER_traces m elm rest"
| "traced_cells (Op_swap head1 head2) m = []"

type_synonym place = "nat \<times> string"

fun run_traced ::
  "bool \<Rightarrow> (tailq_op \<times> place) list \<Rightarrow> qmem \<Rightarrow> (cell \<Rightarrow> qm_trace) \<Rightarrow> (qmem \<times> (cell \<Rightarrow> qm_trace)) option"
where
  "run_traced A [] m T = Some (m, T)"
| "run_traced A ((op, line, file) # ops) m T = do {
     m' \<leftarrow> run_op A op m;
     run_traced A ops m' (fold (\<lambda>c T. T(c := QMD_TRACE line file (T c))) (traced_cells op m) T)
   }"

text \<open>The macros without tracing, and the places at which a structure is traced.\<close>

fun run_ops :: "bool \<Rightarrow> (tailq_op \<times> place) list \<Rightarrow> qmem \<Rightarrow> qmem option" where
  "run_ops A [] m = Some m"
| "run_ops A ((op, pl) # ops) m = do { m' \<leftarrow> run_op A op m; run_ops A ops m' }"

fun places_of :: "bool \<Rightarrow> cell \<Rightarrow> (tailq_op \<times> place) list \<Rightarrow> qmem \<Rightarrow> place list" where
  "places_of A c [] m = []"
| "places_of A c ((op, pl) # ops) m = replicate (count_list (traced_cells op m) c) pl @
     (case run_op A op m of None \<Rightarrow> [] | Some m' \<Rightarrow> places_of A c ops m')"

definition recent :: "qm_trace \<Rightarrow> (nat \<times> string option) list" where
  "recent t = [(prevline t, prevfile t), (lastline t, lastfile t)]"

abbreviation seen :: "place \<Rightarrow> nat \<times> string option" where
  "seen \<equiv> map_prod id Some"

lemma recent_trace: "recent (QMD_TRACE line file t) = last_n 2 (recent t @ [seen (line, file)])"
  by (simp add: recent_def QMD_TRACE_def last_n_def)

lemma recent_two: "last_n 2 (recent t) = recent t"
  by (simp add: recent_def last_n_def)

lemma recent_fold:
  "recent (fold (\<lambda>c T. T(c := QMD_TRACE line file (T c))) cs T c) =
     last_n 2 (recent (T c) @ replicate (count_list cs c) (seen (line, file)))"
proof (induction cs arbitrary: T)
  case (Cons d cs)
  have "last_n 2 (last_n 2 (recent t @ [p]) @ ps) = last_n 2 (recent t @ p # ps)" for t p ps
    by (simp add: last_n_append_last_n)
  with Cons show ?case by (simp add: recent_trace)
qed (simp add: recent_two)

text \<open>
  Tracing does not change what the macros do to the queues, and every head and entry shows at any
  time the last two places at which a macro traced it.
\<close>

theorem traces_last_two:
  "map_option (\<lambda>(m', T). (m', recent \<circ> T)) (run_traced A ops m T) =
     map_option (\<lambda>m'. (m', \<lambda>c. last_n 2 (recent (T c) @ map seen (places_of A c ops m)))) (run_ops A ops m)"
proof (induction ops arbitrary: m T)
  case Nil
  then show ?case by (simp add: fun_eq_iff recent_two)
next
  case (Cons x ops)
  obtain op ln fl where x: "x = (op, ln, fl)" by (cases x)
  show ?case
  proof (cases "run_op A op m")
    case (Some m1)
    show ?thesis
      using Cons [of m1 "fold (\<lambda>c T. T(c := QMD_TRACE ln fl (T c))) (traced_cells op m) T"]
      by (simp add: x Some recent_fold last_n_append_last_n)
  qed (simp add: x)
qed

end
