(* ===== verification/Ioctl_Test.thy ===== *)
theory Ioctl_Test
  imports Handler_Theorems
begin

text \<open>
  The program \<open>aesd-char-driver/ioctl_test.c\<close>: it seeks the device to a byte of a command given on
  the command line and prints the character read there.  It uses the same system calls as the
  server, so it runs on the same worlds.
\<close>

section \<open>The program\<close>

text \<open>\<open>atoi\<close>: the number at the front of the string, or 0.\<close>

definition atoi :: "(int \<Rightarrow> 32 word) \<Rightarrow> string \<Rightarrow> 32 word" where
  "atoi I s = I (case scan_d s of None \<Rightarrow> 0 | Some (n, rest) \<Rightarrow> n)"

text \<open>
  \<open>open_rdwr\<close> is \<open>open\<close> of the device with \<open>O_RDWR\<close>.  What the program prints: the result of the ioctl and the character.  The variable \<open>buf\<close> has no
  value when \<open>read\<close> returns 0; then the printed character is None.
\<close>

definition ioctl_test_main ::
  "'w hapi \<Rightarrow> ('w \<Rightarrow> (int \<times> 'w) option) \<Rightarrow> string list \<Rightarrow> 'w \<Rightarrow> (int \<times> (int \<times> byte option) option \<times> 'w) option"
where
  "ioctl_test_main K open_rdwr argv w =
     (if length argv \<noteq> 3 then Some (1, None, w)
      else do {
        (fd, w1) \<leftarrow> open_rdwr w;
        if fd < 0 then Some (1, None, w1)
        else do {
          let seekto = \<lparr>write_cmd = atoi (libc_int K) (argv ! 1),
            write_cmd_offset = atoi (libc_int K) (argv ! 2)\<rparr>;
          (result, w2) \<leftarrow> sys_ioctl K w1 fd seekto;
          if result \<noteq> 0 then do {
            w3 \<leftarrow> sys_close K w2 fd;
            Some (1, None, w3)
          }
          else do {
            (c, w3) \<leftarrow> sys_read K w2 fd 1;
            w4 \<leftarrow> sys_close K w3 fd;
            case c of
              None \<Rightarrow> Some (1, None, w4)
            | Some bs \<Rightarrow> Some (0, Some (result, if bs = [] then None else Some (hd bs)), w4)
          }
        }
      })"

section \<open>Properties\<close>

text \<open>
  (C33) On the driver, before the ring has wrapped: given two decimal numbers that name a byte of a
  command, the program exits with 0 and prints that byte, or exits with 1 when the device could not
  be opened; the device's contents and the open descriptors are as before.
\<close>

theorem ioctl_test_prints_byte:
  assumes inv: "vfs_inv w" and rel: "vfs_reliable w" and seek: "vfs_seek_ok w"
    and out: "out_offs (buffer (aesd_device (kern (vsys w)))) = 0"
    and byte: "log_seek (unat (I (int a))) (unat (I (int b))) (vfs_dev w) = Some q"
  shows "\<exists>status printed w'. ioctl_test_main (aesd_hapi M R I) vfs_open [prog, decimal a, decimal b] w =
      Some (status, printed, w') \<and> vfs_dev w' = vfs_dev w \<and> vfs_fds w' = vfs_fds w \<and>
    (status = 1 \<and> printed = None \<and> h_fd (now w) (vsys w) = None \<or>
     status = 0 \<and> printed = Some (0, Some (log_contents (vfs_dev w) ! q)))"
proof -
  have num: "atoi I (decimal n) = I (int n)" for n
    using scan_d_decimal [of "[]" n] by (simp add: atoi_def)
  show ?thesis
  proof (cases "h_fd (now w) (vsys w)")
    case None
    then show ?thesis
      by (simp add: ioctl_test_main_def vfs_open_def vfs_dev_def)
  next
    case (Some fd)
    let ?fd = "int fd" and ?seekto = "\<lparr>write_cmd = I (int a), write_cmd_offset = I (int b)\<rparr>"
    let ?w1 = "set_file w (kern (vsys w)) fd (Some \<lparr>private_data = Some Aesd_device, f_pos = 0\<rparr>)"
    have op: "vfs_open w = Some (?fd, ?w1)"
      using Some by (simp add: vfs_open_def aesd_fops_def aesd_open_def)
    with vfs_open_law [OF inv] have w1: "vfs_inv ?w1" "vfs_dev ?w1 = vfs_dev w" "vfs_fds w ?fd = None"
        "vfs_fds ?w1 = (vfs_fds w)(?fd \<mapsto> 0)" by auto
    have pre: "vfs_fds ?w1 ?fd = Some 0" "vfs_seek_ok ?w1" "vfs_reliable ?w1"
      "out_offs (buffer (aesd_device (kern (vsys ?w1)))) = 0"
      using w1(4) seek rel out by (simp_all add: vfs_seek_ok_def)
    have at: "log_seek (unat (write_cmd ?seekto)) (unat (write_cmd_offset ?seekto)) (vfs_dev ?w1) = Some q"
      using byte w1(2) by simp
    obtain w2 where w2: "vfs_ioctl ?w1 ?fd ?seekto = Some (0, w2)" "vfs_inv w2"
        "vfs_dev w2 = vfs_dev w" "vfs_reliable w2" "vfs_fds w2 = (vfs_fds w)(?fd \<mapsto> q)"
      using vfs_ioctl_seeks [OF w1(1) pre(1,2,4) at] unfolding w1(2,4) fun_upd_upd
      using pre(3) by blast
    have "vfs_fds w2 ?fd = Some q" using w2(5) by simp
    from vfs_read_law [OF w2(2) this, of 1] w2(3,4)
    obtain bs w3 where w3: "vfs_read w2 ?fd 1 = Some (Some bs, w3)" "vfs_inv w3" "vfs_dev w3 = vfs_dev w"
        "bs = take (length bs) (drop q (log_contents (vfs_dev w)))" "bs \<noteq> []"
        "vfs_fds w3 = (vfs_fds w2)(?fd \<mapsto> q + length bs)" "vfs_reliable w3"
      using log_seek_bound [OF byte] by (auto simp: MAX_RW_COUNT_def split: option.splits)
    have hd: "hd bs = log_contents (vfs_dev w) ! q"
      using w3(4,5) log_seek_bound [OF byte] by (metis hd_drop_conv_nth hd_take length_greater_0_conv)
    have "vfs_fds w3 ?fd = Some (q + length bs)" using w3(6) by simp
    from vfs_close_law [OF w3(2) this] obtain w4 where w4: "vfs_close w3 ?fd = Some w4"
        "vfs_dev w4 = vfs_dev w" "vfs_fds w4 = (vfs_fds w3)(?fd := None)" using w3(3) by auto
    have "vfs_fds w4 = vfs_fds w" using w4(3) w3(6) w2(5) w1(3) by (simp add: fun_upd_idem)
    with op w2(1) w3(1,5) w4(1,2) hd num disturb_quiet [OF pre(3)] disturb_quiet [OF w2(4)]
      disturb_quiet [OF w3(7)]
    show ?thesis by (simp add: ioctl_test_main_def)
  qed
qed

theorem ioctl_test_prints_byte_witness:
  "\<exists>w'. ioctl_test_main sample_hapi vfs_open [''ioctl_test'', ''0'', ''1''] sample_world =
     Some (0, Some (0, Some (CHR ''b'')), w') \<and> vfs_dev w' = vfs_dev sample_world"
proof -
  have "ioc_ok ((sample_kapi [])\<lparr>copy_seekto_from_user := x\<rparr>)" for x
    using sample_ioc_ok [of "[]"] by (simp add: ioc_ok_def)
  then have seek: "vfs_seek_ok sample_world"
    by (simp add: vfs_seek_ok_def sample_world_def sample_host_def sample_kapi_def)
  have out: "out_offs (buffer (aesd_device (kern (vsys sample_world)))) = 0" by code_simp
  have dev: "vfs_dev sample_world = \<lparr>cmds = [''ab'' @ [newline]], pending = ''c''\<rparr>"
    using sample_dev_abs by (simp add: vfs_dev_def sample_world_def)
  have byte: "log_seek (unat (word_of_int (int 0) :: 32 word)) (unat (word_of_int (int 1) :: 32 word))
      (vfs_dev sample_world) = Some 1"
    by (simp add: dev log_seek_def)
  have num: "decimal 0 = ''0''" "decimal 1 = ''1''" by code_simp+
  have fd: "h_fd (now sample_world) (vsys sample_world) = Some 4" by code_simp
  have "log_contents (vfs_dev sample_world) ! 1 = CHR ''b''" by (simp add: dev log_contents_def)
  with ioctl_test_prints_byte [OF sample_world_inv sample_world_reliable seek out byte,
      of sample_malloc sample_realloc "''ioctl_test''"] fd
  show ?thesis unfolding num by auto
qed

end
