(* ===== verification/Systemcalls.thy ===== *)
theory Systemcalls
  imports Aesd_Prelude
begin

text \<open>
  The process helpers of \<open>examples/systemcalls/systemcalls.c\<close>.  A call of \<open>do_exec\<close> or
  \<open>do_exec_redirect\<close> runs in two processes after \<open>fork\<close>, and both continue in the function's body;
  the model gives the outcome in the process that sees a given result of \<open>fork\<close>, and composes the
  two through the status the parent waits for.
\<close>

section \<open>Data and the process interface\<close>

text \<open>
  How a process leaves the function: it returns to its caller, exits, or is replaced by the
  program it executes.
\<close>

datatype outcome = Returns bool | Exits nat | Replaced

text \<open>
  \<open>execv\<close> gives None when it does not return; \<open>wifexited\<close> and \<open>wexitstatus\<close> are the status macros.
\<close>

record proc_os =
  system_call :: "string option \<Rightarrow> int"
  execv :: "string option \<Rightarrow> string option list \<Rightarrow> int option"
  waitpid_result :: int
  wifexited :: "int \<Rightarrow> bool"
  wexitstatus :: "int \<Rightarrow> int"
  open_result :: "string \<Rightarrow> int"
  dup2_result :: int

section \<open>Operations\<close>

definition do_system :: "proc_os \<Rightarrow> string option \<Rightarrow> bool" where
  "do_system os cmd =
     (let ret = system_call os cmd in
      if cmd = None \<and> ret = 0 then False else ret = 0)"

text \<open>The array \<open>command\<close> of \<open>count + 1\<close> pointers, the last one NULL.\<close>

definition command :: "string list \<Rightarrow> string option list" where
  "command args = map Some args @ [None]"

definition parent_waits :: "proc_os \<Rightarrow> int \<Rightarrow> bool option" where
  "parent_waits os status =
     (if waitpid_result os = -1 then Some False
      else if wifexited os status \<and> wexitstatus os status = 0 then Some True
      else None)"

definition do_exec :: "proc_os \<Rightarrow> int \<Rightarrow> int \<Rightarrow> string list \<Rightarrow> outcome" where
  "do_exec os pid status args =
     (if pid = -1 then Returns False
      else if pid = 0 then
        (case execv os (hd (command args)) (command args) of
           None \<Rightarrow> Replaced
         | Some ret \<Rightarrow> if ret = -1 then Exits 1 else Returns False)
      else if pid > 0 then
        (case parent_waits os status of Some r \<Rightarrow> Returns r | None \<Rightarrow> Returns False)
      else Returns False)"

text \<open>
  \<open>do_exec_redirect\<close>: the outcome and whether the descriptor of the output file is still open in
  that process when it leaves the function.
\<close>

definition do_exec_redirect ::
  "proc_os \<Rightarrow> string \<Rightarrow> int \<Rightarrow> int \<Rightarrow> string list \<Rightarrow> outcome \<times> bool"
where
  "do_exec_redirect os outputfile pid status args =
     (let fd = open_result os outputfile in
      if fd = -1 then (Returns False, False)
      else if pid = -1 then (Returns False, True)
      else if pid = 0 then
        if dup2_result os = -1 then (Returns False, True)
        else
          (case execv os (hd (command args)) (command args) of
             None \<Rightarrow> (Replaced, False)
           | Some ret \<Rightarrow> (Returns (ret \<noteq> -1), False))
      else if pid > 0 then
        (case parent_waits os status of Some r \<Rightarrow> (Returns r, False) | None \<Rightarrow> (Returns True, False))
      else (Returns True, True))"

section \<open>Properties\<close>

text \<open>
  \<open>do_system\<close> reports success exactly when a command was given and \<open>system\<close> returned 0: a NULL
  command never counts as success, whether or not there is a shell.
\<close>

theorem do_system_correct:
  "do_system os cmd \<longleftrightarrow> cmd \<noteq> None \<and> system_call os cmd = 0"
  by (auto simp: do_system_def Let_def)

text \<open>
  How a process ends, and documented behaviour of the wait status of each: a process that exits with
  \<open>n\<close> is seen to have exited, with that value; one killed by a signal is not, and what \<open>wexitstatus\<close> then
  gives is unspecified.
\<close>

datatype ending = Exited nat | Signalled nat

definition wait_ok :: "proc_os \<Rightarrow> (ending \<Rightarrow> int) \<Rightarrow> bool" where
  "wait_ok os status_of \<longleftrightarrow> waitpid_result os \<noteq> -1 \<and>
     (\<forall>n < 256. wifexited os (status_of (Exited n)) \<and> wexitstatus os (status_of (Exited n)) = int n) \<and>
     (\<forall>sig. \<not> wifexited os (status_of (Signalled sig)))"

text \<open>
  The ending the parent sees for a child that left \<open>do_exec\<close> in a given way: a child that was replaced
  ends as the program does; one that returned runs on in its caller.
\<close>

definition child_ending :: "ending \<Rightarrow> outcome \<Rightarrow> ending option" where
  "child_ending program r =
     (case r of Exits n \<Rightarrow> Some (Exited n) | Replaced \<Rightarrow> Some program | Returns b \<Rightarrow> None)"


definition sample_os :: proc_os where
  "sample_os = \<lparr>system_call = (\<lambda>c. 0),
     execv = (\<lambda>p argv. if p = Some ''/bin/true'' then None else Some (-1)),
     waitpid_result = 7, wifexited = (\<lambda>s. s mod 128 = 0), wexitstatus = (\<lambda>s. s div 256 mod 256),
     open_result = (\<lambda>f. 3), dup2_result = 1\<rparr>"

fun sample_status :: "ending \<Rightarrow> int" where
  "sample_status (Exited n) = 256 * int n"
| "sample_status (Signalled sig) = int sig mod 126 + 1"

lemma sample_wait_ok: "wait_ok sample_os sample_status"
proof -
  have "(int sig mod 126 + 1) mod 128 = int sig mod 126 + 1" for sig
    using pos_mod_bound [of 126 "int sig"] pos_mod_sign [of 126 "int sig"]
    by (intro mod_pos_pos_trivial) linarith+
  moreover have "int sig mod 126 + 1 \<noteq> 0" for sig using pos_mod_sign [of 126 "int sig"] by linarith
  ultimately show ?thesis by (auto simp: wait_ok_def sample_os_def)
qed


text \<open>
  (C35) \<open>do_exec_redirect\<close> does not report failures of the program: once the file is open, \<open>fork\<close> has
  succeeded and \<open>waitpid\<close> returns, the parent reports true whatever the child's status.  In the
  child a failed \<open>dup2\<close> or \<open>execv\<close> returns into the caller instead of ending the process.
\<close>

theorem do_exec_redirect_ignores_status:
  assumes "open_result os outputfile \<noteq> -1" and "0 < pid" and "waitpid_result os \<noteq> -1"
  shows "fst (do_exec_redirect os outputfile pid status args) = Returns True \<and>
    (execv os (hd (command args)) (command args) = Some (-1) \<longrightarrow>
       fst (do_exec_redirect os outputfile 0 status args) = Returns False)"
  using assms by (auto simp: do_exec_redirect_def parent_waits_def Let_def)

theorem do_exec_redirect_ignores_status_witness:
  "fst (do_exec_redirect sample_os ''out'' 7 256 [''/bin/false'']) = Returns True \<and>
   fst (do_exec_redirect sample_os ''out'' 0 256 [''/bin/false'']) = Returns False"
  using do_exec_redirect_ignores_status [of sample_os "''out''" 7 256 "[''/bin/false'']"]
  by (simp add: sample_os_def command_def)

end
