(* ===== verification/Threading.thy ===== *)
theory Threading
  imports Aesd_Prelude
begin

text \<open>
  The thread helpers of \<open>examples/threading/threading.c\<close>: a thread that waits, takes a mutex, holds
  it and releases it, and the function that starts one.  The waits are 32-bit unsigned, as in
  the source, so the conversion to microseconds wraps.
\<close>

section \<open>Data and the thread interface\<close>

record thread_data =
  tmutex :: ptr
  wait_to_obtain_ms :: uint32_t
  wait_to_release_ms :: uint32_t
  thread_complete_success :: bool

text \<open>
  Results of the calls in one run of a thread, and the calls it makes, in order.
\<close>

record thread_os =
  usleep_obtain :: int
  mutex_lock_result :: int
  usleep_release :: int
  mutex_unlock_result :: int

datatype thread_call = Usleep uint32_t | Mutex_lock ptr | Mutex_unlock ptr

section \<open>Operations\<close>

definition threadfunc :: "thread_os \<Rightarrow> thread_data \<Rightarrow> thread_call list \<times> thread_data" where
  "threadfunc os args =
     (let c1 = [Usleep (wait_to_obtain_ms args * 1000)];
          c2 = c1 @ [Mutex_lock (tmutex args)];
          c3 = c2 @ [Usleep (wait_to_release_ms args * 1000)];
          c4 = c3 @ [Mutex_unlock (tmutex args)] in
      if usleep_obtain os \<noteq> 0 then (c1, args\<lparr>thread_complete_success := False\<rparr>)
      else if mutex_lock_result os \<noteq> 0 then (c2, args\<lparr>thread_complete_success := False\<rparr>)
      else if usleep_release os \<noteq> 0 then (c3, args\<lparr>thread_complete_success := False\<rparr>)
      else if mutex_unlock_result os \<noteq> 0 then (c4, args\<lparr>thread_complete_success := False\<rparr>)
      else (c4, args\<lparr>thread_complete_success := True\<rparr>))"

text \<open>
  The allocated \<open>thread_data\<close> blocks and the threads started, each with its argument; \<open>malloc_result\<close>
  and \<open>create_result\<close> are the answers of \<open>malloc\<close> and \<open>pthread_create\<close>.  The waits are passed as
  \<open>int\<close> and stored as \<open>unsigned int\<close>, which keeps their 32 bits.
\<close>

record thread_heap =
  blocks :: "ptr \<rightharpoonup> thread_data"
  started :: "ptr list"

definition start_thread_obtaining_mutex ::
  "ptr \<Rightarrow> int \<Rightarrow> ptr \<Rightarrow> uint32_t \<Rightarrow> uint32_t \<Rightarrow> thread_heap \<Rightarrow> bool \<times> thread_heap"
where
  "start_thread_obtaining_mutex malloc_result create_result mutex obtain_ms release_ms h =
     (if malloc_result = NULL then (False, h)
      else
        let data = \<lparr>tmutex = mutex, wait_to_obtain_ms = obtain_ms, wait_to_release_ms = release_ms,
              thread_complete_success = False\<rparr>;
            h1 = h\<lparr>blocks := (blocks h)(malloc_result \<mapsto> data)\<rparr> in
        if create_result \<noteq> 0 then (False, h1)
        else (True, h1\<lparr>started := started h1 @ [malloc_result]\<rparr>))"

section \<open>Properties\<close>

text \<open>
  The mutexes a thread holds after its calls: \<open>pthread_mutex_lock\<close> takes the mutex, and
  \<open>pthread_mutex_unlock\<close> gives it back, only when it returns 0.
\<close>

fun held_after :: "thread_os \<Rightarrow> thread_call list \<Rightarrow> ptr set \<Rightarrow> ptr set" where
  "held_after os [] H = H"
| "held_after os (Mutex_lock p # cs) H = held_after os cs (if mutex_lock_result os = 0 then insert p H else H)"
| "held_after os (Mutex_unlock p # cs) H = held_after os cs (if mutex_unlock_result os = 0 then H - {p} else H)"
| "held_after os (Usleep n # cs) H = held_after os cs H"

text \<open>
  \<open>threadfunc\<close> reports success exactly when all four calls succeed, and then it has slept, locked,
  slept and unlocked in this order, each sleep lasting the configured milliseconds times 1000
  modulo \<open>2 ^ 32\<close> microseconds; its other fields are unchanged.
\<close>

theorem threadfunc_success:
  "case threadfunc os args of (calls, args') \<Rightarrow>
     (thread_complete_success args' \<longleftrightarrow>
        usleep_obtain os = 0 \<and> mutex_lock_result os = 0 \<and> usleep_release os = 0 \<and>
        mutex_unlock_result os = 0) \<and>
     args' = args\<lparr>thread_complete_success := thread_complete_success args'\<rparr> \<and>
     (\<not> thread_complete_success args' \<or>
        (\<exists>t1 t2. calls = [Usleep t1, Mutex_lock (tmutex args), Usleep t2, Mutex_unlock (tmutex args)] \<and>
          unat t1 = unat (wait_to_obtain_ms args) * 1000 mod 2 ^ 32 \<and>
          unat t2 = unat (wait_to_release_ms args) * 1000 mod 2 ^ 32))"
  by (auto simp: threadfunc_def Let_def unat_word_ariths)

theorem threadfunc_success_witness:
  "thread_complete_success (snd (threadfunc
     \<lparr>usleep_obtain = 0, mutex_lock_result = 0, usleep_release = 0, mutex_unlock_result = 0\<rparr>
     \<lparr>tmutex = 9, wait_to_obtain_ms = 5, wait_to_release_ms = 5, thread_complete_success = False\<rparr>))"
  using threadfunc_success [of
     "\<lparr>usleep_obtain = 0, mutex_lock_result = 0, usleep_release = 0, mutex_unlock_result = 0\<rparr>"
     "\<lparr>tmutex = 9, wait_to_obtain_ms = 5, wait_to_release_ms = 5, thread_complete_success = False\<rparr>"]
  by (auto split: prod.splits)

text \<open>
  (C36) A thread that held no mutex ends with its mutex still locked exactly when it slept, took the
  mutex, and then the second sleep failed, for example because a signal interrupts it, or the unlock
  failed; otherwise it holds no mutex.  A run that reports success never keeps it.
\<close>

theorem threadfunc_keeps_mutex_on_interrupt:
  "held_after os (fst (threadfunc os args)) {} =
     (if usleep_obtain os = 0 \<and> mutex_lock_result os = 0 \<and>
         (usleep_release os \<noteq> 0 \<or> mutex_unlock_result os \<noteq> 0)
      then {tmutex args} else {}) \<and>
   \<not> (thread_complete_success (snd (threadfunc os args)) \<and> held_after os (fst (threadfunc os args)) {} \<noteq> {})"
  by (simp add: threadfunc_def Let_def)

theorem threadfunc_keeps_mutex_on_interrupt_witness:
  "held_after \<lparr>usleep_obtain = 0, mutex_lock_result = 0, usleep_release = -1, mutex_unlock_result = 0\<rparr>
     (fst (threadfunc
       \<lparr>usleep_obtain = 0, mutex_lock_result = 0, usleep_release = -1, mutex_unlock_result = 0\<rparr>
       \<lparr>tmutex = 9, wait_to_obtain_ms = 5, wait_to_release_ms = 5, thread_complete_success = False\<rparr>)) {} = {9}"
  using threadfunc_keeps_mutex_on_interrupt [of
     "\<lparr>usleep_obtain = 0, mutex_lock_result = 0, usleep_release = -1, mutex_unlock_result = 0\<rparr>"
     "\<lparr>tmutex = 9, wait_to_obtain_ms = 5, wait_to_release_ms = 5, thread_complete_success = False\<rparr>"]
  by simp

text \<open>
  \<open>start_thread_obtaining_mutex\<close> reports true exactly when a thread was started, whose argument is
  a fresh block with the given mutex and waits; when \<open>pthread_create\<close> fails the block stays
  allocated though no thread owns it.
\<close>

theorem start_thread_outcome:
  assumes "blocks h p = None" and "p \<noteq> NULL"
  shows "case start_thread_obtaining_mutex p create_result m t1 t2 h of (ok, h') \<Rightarrow>
    (ok \<longleftrightarrow> create_result = 0) \<and>
    blocks h' = (blocks h)(p \<mapsto> \<lparr>tmutex = m, wait_to_obtain_ms = t1, wait_to_release_ms = t2,
      thread_complete_success = False\<rparr>) \<and>
    started h' = started h @ (if ok then [p] else [])"
  using assms by (simp add: start_thread_obtaining_mutex_def Let_def)

theorem start_thread_outcome_witness:
  "\<not> fst (start_thread_obtaining_mutex 4 11 9 5 5 \<lparr>blocks = Map.empty, started = []\<rparr>) \<and>
   blocks (snd (start_thread_obtaining_mutex 4 11 9 5 5 \<lparr>blocks = Map.empty, started = []\<rparr>)) 4 \<noteq> None"
  using start_thread_outcome [of "\<lparr>blocks = Map.empty, started = []\<rparr>" 4 11 9 5 5]
  by (auto split: prod.splits)

end
