(* ===== verification/Writer.thy ===== *)
theory Writer
  imports Aesd_Prelude
begin

text \<open>
  The program \<open>finder-app/writer.c\<close>: it writes its second argument to the file named by its first.
\<close>

section \<open>The file interface and the program\<close>

text \<open>
  \<open>writer_open\<close> is the descriptor \<open>open\<close> returns or -1, \<open>writer_write\<close> the number of bytes \<open>write\<close> accepts
  or -1.  What a successful \<open>open\<close> leaves of the file depends on its flags: a missing file is there,
  empty, with \<open>O_CREAT\<close>, and a file that is there is emptied with \<open>O_TRUNC\<close> only.  The descriptor starts
  at offset 0, and a \<open>write\<close> overwrites what is there from the descriptor's offset on.
\<close>

record writer_os =
  writer_open :: "string \<Rightarrow> int"
  writer_write :: "string \<Rightarrow> int"

datatype open_flag = O_WRONLY | O_CREAT | O_TRUNC

type_synonym file_store = "string \<rightharpoonup> string"

definition open_effect :: "open_flag list \<Rightarrow> string \<Rightarrow> file_store \<Rightarrow> file_store" where
  "open_effect flags f fs = (case fs f of
       None \<Rightarrow> if O_CREAT \<in> set flags then fs(f \<mapsto> []) else fs
     | Some old \<Rightarrow> if O_TRUNC \<in> set flags then fs(f \<mapsto> []) else fs)"

definition write_effect :: "nat \<Rightarrow> string \<Rightarrow> string \<Rightarrow> file_store \<Rightarrow> file_store" where
  "write_effect off bs f fs =
     fs(f := map_option (\<lambda>old. take off old @ bs @ drop (off + length bs) old) (fs f))"

definition writer_main :: "writer_os \<Rightarrow> string list \<Rightarrow> file_store \<Rightarrow> int \<times> file_store" where
  "writer_main os argv fs =
     (if length argv \<noteq> 3 then (1, fs)
      else
        let filename = argv ! 1; text = argv ! 2; fd = writer_open os filename in
        if fd = -1 then (1, fs)
        else
          let fs1 = open_effect [O_WRONLY, O_CREAT, O_TRUNC] filename fs;
              res = writer_write os text in
          if res = -1 then (1, fs1)
          else (0, write_effect 0 (take (nat res) text) filename fs1))"

section \<open>Properties\<close>

lemma open_effect_empties: "open_effect [O_WRONLY, O_CREAT, O_TRUNC] f fs = fs(f \<mapsto> [])"
  by (simp add: open_effect_def split: option.split)

text \<open>
  (C37) The exit status is 0 exactly for two arguments, a file that opens and a \<open>write\<close> that does not
  fail; the file, there before or not, then holds the bytes \<open>write\<close> accepted and nothing of its old
  contents, the whole string exactly when all were accepted.  Nothing changes when the arguments are
  wrong or the file does not open, a failed \<open>write\<close> leaves it empty, and no other file ever changes.  A
  partial write is not noticed: it exits with 0 too.
\<close>

theorem writer_main_outcome:
  assumes "\<And>s. writer_write os s \<le> int (length s)"
  shows "case writer_main os argv fs of (status, fs') \<Rightarrow>
    (status = 0 \<or> status = 1) \<and>
    (status = 0 \<longleftrightarrow> length argv = 3 \<and> writer_open os (argv ! 1) \<noteq> -1 \<and> writer_write os (argv ! 2) \<noteq> -1) \<and>
    (status = 0 \<longrightarrow> fs' (argv ! 1) = Some (take (nat (writer_write os (argv ! 2))) (argv ! 2)) \<and>
       (fs' (argv ! 1) = Some (argv ! 2) \<longleftrightarrow> writer_write os (argv ! 2) = int (length (argv ! 2)) \<or> argv ! 2 = [])) \<and>
    (length argv \<noteq> 3 \<or> writer_open os (argv ! 1) = -1 \<longrightarrow> fs' = fs) \<and>
    (status = 1 \<and> length argv = 3 \<and> writer_open os (argv ! 1) \<noteq> -1 \<longrightarrow> fs' (argv ! 1) = Some []) \<and>
    (\<forall>f. f \<noteq> argv ! 1 \<longrightarrow> fs' f = fs f)"
proof -
  have "take (nat n) s = s \<longleftrightarrow> n = int (length s) \<or> s = []" if "n \<le> int (length s)" for n and s :: string
    using that by (cases s) auto
  with assms show ?thesis by (simp add: writer_main_def open_effect_empties write_effect_def Let_def)
qed

definition sample_writer_os :: writer_os where
  "sample_writer_os = \<lparr>writer_open = (\<lambda>f. 3), writer_write = (\<lambda>s. min 2 (int (length s)))\<rparr>"

theorem writer_main_outcome_witness:
  "fst (writer_main sample_writer_os [''writer'', ''out'', ''abc''] [''out'' \<mapsto> ''older'']) = 0 \<and>
   snd (writer_main sample_writer_os [''writer'', ''out'', ''abc''] [''out'' \<mapsto> ''older'']) ''out'' = Some ''ab''"
  using writer_main_outcome [of sample_writer_os "[''writer'', ''out'', ''abc'']" "[''out'' \<mapsto> ''older'']"]
  by (auto simp: sample_writer_os_def numeral_2_eq_2 split: prod.splits)

end
