(* ===== verification/Autotest.thy ===== *)
theory Autotest
  imports Aesd_Prelude
begin

text \<open>
  The validation sample of \<open>examples/autotest-validate\<close> and its unit test.  Reading the configuration
  file is the test framework's \<open>malloc_username_from_conf_file\<close>, a parameter.
\<close>

definition this_function_returns_true :: bool where
  "this_function_returns_true = True"

definition this_function_returns_false :: bool where
  "this_function_returns_false = False"

definition my_username :: string where
  "my_username = ''lynchrl''"

definition git_username :: string where
  "git_username = ''akshita-bhasin''"

text \<open>What \<open>main\<close> prints.\<close>

definition autotest_main :: string where
  "autotest_main =
     ''this_function_returns_true returned '' @ (if this_function_returns_true then ''true'' else ''false'') @ [newline] @
     ''this_function_returns_false returned '' @ (if this_function_returns_false then ''true'' else ''false'') @ [newline]"

text \<open>Whether the assertion of the test holds, \<open>None\<close> being a null pointer from the framework.\<close>

definition test_validate_my_username :: "string option \<Rightarrow> bool" where
  "test_validate_my_username malloc_username_from_conf_file \<longleftrightarrow> malloc_username_from_conf_file = Some my_username"

text \<open>
  The test passes for the name in \<open>conf/username.txt\<close>; the name that \<open>autotest-validate-main.c\<close> keeps
  in a variable of its own would fail it.
\<close>

lemma validate_username:
  "test_validate_my_username (Some ''lynchrl'')" "\<not> test_validate_my_username (Some git_username)"
  by (simp_all add: test_validate_my_username_def my_username_def git_username_def)

end
