(* ===== verification/Spec2Isabelle.thy ===== *)
theory Spec2Isabelle
  imports Driver_Theorems Driver_Threads Ioctl_Abi Server Handler_Theorems File_Theorems Service_Theorems
    Server_Handler Server_Service Server_Signals Queue_Variants Queue_Debug Ioctl_Test Systemcalls
    Threading Writer Autotest
begin

text \<open>
  A verification of the \<open>aesd-assignments\<close> repository: a Linux character device that keeps the last
  ten lines written to it, a socket server that stores the packets of its clients in that device
  and sends its contents back, and some small programs.

  \<^bold>\<open>The parts of the program and how they interact.\<close>
  The driver (\<open>src/aesd-char-driver\<close>) has a circular buffer of ten entries
  (\<open>aesd-circular-buffer.c\<close>) and file operations on it (\<open>main.c\<close>).  A \<open>write\<close> collects bytes in a
  pending entry until a newline and then inserts the entry in the ring, freeing the buffer of the
  entry it replaces; \<open>read\<close>, \<open>llseek\<close> and the ioctl \<open>AESDCHAR_IOCSEEKTO\<close> work on the concatenation of
  the entries.  The server (\<open>src/server\<close>) accepts connections in \<open>aesdsocket.c\<close>, keeps a node for
  each in a linked list (the \<open>SLIST\<close> macros of \<open>queue.h\<close>) shared with the handler threads, and joins
  and frees those that have ended.  A handler thread (\<open>handler.c\<close>) receives a packet, appends it to
  \<open>/dev/aesdchar\<close> and sends back what the device holds; a packet that starts with
  \<open>AESDCHAR_IOCSEEKTO:\<close> is instead a seek through the driver's ioctl.  Built without
  \<open>USE_AESD_CHAR_DEVICE\<close>, the server keeps the packets in a plain file under a mutex, and the handler of a
  timer signal (\<open>alarm_handler\<close>) appends a timestamp line to it every ten seconds.  \<open>ioctl_test.c\<close> exercises that
  ioctl from the command line.  \<open>systemcalls.c\<close>, \<open>threading.c\<close> and \<open>writer.c\<close> stand alone.

  \<^bold>\<open>The theories.\<close>
  \<^item> \<open>Aesd_Prelude\<close>: C integers as words, a heap of live blocks (an address to the bytes of the block
    it starts), loads, stores and frees that are undefined outside live blocks, list and word
    facts, the locale \<open>invariant_system\<close> of invariants of a transition system, and fair runs with the
    locale \<open>ranked_progress\<close> of steps that lead to a goal.
  \<^item> \<open>Circular_Buffer\<close>: \<open>aesd-circular-buffer.c\<close> and its header.  \<open>cbuf_inv\<close> is the invariant and
    \<open>cbuf_entries\<close> the list of entries, oldest first.  The locale \<open>bounded_log\<close> is the contract of a
    log of bounded length; the code's operations are its interpretation \<open>cb\<close>.
  \<^item> \<open>Char_Driver\<close>: the device structure, \<open>aesd_open\<close>, \<open>aesd_release\<close>, \<open>aesd_ioctl\<close>,
    \<open>aesd_llseek\<close>, \<open>aesd_read\<close>, \<open>aesd_write\<close>, \<open>aesd_init_module\<close> and \<open>aesd_cleanup_module\<close> of \<open>main.c\<close>,
    each a function from the kernel's state (kernel memory, the device with its lock, the
    character device registration) to a result and the new state.  What the driver calls of the
    kernel is the record \<open>kapi\<close>.
  \<^item> \<open>Driver_Refinement\<close>: the documented behaviour of the kernel functions (\<open>kapi_ok\<close>), the device
    invariant \<open>dev_inv\<close> (ring, ownership of memory, free lock) and the abstraction \<open>abs_dev\<close> to a
    \<open>log_dev\<close> of completed commands and pending bytes, with the effect of every operation on it.
  \<^item> \<open>Driver_System\<close>: the operations table \<open>aesd_fops\<close> and the transition system of a loaded driver
    with any number of open files; interpretation \<open>drv\<close> of \<open>invariant_system\<close>.
  \<^item> \<open>Sample_Kernel\<close>: a concrete kernel that meets \<open>kapi_ok\<close>.
  \<^item> \<open>Driver_Theorems\<close>: the properties of the driver.
  \<^item> \<open>Lock_Discipline\<close>: threads that run calls on an object with one lock; the code of a call is a list of
    instructions, its lock and unlock operations among them, and the locale \<open>guarded_object\<close> is the contract
    under which such calls are atomic.  \<open>Driver_Threads\<close>: the file operations as such code
    (\<open>aesd_read_code\<close> and so on: early returns, lock, groups of statements, unlock), the proof that run
    alone it is the operation of \<open>Char_Driver\<close>, and the interpretation \<open>dt\<close> of that contract.
  \<^item> \<open>Ioctl_Abi\<close>: the bytes of \<open>struct aesd_seekto\<close> on their way from user space
    (\<open>src/server/aesd_ioctl.h\<close>) to the driver.
  \<^item> \<open>Slist\<close>: the \<open>SLIST\<close> macros of \<open>queue.h\<close> on a map of links; locale \<open>linked_list\<close> with its
    interpretation \<open>sl\<close>.  \<open>Queue_Cells\<close>: the memory of the other kinds of queue, in which fields hold the
    addresses of other fields, chains, and the locale \<open>tail_queue\<close>.  \<open>Stailq\<close>,
    \<open>Queue_List\<close>, \<open>Tailq\<close>: the \<open>STAILQ\<close>, \<open>LIST\<close> and \<open>TAILQ\<close> macros with the interpretations \<open>stq\<close>, \<open>bl\<close>
    and \<open>tq\<close>.  \<open>Queue_Variants\<close>: traversals from an element, the \<open>PREVPTR\<close> variants, assertions.
    \<open>Queue_Debug\<close>: the debug modes that overwrite removed links (\<open>TRASH\<close>) and record the places of the
    macros that trace a head or an entry (\<open>TRACE\<close>), and the server's reaping with trashed links.
  \<^item> \<open>Server\<close>: \<open>aesdsocket.c\<close>.  \<open>main\<close> is split at its loop (\<open>main_setup\<close>, \<open>loop_test\<close>, \<open>accept_body\<close>,
    \<open>main_shutdown\<close>); its steps interleave with signals and with the end of handler threads
    (\<open>conn_finish\<close>) in \<open>server_step\<close>; interpretation \<open>srv\<close> of \<open>invariant_system\<close>.  The properties of the
    server are at the end of the theory.  \<open>Server_Signals\<close>: \<open>main\<close> asleep in \<open>accept\<close>, signals with the handlers
    that \<open>main_setup\<close> installs or their default action, clients in the backlog; its steps \<open>live_step\<close> refine
    \<open>server_step\<close>; interpretations \<open>lv\<close> of \<open>invariant_system\<close> and \<open>lx\<close> of \<open>ranked_progress\<close>.
  \<^item> \<open>Handler\<close>: \<open>handler.c\<close> over any system interface \<open>hapi\<close>, with its packet buffer in a heap.
    \<open>Handler_Buffer\<close>: memory safety of that buffer.  \<open>Handler_Host\<close>: the locale \<open>server_host\<close>, what the
    handler needs of a system that other threads use too, and its extension \<open>storage_host\<close>, what the
    calls do to the stored data while nobody else does; the handler's behaviour is proved from these
    laws.  \<open>Device_Host\<close>: the system calls implemented by the driver model, with any operations of
    other threads and processes on the driver before every call; interpretations \<open>shared\<close> and \<open>whole\<close> of
    \<open>server_host\<close> and \<open>aesd\<close> of \<open>storage_host\<close>.  \<open>Handler_Theorems\<close>: the properties of the handler
    running on the driver.  \<open>Decimal\<close>: decimal notation and the scanner of the seek command.
  \<^item> \<open>File_Host\<close>: the build without the device: the data file and its system calls, the file mutex and
    its copy, \<open>alarm_handler\<close>, and both as events between the calls of a connection; interpretations
    \<open>shared_file\<close> and \<open>filed\<close>.  \<open>File_Theorems\<close>: the properties of that build.
  \<^item> \<open>Handler_Service\<close>: the packets and replies of a whole connection, the reference \<open>session\<close> of one with
    seek commands among its packets, and the locale \<open>reliable_host\<close>, a \<open>storage_host\<close> on which the calls
    succeed.  \<open>Service_Theorems\<close>: its interpretations \<open>fw\<close> on a file and
    \<open>dw\<close> on the driver, and what a client is served in both builds, a client that prints a seek command
    included.
  \<^item> \<open>Server_Handler\<close>: the server process with handler threads that run \<open>handle_connection\<close>; the end of
    such a thread is the step \<open>conn_finish\<close> of \<open>Server\<close>.  \<open>Server_Service\<close>: clients served one after another
    by the whole program.
  \<^item> \<open>Ioctl_Test\<close>, \<open>Systemcalls\<close>, \<open>Threading\<close>, \<open>Writer\<close>: the small programs, with their properties.
    \<open>Autotest\<close>: the validation sample and its unit test.

  \<^bold>\<open>What is shown.\<close>
  For the ring: insertion and search refine the list of the last ten entries.  For the driver: from
  loading on, whatever sequence of operations is run on whatever files and however the kernel's
  allocator and user memory behave, every operation returns, memory is exactly what the ring and
  the pending entry own, and what a reader sees is the last ten completed commands; the results
  of \<open>read\<close>, \<open>write\<close>, \<open>llseek\<close> and the ioctl are characterised on every branch.  Any number of threads
  may be in these operations at once, between any two of their small steps: whoever works on the device
  holds its mutex, which follows from where the code of the operations locks; their calls have the
  effect and the results of calls made one after the other, and no schedule deadlocks.  For the
  server: list, nodes, threads and sockets stay consistent under any interleaving, finished threads
  and no others are joined and freed, failed iterations are undone, and in every fair run a
  termination signal leads to the exit, but for one moment in the loop.  For the
  handler, on the driver and on a file: it always returns, frees and closes what
  it acquired and releases the mutex, whatever other threads do between its calls; packets of
  different connections do not run together in the device; without interference each completed
  packet is stored with one \<open>write\<close> and the contents from the connection's position on are sent, and a
  whole connection on which nothing fails stores all packets and sends each stored byte once; with seek
  commands, what is sent and stored is what \<open>session\<close> says.  For the process: every handler
  ends with the step that the server model assumes, and leaves no memory behind; clients served in turn while nothing fails are sent, and leave in the driver or the file, what
  \<open>sessions\<close> says.  For the timestamp handler: the line fits its buffer, is appended whole if nothing fails,
  and locks are released.  For the lists and queues: every operation keeps its queue well formed,
  gives the expected list and changes nothing else, every loop ends, and the debug modes make no
  difference to a proper use.  For the small programs: \<open>ioctl_test\<close> prints the byte it is asked for,
  \<open>do_exec\<close> reports success exactly for a program that ran and exited with 0, whatever signal may end it,
  \<open>threadfunc\<close> keeps its mutex exactly on the paths on which it forgets it or cannot unlock it, and \<open>writer\<close>
  leaves in its file what \<open>write\<close> accepted and nothing else.
  Theorems whose names say so show where the code does less than it means to: the ioctl after the
  ring has wrapped, the pending buffer at unload, seek commands
  that arrive in two pieces, read errors, running connections at shutdown, connections before the
  data file exists, packets that get no reply once the device is full and the client has read all of
  it, and a termination signal just before \<open>accept\<close>.  That a completing \<open>write\<close> reports the size of the whole
  command is a branch of \<open>aesd_write_refines\<close>.

  \<^bold>\<open>Conventions and bounds.\<close>
  \<open>None\<close> is undefined behaviour, a deadlock or a loop without end; that operations return \<open>Some\<close> is
  always part of what is proved.  Loops of the source that have no evident bound (the search in
  the ring, the list traversals, sending to the client) are \<open>partial_function\<close>s without fuel, and the
  theorems show that they end; the receive loop recurses on the chunks that \<open>recv\<close> delivers.
  \<open>FILE_MAX\<close> (\<open>2 ^ 63 - 1\<close>) is the largest file.  Sizes are 64-bit words, the ring's indices 8-bit
  words.  \<open>kmalloc_bound\<close> (\<open>2 ^ 59\<close> bytes) bounds what
  an allocation can return, far above the kernel's limit, so that the sum of eleven sizes fits in
  64 bits; \<open>MAX_RW_COUNT\<close> is the kernel's limit on a count passed to \<open>read\<close> and \<open>write\<close>.  An operation of
  the driver is one step of \<open>Driver_System\<close> and of the worlds of \<open>Device_Host\<close>, which \<open>Driver_Threads\<close>
  justifies: small steps there are groups of statements, each of which reads or writes the
  device's data or kernel memory, and a schedule may switch threads between any two, also just before
  a lock and just after an unlock.  Positions and
  file structures belong to the calling thread.  The end of a handler thread (\<open>conn_finish\<close>: it closes the
  socket, marks its node and returns) and an iteration of the accept loop are one step each: the list is
  touched by the main thread alone, the flag is the last thing a handler writes, and \<open>pthread_join\<close> waits
  for its return.  Between the close and the flag the descriptor's number may already belong to a new
  connection, which the model does not show; the handler does not use it any more then.
  The mutex in \<open>server_info\<close> is a copy of an initialised one, whose use POSIX leaves undefined; the model
  takes it as another mutex (\<open>main_mutexes\<close> in \<open>File_Host\<close>), as it is where a mutex is the contents of its
  structure.

  \<^bold>\<open>Not modelled.\<close>
  Of \<open>queue.h\<close>: the \<open>ATOMIC\<close> tests and the declarations for C++ classes, which the program does not use.
  Log output.  A \<open>send\<close> to a client that has gone returns an error in \<open>Handler\<close>; the \<open>SIGPIPE\<close> that comes with it
  is not sent.  A handler's calls are interleaved with other users of its storage, but not with other handlers' use of the
  process's memory, which each thread allocates for itself.  Two threads that share one open file
  share its position; the model of interleaved calls gives each call the position it started with.
  System calls, \<open>strftime\<close>, the C
  library's \<open>sscanf\<close> integer conversion, the kernel's allocator, user-copy functions and
  \<open>fixed_size_llseek\<close> are modelled by their documented behaviour or are parameters with that behaviour as
  hypotheses.
\<close>

end
